(* ===== verification/Prelude.thy ===== *)
theory Prelude
  imports
    Main
    "HOL-Library.Word"
    "HOL-Library.AList"
    "HOL-Library.Sublist"
    "HOL-Library.Monad_Syntax"
begin

text \<open>
  Types, string operations and table lemmas shared by every component.

  Text and wire data are byte lists (\<^typ>\<open>string\<close>): a Rust \<open>String\<close> or \<open>&str\<close> is its UTF-8
  encoding, a \<open>Vec<u8>\<close> its bytes. The operations below are the methods of \<open>str\<close>, \<open>u8\<close> and
  the integer types that the sources call (\<open>trim\<close>, \<open>split_once\<close>, \<open>rsplit_once\<close>,
  \<open>splitn\<close>, \<open>strip_prefix\<close>, \<open>eq_ignore_ascii_case\<close>, \<open>parse\<close>, \<open>to_string\<close>).
  \<open>char::is_whitespace\<close> is the Unicode property White_Space, written as the list of the UTF-8
  encodings of its characters; in well-formed UTF-8 no such encoding starts inside another
  character, so scanning bytes and scanning characters find the same positions.

  A \<open>Duration\<close> is a number of nanoseconds (\<^typ>\<open>nat\<close>); an addition that leaves the range of
  \<open>Duration\<close> (more than 500 billion years) is not modelled. A \<open>HashMap\<close> is an association
  list with distinct keys, in its iteration order.
\<close>

named_theorems str_simps \<open>evaluation of the string operations\<close>
named_theorems table_simps \<open>lookup, update, delete and size of association lists\<close>

type_synonym duration = nat
type_synonym u32 = "32 word"
type_synonym ('k, 'v) table = "('k \<times> 'v) list"

section \<open>Bytes\<close>

definition byte :: "nat \<Rightarrow> char" where
  "byte n = char_of n"

abbreviation CR :: char where "CR \<equiv> CHR 0x0D"
abbreviation LF :: char where "LF \<equiv> CHR 0x0A"
abbreviation SP :: char where "SP \<equiv> CHR '' ''"
abbreviation DQ :: char where "DQ \<equiv> CHR 0x22"
abbreviation CRLF :: string where "CRLF \<equiv> [CR, LF]"

definition is_ascii_digit :: "char \<Rightarrow> bool" where
  "is_ascii_digit c \<longleftrightarrow> 48 \<le> (of_char c :: nat) \<and> (of_char c :: nat) \<le> 57"

definition is_ascii_uppercase :: "char \<Rightarrow> bool" where
  "is_ascii_uppercase c \<longleftrightarrow> 65 \<le> (of_char c :: nat) \<and> (of_char c :: nat) \<le> 90"

definition is_ascii_lowercase :: "char \<Rightarrow> bool" where
  "is_ascii_lowercase c \<longleftrightarrow> 97 \<le> (of_char c :: nat) \<and> (of_char c :: nat) \<le> 122"

definition to_ascii_lowercase :: "char \<Rightarrow> char" where
  "to_ascii_lowercase c = (if is_ascii_uppercase c then char_of (of_char c + 32 :: nat) else c)"

definition to_ascii_uppercase :: "char \<Rightarrow> char" where
  "to_ascii_uppercase c = (if is_ascii_lowercase c then char_of (of_char c - 32 :: nat) else c)"

definition eq_ignore_ascii_case :: "string \<Rightarrow> string \<Rightarrow> bool" where
  "eq_ignore_ascii_case a b \<longleftrightarrow> map to_ascii_lowercase a = map to_ascii_lowercase b"

lemma eq_ignore_ascii_case_refl [simp]: "eq_ignore_ascii_case s s"
  by (simp add: eq_ignore_ascii_case_def)

section \<open>Searching and splitting\<close>

fun split_once :: "char \<Rightarrow> string \<Rightarrow> (string \<times> string) option" where
  "split_once d [] = None"
| "split_once d (c # cs) =
     (if c = d then Some ([], cs)
      else map_option (\<lambda>(a, b). (c # a, b)) (split_once d cs))"

definition rsplit_once :: "char \<Rightarrow> string \<Rightarrow> (string \<times> string) option" where
  "rsplit_once d s = map_option (\<lambda>(a, b). (rev b, rev a)) (split_once d (rev s))"

fun split_on :: "char \<Rightarrow> string \<Rightarrow> string list" where
  "split_on d [] = [[]]"
| "split_on d (c # cs) =
     (if c = d then [] # split_on d cs
      else (case split_on d cs of [] \<Rightarrow> [[c]] | t # ts \<Rightarrow> (c # t) # ts))"

definition strip_prefix :: "string \<Rightarrow> string \<Rightarrow> string option" where
  "strip_prefix p s = (if prefix p s then Some (drop (length p) s) else None)"

definition trim_matches :: "char \<Rightarrow> string \<Rightarrow> string" where
  "trim_matches d s = rev (dropWhile (\<lambda>c. c = d) (rev (dropWhile (\<lambda>c. c = d) s)))"

lemma split_once_None_iff: "split_once d s = None \<longleftrightarrow> d \<notin> set s"
  by (induction s) auto

lemma split_once_append [simp]:
  "d \<notin> set a \<Longrightarrow> split_once d (a @ d # b) = Some (a, b)"
  by (induction a) auto

lemma split_once_notin [simp]: "d \<notin> set s \<Longrightarrow> split_once d s = None"
  by (simp add: split_once_None_iff)

lemma split_once_SomeD:
  "split_once d s = Some (a, b) \<Longrightarrow> s = a @ d # b \<and> d \<notin> set a"
  by (induction s arbitrary: a) (auto split: if_splits)

lemma rsplit_once_append [simp]:
  "d \<notin> set b \<Longrightarrow> rsplit_once d (a @ d # b) = Some (a, b)"
  by (simp add: rsplit_once_def)

lemma rsplit_once_Cons_append [simp]:
  "d \<notin> set b \<Longrightarrow> rsplit_once d (c # a @ d # b) = Some (c # a, b)"
  using rsplit_once_append [of d b "c # a"] by simp

lemma rsplit_once_notin [simp]: "d \<notin> set s \<Longrightarrow> rsplit_once d s = None"
  by (simp add: rsplit_once_def)

lemma split_on_notin [simp]: "d \<notin> set s \<Longrightarrow> split_on d s = [s]"
  by (induction s) auto

lemma split_on_not_Nil [simp]: "split_on d s \<noteq> []"
  by (cases s) (auto split: list.splits)

lemma split_on_append [simp]:
  "d \<notin> set a \<Longrightarrow> split_on d (a @ d # b) = a # split_on d b"
  by (induction a) auto

lemma strip_prefix_append [simp]: "strip_prefix p (p @ s) = Some s"
  by (simp add: strip_prefix_def)

section \<open>White space\<close>

definition whitespace_seqs :: "string list" where
  "whitespace_seqs =
     [[CHR 0x09], [CHR 0x0A], [CHR 0x0B], [CHR 0x0C], [CHR 0x0D], [CHR 0x20],
      [CHR 0xC2, CHR 0x85], [CHR 0xC2, CHR 0xA0],
      [CHR 0xE1, CHR 0x9A, CHR 0x80],
      [CHR 0xE2, CHR 0x80, CHR 0x80], [CHR 0xE2, CHR 0x80, CHR 0x81],
      [CHR 0xE2, CHR 0x80, CHR 0x82], [CHR 0xE2, CHR 0x80, CHR 0x83],
      [CHR 0xE2, CHR 0x80, CHR 0x84], [CHR 0xE2, CHR 0x80, CHR 0x85],
      [CHR 0xE2, CHR 0x80, CHR 0x86], [CHR 0xE2, CHR 0x80, CHR 0x87],
      [CHR 0xE2, CHR 0x80, CHR 0x88], [CHR 0xE2, CHR 0x80, CHR 0x89],
      [CHR 0xE2, CHR 0x80, CHR 0x8A], [CHR 0xE2, CHR 0x80, CHR 0xA8],
      [CHR 0xE2, CHR 0x80, CHR 0xA9], [CHR 0xE2, CHR 0x80, CHR 0xAF],
      [CHR 0xE2, CHR 0x81, CHR 0x9F], [CHR 0xE3, CHR 0x80, CHR 0x80]]"

text \<open>The first listed sequence that starts \<open>s\<close>, if any.\<close>

definition leading :: "string list \<Rightarrow> string \<Rightarrow> string option" where
  "leading ws s = find (\<lambda>w. w \<noteq> [] \<and> prefix w s) ws"

lemma leading_SomeD: "leading ws s = Some w \<Longrightarrow> w \<noteq> [] \<and> prefix w s \<and> w \<in> set ws"
  by (auto simp: leading_def find_Some_iff)

lemma leading_None_iff: "leading ws s = None \<longleftrightarrow> (\<forall>w \<in> set ws. w \<noteq> [] \<longrightarrow> \<not> prefix w s)"
  by (auto simp: leading_def find_None_iff)

function strip_leading :: "string list \<Rightarrow> string \<Rightarrow> string" where
  "strip_leading ws s =
     (case leading ws s of None \<Rightarrow> s | Some w \<Rightarrow> strip_leading ws (drop (length w) s))"
  by pat_completeness auto
termination
  by (relation "measure (\<lambda>(ws, s). length s)")
     (auto dest!: leading_SomeD simp: prefix_def)

declare strip_leading.simps [simp del]

lemma strip_leading_None [simp]: "leading ws s = None \<Longrightarrow> strip_leading ws s = s"
  by (subst strip_leading.simps) simp

lemma strip_leading_result [simp]: "leading ws (strip_leading ws s) = None"
proof (induction ws s rule: strip_leading.induct)
  case (1 ws s)
  then show ?case
    by (cases "leading ws s") (simp_all add: strip_leading.simps [of ws s])
qed

definition trim_start :: "string \<Rightarrow> string" where
  "trim_start s = strip_leading whitespace_seqs s"

definition trim_end :: "string \<Rightarrow> string" where
  "trim_end s = rev (strip_leading (map rev whitespace_seqs) (rev s))"

definition trim :: "string \<Rightarrow> string" where
  "trim s = trim_end (trim_start s)"

text \<open>A string that \<open>trim\<close> leaves alone.\<close>

definition trimmed :: "string \<Rightarrow> bool" where
  "trimmed s \<longleftrightarrow> leading whitespace_seqs s = None \<and> leading (map rev whitespace_seqs) (rev s) = None"

lemma trim_start_trimmed [simp]: "trimmed s \<Longrightarrow> trim_start s = s"
  by (simp add: trim_start_def trimmed_def)

lemma trim_trimmed [simp]: "trimmed s \<Longrightarrow> trim s = s"
  by (simp add: trim_def trim_end_def trim_start_def trimmed_def)

text \<open>\<open>split_once(char::is_whitespace)\<close>: the text before and after the first white space.\<close>

fun split_once_ws :: "string \<Rightarrow> (string \<times> string) option" where
  "split_once_ws [] = None"
| "split_once_ws (c # cs) =
     (case leading whitespace_seqs (c # cs) of
        Some w \<Rightarrow> Some ([], drop (length w) (c # cs))
      | None \<Rightarrow> map_option (\<lambda>(a, b). (c # a, b)) (split_once_ws cs))"

text \<open>The bytes that start no white space sequence.\<close>

definition plain_char :: "char \<Rightarrow> bool" where
  "plain_char c \<longleftrightarrow> c \<notin> set (map hd whitespace_seqs)"

lemma leading_plain [simp]: "plain_char c \<Longrightarrow> leading whitespace_seqs (c # cs) = None"
  unfolding leading_None_iff plain_char_def by (auto simp: prefix_def neq_Nil_conv image_iff)

lemma leading_SP [simp]: "leading whitespace_seqs (SP # cs) = Some [SP]"
  by (simp add: leading_def whitespace_seqs_def)

lemma split_once_ws_plain [simp]:
  "list_all plain_char a \<Longrightarrow> split_once_ws (a @ SP # b) = Some (a, b)"
  by (induction a) simp_all

lemma plain_digit [simp]: "is_ascii_digit c \<Longrightarrow> plain_char c"
  unfolding plain_char_def whitespace_seqs_def is_ascii_digit_def by auto

section \<open>Numbers as text\<close>

definition digit_char :: "nat \<Rightarrow> char" where
  "digit_char d = char_of (48 + d)"

definition digit_value :: "char \<Rightarrow> nat" where
  "digit_value c = of_char c - 48"

fun nat_to_dec :: "nat \<Rightarrow> string" where
  "nat_to_dec n = (if n < 10 then [digit_char n] else nat_to_dec (n div 10) @ [digit_char (n mod 10)])"

declare nat_to_dec.simps [simp del]

definition digits_value :: "string \<Rightarrow> nat" where
  "digits_value ds = foldl (\<lambda>a d. 10 * a + digit_value d) 0 ds"

text \<open>
  \<open>parse::<uN>()\<close>: an optional \<open>+\<close>, at least one digit, digits only, and a value of at most
  \<open>mx\<close>.
\<close>

definition parse_uint :: "nat \<Rightarrow> string \<Rightarrow> nat option" where
  "parse_uint mx s =
     (let ds = (case s of [] \<Rightarrow> [] | c # cs \<Rightarrow> if c = CHR ''+'' then cs else s)
      in if ds = [] \<or> \<not> list_all is_ascii_digit ds then None
         else if digits_value ds \<le> mx then Some (digits_value ds) else None)"

definition u16_max :: nat where "u16_max = 65535"
definition u32_max :: nat where "u32_max = 4294967295"
definition u64_max :: nat where "u64_max = 18446744073709551615"

definition parse_u32 :: "string \<Rightarrow> u32 option" where
  "parse_u32 s = map_option of_nat (parse_uint u32_max s)"

lemma digit_char_props:
  assumes "d < 10"
  shows "is_ascii_digit (digit_char d)" "digit_value (digit_char d) = d"
  using assms by (simp_all add: is_ascii_digit_def digit_char_def digit_value_def)

lemma nat_to_dec_not_Nil [simp]: "nat_to_dec n \<noteq> []"
  by (subst nat_to_dec.simps) simp

lemma nat_to_dec_digits: "list_all is_ascii_digit (nat_to_dec n)"
proof (induction n rule: nat_to_dec.induct)
  case (1 n)
  then show ?case
    by (subst nat_to_dec.simps) (simp add: digit_char_props)
qed

lemma digits_value_snoc: "digits_value (ds @ [d]) = 10 * digits_value ds + digit_value d"
  by (simp add: digits_value_def)

lemma digits_value_nat_to_dec: "digits_value (nat_to_dec n) = n"
proof (induction n rule: nat_to_dec.induct)
  case (1 n)
  show ?case
  proof (cases "n < 10")
    case True
    then show ?thesis
      by (simp add: nat_to_dec.simps [of n] digits_value_def digit_char_props)
  next
    case False
    with 1 show ?thesis
      by (simp add: nat_to_dec.simps [of n] digits_value_snoc digit_char_props)
  qed
qed

lemma not_digit [simp]:
  "\<not> is_ascii_digit (CHR ''+'')" "\<not> is_ascii_digit SP" "\<not> is_ascii_digit CR" "\<not> is_ascii_digit LF"
  "\<not> is_ascii_digit (CHR '':'')" "\<not> is_ascii_digit (CHR '';'')" "\<not> is_ascii_digit (CHR ''@'')"
  "\<not> is_ascii_digit (CHR 0x5D)" "\<not> is_ascii_digit (CHR ''='')"
  by (simp_all add: is_ascii_digit_def)

lemma nat_to_dec_notin [simp]: "\<not> is_ascii_digit c \<Longrightarrow> c \<notin> set (nat_to_dec n)"
  using nat_to_dec_digits [of n] unfolding list_all_iff by blast

lemma parse_uint_nat_to_dec [simp]: "n \<le> mx \<Longrightarrow> parse_uint mx (nat_to_dec n) = Some n"
  using nat_to_dec_digits [of n] nat_to_dec_notin [of "CHR ''+''" n] digits_value_nat_to_dec [of n]
  by (auto simp: parse_uint_def Let_def split: list.split)

lemma parse_uint_le: "parse_uint mx s = Some n \<Longrightarrow> n \<le> mx"
  by (auto simp: parse_uint_def Let_def split: if_splits)

lemma unat_u32_le [simp]: "unat (n :: u32) \<le> u32_max"
proof -
  have "unat n < 2 ^ 32"
    using unsigned_less [of n] by simp
  then show ?thesis by (simp add: u32_max_def)
qed

lemma parse_u32_nat_to_dec [simp]: "parse_u32 (nat_to_dec (unat n)) = Some n"
  by (simp add: parse_u32_def)

definition saturating_add_u64 :: "nat \<Rightarrow> nat \<Rightarrow> nat" where
  "saturating_add_u64 a b = min (a + b) u64_max"

lemma find_append: "find P (xs @ ys) = (case find P xs of None \<Rightarrow> find P ys | Some x \<Rightarrow> Some x)"
  by (induction xs) auto

lemma find_filter_imp: "(\<And>x. Q x \<Longrightarrow> P x) \<Longrightarrow> find Q (filter P xs) = find Q xs"
  by (induction xs) auto

lemma find_filter_none: "(\<And>x. Q x \<Longrightarrow> \<not> P x) \<Longrightarrow> find Q (filter P xs) = None"
  by (induction xs) auto

section \<open>Tables\<close>

text \<open>
  A \<open>HashMap\<close> is an association list with distinct keys: \<^const>\<open>map_of\<close> reads it,
  \<^const>\<open>AList.update\<close> inserts, \<^const>\<open>AList.delete\<close> removes and \<^const>\<open>length\<close> is its size.
\<close>

abbreviation wf_table :: "('k, 'v) table \<Rightarrow> bool" where
  "wf_table t \<equiv> distinct (map fst t)"

lemma map_of_table_update [table_simps]: "map_of (AList.update k v t) = (map_of t)(k \<mapsto> v)"
  by (rule update_conv')

lemma map_of_table_delete [table_simps]: "map_of (AList.delete k t) = (map_of t)(k := None)"
  by (rule delete_conv')

lemma wf_table_update [table_simps]: "wf_table (AList.update k v t) = wf_table t"
  by (induction t) (auto simp: dom_update [unfolded dom_map_of_conv_image_fst] )

lemma wf_table_delete [table_simps]: "wf_table t \<Longrightarrow> wf_table (AList.delete k t)"
  by (rule distinct_delete)

lemma length_update_le [table_simps]:
  "length (AList.update k v t) = (if k \<in> fst ` set t then length t else Suc (length t))"
  by (induction t) auto

lemma set_table_delete [table_simps]: "set (AList.delete k t) = {p \<in> set t. fst p \<noteq> k}"
  by (auto simp: AList.delete_eq)

lemma length_delete_less: "k \<in> fst ` set t \<Longrightarrow> length (AList.delete k t) < length t"
  by (auto simp: AList.delete_eq intro: length_filter_less)

lemma length_delete_le' [simp]: "length (AList.delete k t) \<le> length t"
  by (simp add: AList.delete_eq)

lemma set_table_update: "set (AList.update k v t) \<subseteq> insert (k, v) (set t)"
  by (induction t) auto

lemma set_table_update_wf:
  "wf_table t \<Longrightarrow> set (AList.update k v t) = insert (k, v) {p \<in> set t. fst p \<noteq> k}"
  by (induction t) (auto simp: image_iff)

lemma wf_table_map_of: "wf_table t \<Longrightarrow> (map_of t k = Some v) = ((k, v) \<in> set t)"
  by (rule map_of_eq_Some_iff)

lemma wf_table_filter [intro]: "wf_table t \<Longrightarrow> wf_table (filter P t)"
  by (rule distinct_map_filter)

text \<open>\<open>Iterator::min_by_key\<close>: the first element with the least key.\<close>

fun min_by_key :: "('a \<Rightarrow> nat) \<Rightarrow> 'a list \<Rightarrow> 'a option" where
  "min_by_key f [] = None"
| "min_by_key f (x # xs) =
     (case min_by_key f xs of None \<Rightarrow> Some x | Some y \<Rightarrow> Some (if f x \<le> f y then x else y))"

lemma min_by_key_None_iff [simp]: "min_by_key f xs = None \<longleftrightarrow> xs = []"
  by (cases xs) (auto split: option.splits)

lemma min_by_key_SomeD:
  "min_by_key f xs = Some x \<Longrightarrow> x \<in> set xs \<and> (\<forall>y \<in> set xs. f x \<le> f y)"
proof (induction xs arbitrary: x)
  case Nil
  then show ?case by simp
next
  case (Cons a xs)
  show ?case
  proof (cases "min_by_key f xs")
    case None
    with Cons.prems show ?thesis by simp
  next
    case (Some y)
    from Cons.IH [OF Some] have y: "y \<in> set xs" "\<forall>z \<in> set xs. f y \<le> f z" by auto
    from Cons.prems Some have "x = (if f a \<le> f y then a else y)" by simp
    with y show ?thesis by (auto intro: order_trans)
  qed
qed

end
