(* ===== verification/SipUri.thy ===== *)
theory SipUri
  imports Prelude
begin

text \<open>
  SIP methods, error kinds and URIs: \<open>sip/error.rs\<close>, \<open>sip/message.rs\<close> (\<open>Method\<close>) and
  \<open>sip/uri.rs\<close> of the crate \<open>cheetah-gb28181-core\<close>. A \<open>SipError\<close> is modelled by its kind:
  the byte offset and the diagnostic text are carried along by the code and never read back.
  The lemmas show that methods and URIs survive printing and parsing.
\<close>

section \<open>Error kinds\<close>

datatype sip_error_kind =
    StartLineTooLong | HeaderTooLong | TooManyHeaders | HeadersTooLarge | BodyTooLarge
  | BufferTooLarge | ContentLengthMismatch | InvalidStartLine | InvalidHeader | InvalidUri
  | MissingRequiredHeader | InvalidFraming | TransactionTimeout | TransactionCancelled
  | TransportFailure | AuthenticationFailure

section \<open>Methods\<close>

datatype sip_method =
    Register | Message | Invite | Ack | Bye | Cancel | Options | Subscribe | Notify | Info
  | OtherMethod string

definition method_parse :: "string \<Rightarrow> sip_error_kind + sip_method" where
  "method_parse s =
     (if s = ''REGISTER'' then Inr Register
      else if s = ''MESSAGE'' then Inr Message
      else if s = ''INVITE'' then Inr Invite
      else if s = ''ACK'' then Inr Ack
      else if s = ''BYE'' then Inr Bye
      else if s = ''CANCEL'' then Inr Cancel
      else if s = ''OPTIONS'' then Inr Options
      else if s = ''SUBSCRIBE'' then Inr Subscribe
      else if s = ''NOTIFY'' then Inr Notify
      else if s = ''INFO'' then Inr Info
      else if list_all (\<lambda>c. is_ascii_uppercase c \<or> c = CHR ''-'') s then Inr (OtherMethod s)
      else Inl InvalidStartLine)"

fun method_to_string :: "sip_method \<Rightarrow> string" where
  "method_to_string Register = ''REGISTER''"
| "method_to_string Message = ''MESSAGE''"
| "method_to_string Invite = ''INVITE''"
| "method_to_string Ack = ''ACK''"
| "method_to_string Bye = ''BYE''"
| "method_to_string Cancel = ''CANCEL''"
| "method_to_string Options = ''OPTIONS''"
| "method_to_string Subscribe = ''SUBSCRIBE''"
| "method_to_string Notify = ''NOTIFY''"
| "method_to_string Info = ''INFO''"
| "method_to_string (OtherMethod s) = s"

text \<open>A method that parsing can produce.\<close>

definition known_methods :: "string list" where
  "known_methods = [''REGISTER'', ''MESSAGE'', ''INVITE'', ''ACK'', ''BYE'', ''CANCEL'',
     ''OPTIONS'', ''SUBSCRIBE'', ''NOTIFY'', ''INFO'']"

fun wf_method :: "sip_method \<Rightarrow> bool" where
  "wf_method (OtherMethod s) \<longleftrightarrow>
     list_all (\<lambda>c. is_ascii_uppercase c \<or> c = CHR ''-'') s \<and> s \<notin> set known_methods"
| "wf_method m \<longleftrightarrow> True"

lemma method_parse_to_string [simp]: "wf_method m \<Longrightarrow> method_parse (method_to_string m) = Inr m"
  by (cases m) (auto simp: method_parse_def known_methods_def)

lemma method_parse_wf: "method_parse s = Inr m \<Longrightarrow> wf_method m \<and> method_to_string m = s"
  by (auto simp: method_parse_def known_methods_def split: if_splits)

lemma method_chars:
  "wf_method m \<Longrightarrow> list_all (\<lambda>c. is_ascii_uppercase c \<or> c = CHR ''-'') (method_to_string m)"
  by (cases m) (simp_all add: is_ascii_uppercase_def)

section \<open>URIs\<close>

datatype scheme = Sip | Sips

record sip_uri =
  uri_scheme :: scheme
  uri_user :: "string option"
  uri_password :: "string option"
  uri_host :: string
  uri_port :: "nat option"
  uri_parameters :: "(string \<times> string option) list"

fun scheme_to_string :: "scheme \<Rightarrow> string" where
  "scheme_to_string Sip = ''sip''"
| "scheme_to_string Sips = ''sips''"

definition scheme_parse :: "string \<Rightarrow> scheme option" where
  "scheme_parse s =
     (if eq_ignore_ascii_case s ''sip'' then Some Sip
      else if eq_ignore_ascii_case s ''sips'' then Some Sips
      else None)"

text \<open>The user and the password of the part before the last \<open>@\<close>; \<open>None\<close> for an empty user with a
  password.\<close>

definition split_userinfo :: "string option \<Rightarrow> (string option \<times> string option) option" where
  "split_userinfo userinfo =
     (case userinfo of
        Some info \<Rightarrow>
          (case split_once (CHR '':'') info of
             Some (u, p) \<Rightarrow> if u = [] then None else Some (Some u, Some p)
           | None \<Rightarrow> Some (Some info, None))
      | None \<Rightarrow> Some (None, None))"

text \<open>The host and the port text; \<open>None\<close> for an unterminated IPv6 reference.\<close>

definition split_hostport :: "string \<Rightarrow> (string \<times> string option) option" where
  "split_hostport hostport =
     (case hostport of
        c # _ \<Rightarrow>
          if c = CHR ''['' then
            (case split_once (CHR 0x5D) hostport of
               None \<Rightarrow> None
             | Some (pre, post) \<Rightarrow>
                 Some (pre @ [CHR 0x5D],
                       case post of [] \<Rightarrow> None | d # ds \<Rightarrow> if d = CHR '':'' then Some ds else None))
          else
            (case rsplit_once (CHR '':'') hostport of
               None \<Rightarrow> Some (hostport, None)
             | Some (h, p) \<Rightarrow> Some (h, Some p))
      | [] \<Rightarrow> Some ([], None))"

definition parse_port :: "string option \<Rightarrow> nat option option" where
  "parse_port port =
     (case port of None \<Rightarrow> Some None | Some p \<Rightarrow> map_option Some (parse_uint u16_max p))"

definition parse_parameter :: "string \<Rightarrow> string \<times> string option" where
  "parse_parameter token =
     (case split_once (CHR ''='') token of
        None \<Rightarrow> (token, None)
      | Some (k, v) \<Rightarrow> (k, if v = [] then None else Some v))"

definition parse_parameters :: "string option \<Rightarrow> (string \<times> string option) list" where
  "parse_parameters param_part =
     (case param_part of
        None \<Rightarrow> []
      | Some p \<Rightarrow> map parse_parameter (filter (\<lambda>t. t \<noteq> []) (split_on (CHR '';'') p)))"

definition uri_parse :: "string \<Rightarrow> sip_error_kind + sip_uri" where
  "uri_parse raw =
     (if length raw > 2048 then Inl InvalidUri
      else case split_once (CHR '':'') raw of
        None \<Rightarrow> Inl InvalidUri
      | Some (scheme_text, rest) \<Rightarrow>
          (case scheme_parse scheme_text of
             None \<Rightarrow> Inl InvalidUri
           | Some scheme \<Rightarrow>
               (let (userinfo, hostport) =
                      (case rsplit_once (CHR ''@'') rest of
                         None \<Rightarrow> (None, rest)
                       | Some (u, h) \<Rightarrow> if u = [] then (None, h) else (Some u, h))
                in case split_userinfo userinfo of
                     None \<Rightarrow> Inl InvalidUri
                   | Some (user, password) \<Rightarrow>
                       (let (hostport, param_part) =
                              (case split_once (CHR '';'') hostport of
                                 None \<Rightarrow> (hostport, None)
                               | Some (hp, p) \<Rightarrow> (hp, Some p))
                        in case split_hostport hostport of
                             None \<Rightarrow> Inl InvalidUri
                           | Some (host, port) \<Rightarrow>
                               (if trim host = [] then Inl InvalidUri
                                else case parse_port port of
                                       None \<Rightarrow> Inl InvalidUri
                                     | Some port \<Rightarrow>
                                         Inr \<lparr>uri_scheme = scheme, uri_user = user,
                                              uri_password = password, uri_host = trim host,
                                              uri_port = port,
                                              uri_parameters = parse_parameters param_part\<rparr>)))))"

definition encode_userinfo :: "sip_uri \<Rightarrow> string" where
  "encode_userinfo u =
     (case uri_user u of
        None \<Rightarrow> []
      | Some user \<Rightarrow>
          user @ (case uri_password u of None \<Rightarrow> [] | Some p \<Rightarrow> CHR '':'' # p) @ ''@'')"

definition encode_port :: "sip_uri \<Rightarrow> string" where
  "encode_port u = (case uri_port u of None \<Rightarrow> [] | Some p \<Rightarrow> CHR '':'' # nat_to_dec p)"

definition encode_parameter :: "string \<times> string option \<Rightarrow> string" where
  "encode_parameter kv = fst kv @ (case snd kv of None \<Rightarrow> [] | Some v \<Rightarrow> CHR ''='' # v)"

definition encode_parameters :: "sip_uri \<Rightarrow> string" where
  "encode_parameters u = concat (map (\<lambda>kv. CHR '';'' # encode_parameter kv) (uri_parameters u))"

definition uri_encode :: "sip_uri \<Rightarrow> string" where
  "uri_encode u =
     scheme_to_string (uri_scheme u) @ '':'' @ encode_userinfo u @ uri_host u @ encode_port u
       @ encode_parameters u"

section \<open>Printing and parsing a URI\<close>

text \<open>
  The URIs that have an unambiguous text: a user without \<open>:\<close>, a host without the delimiters (a
  bracketed host ends at its only \<open>]\<close>), a port of 16 bits, non-empty parameter names without
  \<open>;\<close>, \<open>=\<close> and \<open>@\<close>, and at most 2048 bytes.
\<close>

definition wf_host :: "string \<Rightarrow> bool" where
  "wf_host h \<longleftrightarrow> trimmed h \<and> h \<noteq> [] \<and> CHR ''@'' \<notin> set h \<and> CHR '';'' \<notin> set h
     \<and> (if hd h = CHR ''['' then last h = CHR 0x5D \<and> CHR 0x5D \<notin> set (butlast h)
        else CHR '':'' \<notin> set h)"

definition wf_parameter :: "string \<times> string option \<Rightarrow> bool" where
  "wf_parameter kv \<longleftrightarrow> fst kv \<noteq> [] \<and> CHR '';'' \<notin> set (fst kv) \<and> CHR ''='' \<notin> set (fst kv)
     \<and> CHR ''@'' \<notin> set (fst kv)
     \<and> (case snd kv of None \<Rightarrow> True | Some v \<Rightarrow> v \<noteq> [] \<and> CHR '';'' \<notin> set v \<and> CHR ''@'' \<notin> set v)"

definition wf_user :: "sip_uri \<Rightarrow> bool" where
  "wf_user u \<longleftrightarrow>
     (case uri_user u of
        None \<Rightarrow> uri_password u = None
      | Some user \<Rightarrow> user \<noteq> [] \<and> CHR '':'' \<notin> set user)"

definition wf_uri :: "sip_uri \<Rightarrow> bool" where
  "wf_uri u \<longleftrightarrow> wf_user u \<and> wf_host (uri_host u)
     \<and> (case uri_port u of None \<Rightarrow> True | Some p \<Rightarrow> p \<le> u16_max)
     \<and> list_all wf_parameter (uri_parameters u) \<and> length (uri_encode u) \<le> 2048"

lemma scheme_roundtrip [simp]:
  "scheme_parse (scheme_to_string sch) = Some sch" "CHR '':'' \<notin> set (scheme_to_string sch)"
  by (cases sch; simp add: scheme_parse_def eq_ignore_ascii_case_def to_ascii_lowercase_def
        is_ascii_uppercase_def)+

lemma encode_parameter_notin:
  "wf_parameter kv \<Longrightarrow> CHR '';'' \<notin> set (encode_parameter kv) \<and> CHR ''@'' \<notin> set (encode_parameter kv)
     \<and> encode_parameter kv \<noteq> []"
  by (auto simp: wf_parameter_def encode_parameter_def split: option.splits)

lemma parse_encode_parameter: "wf_parameter kv \<Longrightarrow> parse_parameter (encode_parameter kv) = kv"
  by (cases kv) (auto simp: wf_parameter_def encode_parameter_def parse_parameter_def
      split: option.splits)

lemma encode_parameters_at:
  "list_all wf_parameter (uri_parameters u) \<Longrightarrow> CHR ''@'' \<notin> set (encode_parameters u)"
  by (auto simp: encode_parameters_def list_all_iff dest: encode_parameter_notin)

lemma split_on_parameters:
  assumes "list_all wf_parameter (kv # kvs)"
  shows "split_on (CHR '';'')
           (encode_parameter kv @ concat (map (\<lambda>kv. CHR '';'' # encode_parameter kv) kvs))
         = map encode_parameter (kv # kvs)"
  using assms
proof (induction kvs arbitrary: kv)
  case Nil
  then show ?case by (simp add: encode_parameter_notin)
next
  case (Cons a kvs)
  then show ?case by (simp add: encode_parameter_notin)
qed

lemma parse_encoded_parameters:
  assumes "list_all wf_parameter (kv # kvs)"
  shows "parse_parameters (Some
           (encode_parameter kv @ concat (map (\<lambda>kv. CHR '';'' # encode_parameter kv) kvs)))
         = kv # kvs"
proof -
  have "filter (\<lambda>t. t \<noteq> []) (map encode_parameter (kv # kvs)) = map encode_parameter (kv # kvs)"
    using assms by (auto simp: filter_id_conv list_all_iff dest: encode_parameter_notin)
  moreover have "map parse_parameter (map encode_parameter (kv # kvs)) = kv # kvs"
    using assms unfolding map_map by (intro map_idI) (auto simp: list_all_iff parse_encode_parameter)
  ultimately show ?thesis
    unfolding parse_parameters_def option.case split_on_parameters [OF assms] by metis
qed

lemma encode_port_notin:
  "CHR '';'' \<notin> set (encode_port u)" "CHR ''@'' \<notin> set (encode_port u)"
  by (simp_all add: encode_port_def split: option.split)

lemma split_hostport_encode:
  assumes "wf_host (uri_host u)"
  shows "split_hostport (uri_host u @ encode_port u)
         = Some (uri_host u, map_option nat_to_dec (uri_port u))"
proof (cases "hd (uri_host u) = CHR ''[''")
  case True
  with assms obtain h where h: "uri_host u = h @ [CHR 0x5D]" "CHR 0x5D \<notin> set h"
    by (metis append_butlast_last_id wf_host_def)
  from h True have "h \<noteq> []" by (cases h) auto
  with h True have "split_hostport (h @ CHR 0x5D # encode_port u)
      = Some (h @ [CHR 0x5D], map_option nat_to_dec (uri_port u))"
    by (cases h) (auto simp: split_hostport_def encode_port_def split: option.splits)
  with h show ?thesis by simp
next
  case False
  with assms have "CHR '':'' \<notin> set (uri_host u)" "uri_host u \<noteq> []"
    by (auto simp: wf_host_def)
  with False show ?thesis
    by (cases "uri_host u") (auto simp: split_hostport_def encode_port_def split: option.splits)
qed

lemma split_parameters:
  assumes "wf_host (uri_host u)" "list_all wf_parameter (uri_parameters u)"
  shows "(case split_once (CHR '';'') (uri_host u @ encode_port u @ encode_parameters u) of
            None \<Rightarrow> (uri_host u @ encode_port u @ encode_parameters u, None)
          | Some (hp, p) \<Rightarrow> (hp, Some p)) =
         (uri_host u @ encode_port u,
          case uri_parameters u of [] \<Rightarrow> None
          | kv # kvs \<Rightarrow> Some (encode_parameter kv @ concat (map (\<lambda>kv. CHR '';'' # encode_parameter kv) kvs)))"
proof -
  have *: "CHR '';'' \<notin> set (uri_host u @ encode_port u)"
    using assms by (simp add: wf_host_def encode_port_notin)
  show ?thesis
  proof (cases "uri_parameters u")
    case Nil
    with * show ?thesis by (simp add: encode_parameters_def)
  next
    case (Cons kv kvs)
    with split_once_append [OF *] show ?thesis by (simp add: encode_parameters_def)
  qed
qed

lemma split_user:
  assumes "wf_uri u"
  shows "(case rsplit_once (CHR ''@'')
            (encode_userinfo u @ uri_host u @ encode_port u @ encode_parameters u) of
            None \<Rightarrow> (None, encode_userinfo u @ uri_host u @ encode_port u @ encode_parameters u)
          | Some (i, h) \<Rightarrow> if i = [] then (None, h) else (Some i, h)) =
         (map_option (\<lambda>user. user @ (case uri_password u of None \<Rightarrow> [] | Some p \<Rightarrow> CHR '':'' # p))
            (uri_user u),
          uri_host u @ encode_port u @ encode_parameters u)"
proof -
  have *: "CHR ''@'' \<notin> set (uri_host u @ encode_port u @ encode_parameters u)"
    using assms by (simp add: wf_uri_def wf_host_def encode_port_notin encode_parameters_at)
  show ?thesis
  proof (cases "uri_user u")
    case None
    with * show ?thesis by (simp add: encode_userinfo_def)
  next
    case (Some user)
    with assms have "user \<noteq> []" by (simp add: wf_uri_def wf_user_def)
    with Some rsplit_once_append [OF *, of "user @ (case uri_password u of None \<Rightarrow> [] | Some p \<Rightarrow> CHR '':'' # p)"]
    show ?thesis by (simp add: encode_userinfo_def)
  qed
qed

lemma split_userinfo_encode:
  assumes "wf_user u"
  shows "split_userinfo
           (map_option (\<lambda>user. user @ (case uri_password u of None \<Rightarrow> [] | Some p \<Rightarrow> CHR '':'' # p))
              (uri_user u))
         = Some (uri_user u, uri_password u)"
  using assms by (auto simp: wf_user_def split_userinfo_def split: option.splits)

lemma parse_port_encode:
  "(case p of None \<Rightarrow> True | Some n \<Rightarrow> n \<le> u16_max) \<Longrightarrow> parse_port (map_option nat_to_dec p) = Some p"
  by (auto simp: parse_port_def split: option.splits)

lemma uri_roundtrip_lemma:
  assumes "wf_uri u"
  shows "uri_parse (uri_encode u) = Inr u"
proof -
  let ?rest = "encode_userinfo u @ uri_host u @ encode_port u @ encode_parameters u"
  have len: "\<not> length (uri_encode u) > 2048" and user: "wf_user u" and host: "wf_host (uri_host u)"
    and port: "case uri_port u of None \<Rightarrow> True | Some n \<Rightarrow> n \<le> u16_max"
    and params: "list_all wf_parameter (uri_parameters u)"
    using assms by (auto simp: wf_uri_def)
  have sch: "split_once (CHR '':'') (uri_encode u) = Some (scheme_to_string (uri_scheme u), ?rest)"
    by (simp add: uri_encode_def)
  have trimmed: "trim (uri_host u) = uri_host u" "uri_host u \<noteq> []"
    using host by (simp_all add: wf_host_def)
  have params': "parse_parameters
       (case uri_parameters u of [] \<Rightarrow> None
        | kv # kvs \<Rightarrow> Some (encode_parameter kv @ concat (map (\<lambda>kv. CHR '';'' # encode_parameter kv) kvs)))
     = uri_parameters u"
    using params parse_encoded_parameters
    by (cases "uri_parameters u") (simp_all add: parse_parameters_def)
  show ?thesis
    unfolding uri_parse_def
    by (simp only: len sch if_False option.case prod.case scheme_roundtrip split_user [OF assms]
          Let_def split_userinfo_encode [OF user] split_parameters [OF host params]
          split_hostport_encode [OF host] trimmed parse_port_encode [OF port] params') simp
qed

text \<open>
  C33. URIs are read back. For every URI with a non-empty host that prints within 2048 bytes, whose
  parts do not hold the delimiters that follow them, parsing its text gives the URI again: scheme,
  user, password, host, port and parameters.
\<close>

theorem uri_roundtrip: "wf_uri u \<Longrightarrow> uri_parse (uri_encode u) = Inr u"
  by (rule uri_roundtrip_lemma)

theorem uri_roundtrip_witness:
  "uri_parse ''sips:bob:x@[::1];lr;ttl=15'' =
     Inr \<lparr>uri_scheme = Sips, uri_user = Some ''bob'', uri_password = Some ''x'', uri_host = ''[::1]'',
          uri_port = None, uri_parameters = [(''lr'', None), (''ttl'', Some ''15'')]\<rparr>"
proof -
  let ?u = "\<lparr>uri_scheme = Sips, uri_user = Some ''bob'', uri_password = Some ''x'', uri_host = ''[::1]'',
          uri_port = None, uri_parameters = [(''lr'', None), (''ttl'', Some ''15'')]\<rparr>"
  have e: "uri_encode ?u = ''sips:bob:x@[::1];lr;ttl=15''" by code_simp
  have "wf_host ''[::1]''" by code_simp
  then have "wf_uri ?u" unfolding wf_uri_def e by (simp add: wf_user_def wf_parameter_def)
  from uri_roundtrip [OF this] show ?thesis unfolding e .
qed

end
