(* ===== verification/SipMessage.thy ===== *)
theory SipMessage
  imports SipUri
begin

text \<open>
  SIP headers and messages: \<open>sip/headers.rs\<close> and \<open>sip/message.rs\<close> of \<open>cheetah-gb28181-core\<close>.
  \<open>SipHeaders\<close> keeps the header lines in order together with an index from the header name to
  the positions of its lines; header names compare without regard to ASCII case. The lemmas show
  that the indexed reads agree with a scan of the lines.
\<close>

section \<open>Header names\<close>

datatype header_name =
    Via | From | To | CallId | CSeq | Contact | MaxForwards | UserAgent | ContentType
  | ContentLength | Expires | Route | RecordRoute | Authorization | WwwAuthenticate
  | ProxyAuthenticate | ProxyAuthorization | Subject | OtherHeader string

definition max_header_name_bytes :: nat where
  "max_header_name_bytes = 128"

text \<open>\<open>str::is_char_boundary\<close>: not in front of a UTF-8 continuation byte.\<close>

definition is_char_boundary :: "string \<Rightarrow> nat \<Rightarrow> bool" where
  "is_char_boundary s i \<longleftrightarrow>
     i = 0 \<or> i = length s
     \<or> (i < length s \<and> \<not> (128 \<le> (of_char (s ! i) :: nat) \<and> (of_char (s ! i) :: nat) \<le> 191))"

fun boundary_below :: "string \<Rightarrow> nat \<Rightarrow> nat" where
  "boundary_below s 0 = 0"
| "boundary_below s (Suc i) = (if is_char_boundary s (Suc i) then Suc i else boundary_below s i)"

definition truncate_at_char_boundary :: "string \<Rightarrow> nat \<Rightarrow> string" where
  "truncate_at_char_boundary s mx =
     (if length s \<le> mx then s else take (boundary_below s mx) s)"

definition bounded_header_name :: "string \<Rightarrow> string" where
  "bounded_header_name name =
     (if length name > max_header_name_bytes
      then truncate_at_char_boundary name max_header_name_bytes else name)"

definition header_name_parse :: "string \<Rightarrow> header_name" where
  "header_name_parse raw =
     (let name = bounded_header_name raw; eq = eq_ignore_ascii_case name in
      if eq ''via'' \<or> eq ''v'' then Via
      else if eq ''from'' \<or> eq ''f'' then From
      else if eq ''to'' \<or> eq ''t'' then To
      else if eq ''call-id'' \<or> eq ''i'' then CallId
      else if eq ''cseq'' then CSeq
      else if eq ''contact'' \<or> eq ''m'' then Contact
      else if eq ''max-forwards'' then MaxForwards
      else if eq ''user-agent'' then UserAgent
      else if eq ''content-type'' \<or> eq ''c'' then ContentType
      else if eq ''content-length'' \<or> eq ''l'' then ContentLength
      else if eq ''expires'' then Expires
      else if eq ''route'' then Route
      else if eq ''record-route'' then RecordRoute
      else if eq ''authorization'' then Authorization
      else if eq ''www-authenticate'' then WwwAuthenticate
      else if eq ''proxy-authenticate'' then ProxyAuthenticate
      else if eq ''proxy-authorization'' then ProxyAuthorization
      else if eq ''subject'' \<or> eq ''s'' then Subject
      else OtherHeader name)"

fun header_name_str :: "header_name \<Rightarrow> string" where
  "header_name_str Via = ''Via''"
| "header_name_str From = ''From''"
| "header_name_str To = ''To''"
| "header_name_str CallId = ''Call-ID''"
| "header_name_str CSeq = ''CSeq''"
| "header_name_str Contact = ''Contact''"
| "header_name_str MaxForwards = ''Max-Forwards''"
| "header_name_str UserAgent = ''User-Agent''"
| "header_name_str ContentType = ''Content-Type''"
| "header_name_str ContentLength = ''Content-Length''"
| "header_name_str Expires = ''Expires''"
| "header_name_str Route = ''Route''"
| "header_name_str RecordRoute = ''Record-Route''"
| "header_name_str Authorization = ''Authorization''"
| "header_name_str WwwAuthenticate = ''WWW-Authenticate''"
| "header_name_str ProxyAuthenticate = ''Proxy-Authenticate''"
| "header_name_str ProxyAuthorization = ''Proxy-Authorization''"
| "header_name_str Subject = ''Subject''"
| "header_name_str (OtherHeader s) = s"

fun header_discriminant :: "header_name \<Rightarrow> nat" where
  "header_discriminant Via = 0"
| "header_discriminant From = 1"
| "header_discriminant To = 2"
| "header_discriminant CallId = 3"
| "header_discriminant CSeq = 4"
| "header_discriminant Contact = 5"
| "header_discriminant MaxForwards = 6"
| "header_discriminant UserAgent = 7"
| "header_discriminant ContentType = 8"
| "header_discriminant ContentLength = 9"
| "header_discriminant Expires = 10"
| "header_discriminant Route = 11"
| "header_discriminant RecordRoute = 12"
| "header_discriminant Authorization = 13"
| "header_discriminant WwwAuthenticate = 14"
| "header_discriminant ProxyAuthenticate = 15"
| "header_discriminant ProxyAuthorization = 16"
| "header_discriminant Subject = 17"
| "header_discriminant (OtherHeader _) = 18"

definition header_name_eq :: "header_name \<Rightarrow> header_name \<Rightarrow> bool" where
  "header_name_eq a b \<longleftrightarrow>
     header_discriminant a = header_discriminant b
     \<and> (case (a, b) of
           (OtherHeader x, OtherHeader y) \<Rightarrow> eq_ignore_ascii_case x y
         | _ \<Rightarrow> True)"

text \<open>
  The \<open>BTreeMap\<close> of \<open>SipHeaders\<close> compares names with \<^const>\<open>header_name_eq\<close>; its keys are
  represented by the name in lower case.
\<close>

fun header_key :: "header_name \<Rightarrow> header_name" where
  "header_key (OtherHeader s) = OtherHeader (map to_ascii_lowercase s)"
| "header_key h = h"

lemma header_discriminant_eq:
  "header_discriminant a = header_discriminant b \<longleftrightarrow>
     a = b \<or> (\<exists>x y. a = OtherHeader x \<and> b = OtherHeader y)"
  by (cases a; cases b; simp)

lemma header_name_eq_key: "header_name_eq a b \<longleftrightarrow> header_key a = header_key b"
proof (cases "\<exists>x y. a = OtherHeader x \<and> b = OtherHeader y")
  case True
  then show ?thesis by (auto simp: header_name_eq_def eq_ignore_ascii_case_def)
next
  case False
  then have "header_name_eq a b \<longleftrightarrow> a = b"
    by (auto simp: header_name_eq_def header_discriminant_eq split: header_name.splits)
  moreover from False have "header_key a = header_key b \<longleftrightarrow> a = b"
    by (cases a; cases b; simp)
  ultimately show ?thesis by simp
qed

lemma header_name_eq_refl [simp]: "header_name_eq a a"
  by (simp add: header_name_eq_key)

section \<open>Header lists with an index\<close>

record sip_headers =
  hdr_lines :: "(header_name \<times> string) list"
  hdr_index :: "(header_name, nat list) table"

definition hdr_new :: sip_headers where
  "hdr_new = \<lparr>hdr_lines = [], hdr_index = []\<rparr>"

definition index_of :: "sip_headers \<Rightarrow> header_name \<Rightarrow> nat list" where
  "index_of h k = (case map_of (hdr_index h) k of None \<Rightarrow> [] | Some is \<Rightarrow> is)"

definition hdr_append :: "header_name \<Rightarrow> string \<Rightarrow> sip_headers \<Rightarrow> sip_headers" where
  "hdr_append name val h =
     \<lparr>hdr_lines = hdr_lines h @ [(name, val)],
      hdr_index = AList.update (header_key name)
        (index_of h (header_key name) @ [length (hdr_lines h)]) (hdr_index h)\<rparr>"

definition line_value :: "sip_headers \<Rightarrow> nat \<Rightarrow> string option" where
  "line_value h i = (if i < length (hdr_lines h) then Some (snd (hdr_lines h ! i)) else None)"

definition hdr_get :: "header_name \<Rightarrow> sip_headers \<Rightarrow> string option" where
  "hdr_get name h =
     (case map_of (hdr_index h) (header_key name) of
        None \<Rightarrow> None
      | Some is \<Rightarrow> (case is of [] \<Rightarrow> None | i # _ \<Rightarrow> line_value h i))"

definition hdr_get_all :: "header_name \<Rightarrow> sip_headers \<Rightarrow> string list" where
  "hdr_get_all name h = List.map_filter (line_value h) (index_of h (header_key name))"

definition hdr_len :: "sip_headers \<Rightarrow> nat" where
  "hdr_len h = length (hdr_lines h)"

text \<open>\<open>SipHeaders::new\<close> followed by \<open>append\<close> of each line.\<close>

definition hdr_of_lines :: "(header_name \<times> string) list \<Rightarrow> sip_headers" where
  "hdr_of_lines ls = foldl (\<lambda>h (n, v). hdr_append n v h) hdr_new ls"

text \<open>The index lists, for every name, the positions of its lines in order.\<close>

definition wf_headers :: "sip_headers \<Rightarrow> bool" where
  "wf_headers h \<longleftrightarrow>
     (\<forall>k. index_of h k = filter (\<lambda>i. header_key (fst (hdr_lines h ! i)) = k) [0..<length (hdr_lines h)])"

lemma wf_headers_new [simp]: "wf_headers hdr_new"
  by (simp add: wf_headers_def hdr_new_def index_of_def)

lemma hdr_lines_new [simp]: "hdr_lines hdr_new = []"
  by (simp add: hdr_new_def)

lemma index_of_append:
  "index_of (hdr_append n v h) k =
     index_of h k @ (if k = header_key n then [length (hdr_lines h)] else [])"
  by (simp add: index_of_def hdr_append_def table_simps)

lemma wf_headers_append [simp]:
  assumes "wf_headers h"
  shows "wf_headers (hdr_append n v h)"
proof -
  have "filter (\<lambda>i. header_key (fst ((hdr_lines h @ [(n, v)]) ! i)) = k) [0..<length (hdr_lines h)] =
        filter (\<lambda>i. header_key (fst (hdr_lines h ! i)) = k) [0..<length (hdr_lines h)]" for k
    by (rule filter_cong) (simp_all add: nth_append)
  with assms show ?thesis
    unfolding wf_headers_def index_of_append
    by (simp add: hdr_append_def)
qed

lemma hdr_lines_append [simp]: "hdr_lines (hdr_append n v h) = hdr_lines h @ [(n, v)]"
  by (simp add: hdr_append_def)

lemma hdr_of_lines_props:
  "wf_headers (hdr_of_lines ls)" "hdr_lines (hdr_of_lines ls) = ls"
proof -
  have "wf_headers (foldl (\<lambda>h (n, v). hdr_append n v h) h ls)
      \<and> hdr_lines (foldl (\<lambda>h (n, v). hdr_append n v h) h ls) = hdr_lines h @ ls"
    if "wf_headers h" for h
    using that by (induction ls arbitrary: h) auto
  from this [OF wf_headers_new]
  show "wf_headers (hdr_of_lines ls)" "hdr_lines (hdr_of_lines ls) = ls"
    by (simp_all add: hdr_of_lines_def hdr_new_def)
qed

lemma hdr_of_lines_snoc: "hdr_of_lines (ls @ [(n, v)]) = hdr_append n v (hdr_of_lines ls)"
  by (simp add: hdr_of_lines_def)

lemma filter_by_index: "map (nth xs) (filter (\<lambda>i. P (xs ! i)) [0..<length xs]) = filter P xs"
proof -
  have "filter P xs = filter P (map (nth xs) [0..<length xs])" by (simp add: map_nth)
  then show ?thesis by (simp add: filter_map comp_def)
qed

lemma find_filter: "find P xs = (case filter P xs of [] \<Rightarrow> None | x # _ \<Rightarrow> Some x)"
  by (induction xs) auto

lemma map_filter_all_Some:
  "(\<And>x. x \<in> set xs \<Longrightarrow> f x = Some (g x)) \<Longrightarrow> List.map_filter f xs = map g xs"
  by (induction xs) (simp_all add: map_filter_simps)

lemma hdr_get_all_scan:
  assumes "wf_headers h"
  shows "hdr_get_all name h = map snd (filter (\<lambda>l. header_name_eq (fst l) name) (hdr_lines h))"
proof -
  let ?is = "filter (\<lambda>i. header_key (fst (hdr_lines h ! i)) = header_key name) [0..<length (hdr_lines h)]"
  have "List.map_filter (line_value h) ?is = map (\<lambda>i. snd (hdr_lines h ! i)) ?is"
    by (rule map_filter_all_Some) (simp add: line_value_def)
  also have "\<dots> = map snd (map (nth (hdr_lines h)) ?is)" by simp
  finally show ?thesis
    using assms filter_by_index [of "hdr_lines h" "\<lambda>l. header_key (fst l) = header_key name"]
    by (simp add: hdr_get_all_def wf_headers_def header_name_eq_key)
qed

lemma hdr_get_get_all:
  assumes "wf_headers h"
  shows "hdr_get name h = (case hdr_get_all name h of [] \<Rightarrow> None | v # _ \<Rightarrow> Some v)"
proof -
  have in_range: "i < length (hdr_lines h)" if "i \<in> set (index_of h k)" for i k
    using assms that by (auto simp: wf_headers_def)
  have "hdr_get name h
      = (case index_of h (header_key name) of [] \<Rightarrow> None | i # _ \<Rightarrow> line_value h i)"
    by (simp add: hdr_get_def index_of_def split: option.split)
  then show ?thesis
    using in_range [of _ "header_key name"]
    by (cases "index_of h (header_key name)")
       (simp_all add: hdr_get_all_def map_filter_simps line_value_def)
qed

lemma hdr_get_scan:
  assumes "wf_headers h"
  shows "hdr_get name h = map_option snd (find (\<lambda>l. header_name_eq (fst l) name) (hdr_lines h))"
  by (simp add: hdr_get_get_all [OF assms] hdr_get_all_scan [OF assms] find_filter split: list.split)

text \<open>
  C31. The header index implements a search of the header lines. After any sequence of appends, the
  lines are those appended, in order, \<open>get\<close> is the value of the first line whose name is equal up to
  case, and \<open>get_all\<close> are the values of all such lines in order.
\<close>

theorem header_index_refines_search:
  "hdr_lines (hdr_of_lines ls) = ls
   \<and> hdr_get name (hdr_of_lines ls) = map_option snd (find (\<lambda>l. header_name_eq (fst l) name) ls)
   \<and> hdr_get_all name (hdr_of_lines ls) = map snd (filter (\<lambda>l. header_name_eq (fst l) name) ls)"
  using hdr_get_scan [OF hdr_of_lines_props(1)] hdr_get_all_scan [OF hdr_of_lines_props(1)]
  by (simp add: hdr_of_lines_props(2))

section \<open>Header values\<close>

definition is_token_char :: "char \<Rightarrow> bool" where
  "is_token_char b \<longleftrightarrow> is_ascii_lowercase b \<or> is_ascii_uppercase b \<or> is_ascii_digit b
     \<or> b \<in> set ''-.!%*_+`~()'' \<or> b = CHR 0x27"

definition validate_token :: "string \<Rightarrow> bool" where
  "validate_token t \<longleftrightarrow> t \<noteq> [] \<and> list_all is_token_char t"

definition via_value :: "string \<Rightarrow> string \<Rightarrow> nat \<Rightarrow> string \<Rightarrow> sip_error_kind + string" where
  "via_value transport host port branch =
     (if host = [] then Inl InvalidHeader
      else if \<not> validate_token transport then Inl InvalidHeader
      else if \<not> validate_token branch then Inl InvalidHeader
      else Inr (''SIP/2.0/'' @ transport @ '' '' @ host @ '':'' @ nat_to_dec port @ '';branch='' @ branch))"

definition from_value :: "sip_uri \<Rightarrow> string \<Rightarrow> sip_error_kind + string" where
  "from_value uri tag =
     (if \<not> validate_token tag then Inl InvalidHeader
      else Inr (''<'' @ uri_encode uri @ ''>;tag='' @ tag))"

definition to_value :: "sip_uri \<Rightarrow> string" where
  "to_value uri = ''<'' @ uri_encode uri @ ''>''"

definition contact_value :: "sip_uri \<Rightarrow> string" where
  "contact_value uri = ''<'' @ uri_encode uri @ ''>''"

definition cseq_value :: "u32 \<Rightarrow> sip_method \<Rightarrow> string" where
  "cseq_value seq m = nat_to_dec (unat seq) @ '' '' @ method_to_string m"

section \<open>Messages\<close>

definition sip_2_0 :: string where
  "sip_2_0 = ''SIP/2.0''"

record request_line =
  rl_method :: sip_method
  rl_uri :: sip_uri
  rl_version :: string

record status_line =
  sl_version :: string
  sl_code :: nat
  sl_reason :: string

datatype response_class =
    Provisional | Success | Redirection | ClientFailure | ServerFailure | GlobalFailure | Unknown

datatype sip_message =
    Request request_line sip_headers string
  | Response status_line sip_headers string

definition request_line_new :: "sip_method \<Rightarrow> sip_uri \<Rightarrow> request_line" where
  "request_line_new m u = \<lparr>rl_method = m, rl_uri = u, rl_version = sip_2_0\<rparr>"

definition status_line_new :: "nat \<Rightarrow> string \<Rightarrow> status_line" where
  "status_line_new code reason = \<lparr>sl_version = sip_2_0, sl_code = code, sl_reason = reason\<rparr>"

definition response_class_of :: "status_line \<Rightarrow> response_class" where
  "response_class_of l =
     (let c = sl_code l div 100 in
      if c = 1 then Provisional else if c = 2 then Success else if c = 3 then Redirection
      else if c = 4 then ClientFailure else if c = 5 then ServerFailure
      else if c = 6 then GlobalFailure else Unknown)"

fun msg_headers :: "sip_message \<Rightarrow> sip_headers" where
  "msg_headers (Request _ h _) = h"
| "msg_headers (Response _ h _) = h"

fun msg_body :: "sip_message \<Rightarrow> string" where
  "msg_body (Request _ _ b) = b"
| "msg_body (Response _ _ b) = b"

fun is_request :: "sip_message \<Rightarrow> bool" where
  "is_request (Request _ _ _) = True"
| "is_request (Response _ _ _) = False"

definition call_id :: "sip_message \<Rightarrow> string option" where
  "call_id m = hdr_get CallId (msg_headers m)"

fun branch_token :: "string list \<Rightarrow> string option" where
  "branch_token [] = None"
| "branch_token (t # ts) =
     (case strip_prefix ''branch='' (trim t) of
        Some v \<Rightarrow> Some (trim_matches DQ v)
      | None \<Rightarrow> branch_token ts)"

definition branch_value :: "string \<Rightarrow> string option" where
  "branch_value via = branch_token (split_on (CHR '';'') via)"

definition top_branch :: "sip_message \<Rightarrow> string option" where
  "top_branch m =
     (case hdr_get_all Via (msg_headers m) of [] \<Rightarrow> None | v # _ \<Rightarrow> branch_value v)"

text \<open>\<open>SipMessage::cseq\<close> on the header value: a number and a method around the first white space.\<close>

definition cseq_parse :: "string \<Rightarrow> sip_error_kind + (u32 \<times> sip_method)" where
  "cseq_parse val =
     (let (num_text, method_text) =
            (case split_once_ws val of None \<Rightarrow> (val, None) | Some (a, b) \<Rightarrow> (a, Some b))
      in case parse_u32 num_text of
           None \<Rightarrow> Inl InvalidHeader
         | Some num \<Rightarrow>
             (case method_text of
                None \<Rightarrow> Inl InvalidHeader
              | Some t \<Rightarrow>
                  (case method_parse t of
                     Inl _ \<Rightarrow> Inl InvalidHeader
                   | Inr m \<Rightarrow> Inr (num, m))))"

definition cseq :: "sip_message \<Rightarrow> sip_error_kind + (u32 \<times> sip_method)" where
  "cseq m =
     (case hdr_get CSeq (msg_headers m) of
        None \<Rightarrow> Inl MissingRequiredHeader
      | Some val \<Rightarrow> cseq_parse val)"

definition content_length :: "sip_message \<Rightarrow> sip_error_kind + nat" where
  "content_length m =
     (case hdr_get ContentLength (msg_headers m) of
        None \<Rightarrow> Inl MissingRequiredHeader
      | Some val \<Rightarrow>
          (case parse_uint u64_max (trim val) of None \<Rightarrow> Inl InvalidHeader | Some n \<Rightarrow> Inr n))"

section \<open>Round trips of header values\<close>

lemma cseq_value_parse [simp]:
  assumes "wf_method m"
  shows "cseq_parse (cseq_value n m) = Inr (n, m)"
proof -
  have "list_all plain_char (nat_to_dec (unat n))"
    using nat_to_dec_digits [of "unat n"] by (auto simp: list_all_iff)
  then show ?thesis
    using assms by (simp add: cseq_parse_def cseq_value_def)
qed

section \<open>Sample messages\<close>

text \<open>A request, the same with another method, and a response, at which properties are instantiated.\<close>

definition sample_uri :: sip_uri where
  "sample_uri = \<lparr>uri_scheme = Sip, uri_user = Some ''3402'', uri_password = None,
     uri_host = ''192.168.1.64'', uri_port = Some 5060, uri_parameters = []\<rparr>"

definition sample_request :: "sip_method \<Rightarrow> u32 \<Rightarrow> sip_method \<Rightarrow> sip_message" where
  "sample_request m n cseq_method =
     Request (request_line_new m sample_uri)
       (hdr_of_lines
         [(Via, ''SIP/2.0/UDP 192.168.1.1:5060;branch=z9hG4bK77''),
          (From, ''<sip:3401@192.168.1.1>;tag=a1''),
          (To, ''<sip:3402@192.168.1.64>''),
          (CallId, ''c1''), (CSeq, cseq_value n cseq_method)]) []"

definition sample_response :: "nat \<Rightarrow> u32 \<Rightarrow> sip_method \<Rightarrow> sip_message" where
  "sample_response code n cseq_method =
     Response (status_line_new code ''R'')
       (hdr_of_lines
         [(Via, ''SIP/2.0/UDP 192.168.1.1:5060;branch=z9hG4bK77''),
          (From, ''<sip:3401@192.168.1.1>;tag=a1''),
          (To, ''<sip:3402@192.168.1.64>;tag=b2''),
          (CallId, ''c1''), (CSeq, cseq_value n cseq_method)]) []"

lemma sample_is_request [simp]:
  "is_request (sample_request m n c)" "\<not> is_request (sample_response k n c)"
  by (simp_all add: sample_request_def sample_response_def)

lemma sample_wf [simp]:
  "wf_headers (msg_headers (sample_request m n c))" "wf_headers (msg_headers (sample_response k n c))"
  by (simp_all add: sample_request_def sample_response_def hdr_of_lines_props)

lemma sample_branch_value:
  "branch_value ''SIP/2.0/UDP 192.168.1.1:5060;branch=z9hG4bK77'' = Some ''z9hG4bK77''"
  by code_simp

lemma sample_fields [simp]:
  "top_branch (sample_request m n c) = Some ''z9hG4bK77''"
  "top_branch (sample_response k n c) = Some ''z9hG4bK77''"
  "call_id (sample_request m n c) = Some ''c1''"
  "call_id (sample_response k n c) = Some ''c1''"
  "wf_method c \<Longrightarrow> cseq (sample_request m n c) = Inr (n, c)"
  "wf_method c \<Longrightarrow> cseq (sample_response k n c) = Inr (n, c)"
  "hdr_get To (msg_headers (sample_response k n c)) = Some ''<sip:3402@192.168.1.64>;tag=b2''"
  unfolding sample_request_def sample_response_def top_branch_def call_id_def cseq_def
  by (simp_all add: hdr_get_all_scan hdr_get_scan hdr_of_lines_props header_name_eq_def
      sample_branch_value)

end
