(* ===== verification/SipWire.thy ===== *)
theory SipWire
  imports SipMessage
begin

text \<open>
  The wire format: \<open>sip/encoder.rs\<close> and \<open>sip/parser.rs\<close> of \<open>cheetah-gb28181-core\<close>. The parser
  keeps a byte buffer and the part of the message it has read. A compatibility profile matters to
  it only through the capability \<open>HeaderNormalization\<close>, which is the flag \<open>sp_normalize\<close>. The
  lemmas give the round trip of encoding and parsing, the limits on what is parsed, and that the
  messages of a stream do not depend on how it is cut into chunks.
\<close>

section \<open>Encoding\<close>

definition encode_request_line :: "request_line \<Rightarrow> string" where
  "encode_request_line line =
     method_to_string (rl_method line) @ '' '' @ uri_encode (rl_uri line) @ '' '' @ rl_version line @ CRLF"

definition encode_status_line :: "status_line \<Rightarrow> string" where
  "encode_status_line line =
     sl_version line @ '' '' @ nat_to_dec (sl_code line) @ '' '' @ sl_reason line @ CRLF"

definition encode_header_line :: "nat \<Rightarrow> header_name \<times> string \<Rightarrow> string" where
  "encode_header_line body_len l =
     (if header_name_eq (fst l) ContentLength
      then ''Content-Length: '' @ nat_to_dec body_len @ CRLF
      else header_name_str (fst l) @ '': '' @ snd l @ CRLF)"

definition encode_headers :: "sip_headers \<Rightarrow> nat \<Rightarrow> string" where
  "encode_headers headers body_len =
     concat (map (encode_header_line body_len) (hdr_lines headers))
     @ (if \<not> list_ex (\<lambda>l. header_name_eq (fst l) ContentLength) (hdr_lines headers)
        then ''Content-Length: '' @ nat_to_dec body_len @ CRLF else [])
     @ CRLF"

fun encode_message :: "sip_message \<Rightarrow> string" where
  "encode_message (Request line headers body) =
     encode_request_line line @ encode_headers headers (length body) @ body"
| "encode_message (Response line headers body) =
     encode_status_line line @ encode_headers headers (length body) @ body"

section \<open>UTF-8\<close>

text \<open>\<open>std::str::from_utf8\<close> accepts exactly the well-formed sequences of the Unicode standard.\<close>

definition byte_in :: "nat \<Rightarrow> nat \<Rightarrow> char \<Rightarrow> bool" where
  "byte_in lo hi c \<longleftrightarrow> lo \<le> of_char c \<and> of_char c \<le> hi"

abbreviation is_cont :: "char \<Rightarrow> bool" where
  "is_cont \<equiv> byte_in 0x80 0xBF"

definition utf8_two :: "char \<Rightarrow> char \<Rightarrow> bool" where
  "utf8_two a b \<longleftrightarrow> byte_in 0xC2 0xDF a \<and> is_cont b"

definition utf8_three :: "char \<Rightarrow> char \<Rightarrow> char \<Rightarrow> bool" where
  "utf8_three a b c \<longleftrightarrow>
     is_cont c \<and>
     (byte_in 0xE0 0xE0 a \<and> byte_in 0xA0 0xBF b
      \<or> byte_in 0xE1 0xEC a \<and> is_cont b
      \<or> byte_in 0xED 0xED a \<and> byte_in 0x80 0x9F b
      \<or> byte_in 0xEE 0xEF a \<and> is_cont b)"

definition utf8_four :: "char \<Rightarrow> char \<Rightarrow> char \<Rightarrow> char \<Rightarrow> bool" where
  "utf8_four a b c d \<longleftrightarrow>
     is_cont c \<and> is_cont d \<and>
     (byte_in 0xF0 0xF0 a \<and> byte_in 0x90 0xBF b
      \<or> byte_in 0xF1 0xF3 a \<and> is_cont b
      \<or> byte_in 0xF4 0xF4 a \<and> byte_in 0x80 0x8F b)"

text \<open>The length of the well-formed sequence at the start, if there is one.\<close>

fun utf8_char_len :: "string \<Rightarrow> nat option" where
  "utf8_char_len (a # b # c # d # s) =
     (if byte_in 0 0x7F a then Some 1 else if utf8_two a b then Some 2
      else if utf8_three a b c then Some 3 else if utf8_four a b c d then Some 4 else None)"
| "utf8_char_len [a, b, c] =
     (if byte_in 0 0x7F a then Some 1 else if utf8_two a b then Some 2
      else if utf8_three a b c then Some 3 else None)"
| "utf8_char_len [a, b] =
     (if byte_in 0 0x7F a then Some 1 else if utf8_two a b then Some 2 else None)"
| "utf8_char_len [a] = (if byte_in 0 0x7F a then Some 1 else None)"
| "utf8_char_len [] = None"

lemma utf8_char_len_props:
  assumes "utf8_char_len s = Some n"
  shows "0 < n \<and> n \<le> length s \<and> utf8_char_len (s @ t) = Some n"
  using assms
proof (cases s rule: utf8_char_len.cases)
  case (2 a b c)
  then show ?thesis using assms by (cases t) (auto split: if_splits)
next
  case (3 a b)
  then show ?thesis using assms
    by (cases t; cases "tl t") (auto split: if_splits)
next
  case (4 a)
  then show ?thesis using assms
    by (cases t; cases "tl t"; cases "tl (tl t)") (auto split: if_splits)
qed (auto split: if_splits)

function utf8_valid :: "string \<Rightarrow> bool" where
  "utf8_valid s =
     (s = [] \<or> (case utf8_char_len s of None \<Rightarrow> False | Some n \<Rightarrow> utf8_valid (drop n s)))"
  by pat_completeness auto
termination
proof (relation "measure length")
  fix s n
  assume "utf8_char_len s = Some n"
  with utf8_char_len_props [of s n "[]"] show "(drop n s, s) \<in> measure length" by auto
qed simp

declare utf8_valid.simps [simp del]

section \<open>Parser state\<close>

record sip_parser_config =
  pc_max_start_line_bytes :: nat
  pc_max_headers :: nat
  pc_max_header_block_bytes :: nat
  pc_max_header_line_bytes :: nat
  pc_max_body_bytes :: nat
  pc_max_buffer_bytes :: nat
  pc_datagram_mode :: bool

definition default_parser_config :: sip_parser_config where
  "default_parser_config =
     \<lparr>pc_max_start_line_bytes = 4096, pc_max_headers = 256, pc_max_header_block_bytes = 65536,
      pc_max_header_line_bytes = 4096, pc_max_body_bytes = 2097152, pc_max_buffer_bytes = 8388608,
      pc_datagram_mode = False\<rparr>"

datatype parser_state =
    P_StartLine
  | P_Headers string
  | P_Body string sip_headers nat nat

record sip_parser =
  sp_config :: sip_parser_config
  sp_normalize :: bool
  sp_state :: parser_state
  sp_buffer :: string

definition parser_new :: "sip_parser_config \<Rightarrow> bool \<Rightarrow> sip_parser" where
  "parser_new config nrm =
     \<lparr>sp_config = config, sp_normalize = nrm, sp_state = P_StartLine, sp_buffer = []\<rparr>"

section \<open>The start line\<close>

datatype line_scan = ScanTooLong | LineAt nat | NoLine

text \<open>The \<open>for\<close> loop of \<open>parse_start_line\<close> from index \<open>i\<close> on.\<close>

fun scan_line :: "nat \<Rightarrow> nat \<Rightarrow> string \<Rightarrow> line_scan" where
  "scan_line mx i (a # b # s) =
     (if mx < i then ScanTooLong
      else if a = CR \<and> b = LF then LineAt i
      else scan_line mx (Suc i) (b # s))"
| "scan_line mx i [] = NoLine"
| "scan_line mx i [a] = NoLine"

lemma scan_line_length: "scan_line mx i s = LineAt k \<Longrightarrow> i \<le> k \<and> k - i + 2 \<le> length s"
  by (induction mx i s rule: scan_line.induct) (auto split: if_splits)

function parse_start_line :: "nat \<Rightarrow> string \<Rightarrow> string \<times> (sip_error_kind + string) option" where
  "parse_start_line mx buf =
     (case scan_line mx 0 buf of
        ScanTooLong \<Rightarrow> (buf, Some (Inl StartLineTooLong))
      | LineAt i \<Rightarrow>
          if \<not> utf8_valid (take i buf) then (buf, Some (Inl InvalidStartLine))
          else if take i buf = [] then parse_start_line mx (drop (i + 2) buf)
          else (drop (i + 2) buf, Some (Inr (take i buf)))
      | NoLine \<Rightarrow>
          if mx < length buf then (buf, Some (Inl StartLineTooLong)) else (buf, None))"
  by pat_completeness auto
termination
  by (relation "measure (\<lambda>(mx, buf). length buf)") (auto dest!: scan_line_length)

declare parse_start_line.simps [simp del]

section \<open>The header block\<close>

fun find_crlf :: "string \<Rightarrow> nat option" where
  "find_crlf (a # b # s) =
     (if a = CR \<and> b = LF then Some 0 else map_option Suc (find_crlf (b # s)))"
| "find_crlf _ = None"

lemma find_crlf_length: "find_crlf s = Some k \<Longrightarrow> k + 2 \<le> length s"
  by (induction s arbitrary: k rule: find_crlf.induct) (auto split: if_splits)

definition is_ascii_whitespace :: "char \<Rightarrow> bool" where
  "is_ascii_whitespace c \<longleftrightarrow> c \<in> {CHR 0x20, CHR 0x09, CHR 0x0A, CHR 0x0C, CHR 0x0D}"

definition is_header_token_char :: "char \<Rightarrow> bool" where
  "is_header_token_char c \<longleftrightarrow>
     is_ascii_lowercase c \<or> is_ascii_uppercase c \<or> is_ascii_digit c
     \<or> c \<in> set ''-._!%$*&+^`{|}~''"

text \<open>\<open>looks_like_header_after_blank\<close>; the argument is the buffer from the blank line on.\<close>

definition looks_like_header_after_blank :: "string \<Rightarrow> bool" where
  "looks_like_header_after_blank s =
     (let rest = drop 2 s in
      if rest = [] then False
      else case find_crlf rest of
        None \<Rightarrow> False
      | Some e \<Rightarrow>
          (let line = take e rest in
           if line = [] \<or> is_ascii_whitespace (hd line) then False
           else case split_once (CHR '':'') line of
             None \<Rightarrow> False
           | Some (name, _) \<Rightarrow> name \<noteq> [] \<and> list_all is_header_token_char name))"

definition normalize_cseq_value :: "string \<Rightarrow> string" where
  "normalize_cseq_value val =
     (case split_once_ws (trim val) of
        None \<Rightarrow> val
      | Some (num, meth) \<Rightarrow> num @ '' '' @ map to_ascii_uppercase (trim_start meth))"

text \<open>One header line.\<close>

definition parse_header_line ::
    "sip_parser_config \<Rightarrow> bool \<Rightarrow> string \<Rightarrow> sip_error_kind + (header_name \<times> string)" where
  "parse_header_line cfg nrm line =
     (if pc_max_header_line_bytes cfg < length line then Inl HeaderTooLong
      else if \<not> utf8_valid line then Inl InvalidHeader
      else if prefix [CHR 0x20] line \<or> prefix [CHR 0x09] line then Inl InvalidHeader
      else case split_once (CHR '':'') line of
        None \<Rightarrow> Inl InvalidHeader
      | Some (n, v) \<Rightarrow>
          (let name = header_name_parse (trim n); val = trim v in
           Inr (name, if header_name_eq name CSeq \<and> nrm then normalize_cseq_value val else val)))"

text \<open>At the end of the headers: the content length and the headers with an inferred one.\<close>

definition finish_headers ::
    "sip_parser_config \<Rightarrow> sip_headers \<Rightarrow> nat \<Rightarrow> sip_error_kind + (sip_headers \<times> nat)" where
  "finish_headers cfg headers remaining =
     (case (case hdr_get ContentLength headers of
              Some val \<Rightarrow>
                (let t = trim val in
                 if t = [] then Inl InvalidHeader
                 else case parse_uint u64_max t of None \<Rightarrow> Inl InvalidHeader | Some n \<Rightarrow> Inr (headers, n))
            | None \<Rightarrow>
                if \<not> pc_datagram_mode cfg then Inl InvalidFraming
                else Inr (hdr_append ContentLength (nat_to_dec remaining) headers, remaining)) of
        Inl e \<Rightarrow> Inl e
      | Inr (h, n) \<Rightarrow> if pc_max_body_bytes cfg < n then Inl BodyTooLarge else Inr (h, n))"

text \<open>
  The loop of \<open>parse_headers\<close>. The arguments are the headers so far, \<open>consumed\<close>, \<open>header_count\<close>,
  \<open>header_block_size\<close> and the buffer from \<open>consumed\<close> on.
\<close>

function parse_headers_loop ::
    "sip_parser_config \<Rightarrow> bool \<Rightarrow> sip_headers \<Rightarrow> nat \<Rightarrow> nat \<Rightarrow> nat \<Rightarrow> string
       \<Rightarrow> (sip_error_kind + (sip_headers \<times> nat \<times> nat)) option" where
  "parse_headers_loop cfg nrm headers consumed cnt block s =
     (if pc_max_header_block_bytes cfg < block then Some (Inl HeadersTooLarge)
      else if pc_max_headers cfg < cnt then Some (Inl TooManyHeaders)
      else if length s \<le> 1 then None
      else if prefix CRLF s then
        (if nrm \<and> looks_like_header_after_blank s
         then parse_headers_loop cfg nrm headers (consumed + 2) cnt block (drop 2 s)
         else Some (case finish_headers cfg headers (length s - 2) of
                      Inl e \<Rightarrow> Inl e
                    | Inr (h, n) \<Rightarrow> Inr (h, n, consumed + 2)))
      else case find_crlf s of
        None \<Rightarrow> None
      | Some e \<Rightarrow>
          (case parse_header_line cfg nrm (take e s) of
             Inl err \<Rightarrow> Some (Inl err)
           | Inr (name, val) \<Rightarrow>
               parse_headers_loop cfg nrm (hdr_append name val headers) (consumed + (e + 2))
                 (cnt + 1) (block + (e + 2)) (drop (e + 2) s)))"
  by pat_completeness auto
termination
  by (relation "measure (\<lambda>(cfg, nrm, headers, consumed, cnt, block, s). length s)")
     (auto dest!: find_crlf_length)

declare parse_headers_loop.simps [simp del]

definition parse_headers ::
    "sip_parser_config \<Rightarrow> bool \<Rightarrow> string
       \<Rightarrow> string \<times> (sip_error_kind + (sip_headers \<times> nat \<times> nat)) option" where
  "parse_headers cfg nrm buf =
     (case parse_headers_loop cfg nrm hdr_new 0 0 0 buf of
        Some (Inr (h, n, consumed)) \<Rightarrow> (drop consumed buf, Some (Inr (h, n, consumed)))
      | r \<Rightarrow> (buf, r))"

section \<open>Messages\<close>

definition build_message ::
    "string \<Rightarrow> sip_headers \<Rightarrow> string \<Rightarrow> nat \<Rightarrow> bool \<Rightarrow> sip_error_kind + sip_message" where
  "build_message start_line headers body content_len nrm =
     (if length body \<noteq> content_len then Inl ContentLengthMismatch
      else case strip_prefix ''SIP/2.0 '' start_line of
        Some rest \<Rightarrow>
          (let (code_text, reason) =
                 (case split_once SP rest of None \<Rightarrow> (rest, []) | Some (a, b) \<Rightarrow> (a, b))
           in case parse_uint u16_max code_text of
                None \<Rightarrow> Inl InvalidStartLine
              | Some code \<Rightarrow> Inr (Response (status_line_new code reason) headers body))
      | None \<Rightarrow>
          (case split_once SP start_line of
             None \<Rightarrow> Inl InvalidStartLine
           | Some (method_str, rest) \<Rightarrow>
          (case split_once SP rest of
             None \<Rightarrow> Inl InvalidStartLine
           | Some (uri_str, _) \<Rightarrow>
          (case method_parse (if nrm then map to_ascii_uppercase method_str else method_str) of
             Inl e \<Rightarrow> Inl e
           | Inr meth \<Rightarrow>
          (case uri_parse uri_str of
             Inl e \<Rightarrow> Inl e
           | Inr uri \<Rightarrow> Inr (Request (request_line_new meth uri) headers body))))))"

section \<open>Feeding and popping\<close>

definition parser_feed :: "sip_parser \<Rightarrow> string \<Rightarrow> sip_parser \<times> (sip_error_kind + unit)" where
  "parser_feed p data =
     (if pc_max_buffer_bytes (sp_config p) < length (sp_buffer p) + length data
      then (p, Inl BufferTooLarge)
      else (p\<lparr>sp_buffer := sp_buffer p @ data\<rparr>, Inr ()))"

type_synonym pop_result = "sip_parser \<times> (sip_error_kind + sip_message) option"

text \<open>\<open>pop_message\<close> by the state it starts in; each part continues with the next one.\<close>

definition pop_body ::
    "sip_parser \<Rightarrow> string \<Rightarrow> sip_headers \<Rightarrow> nat \<Rightarrow> pop_result" where
  "pop_body p start_line headers content_len =
     (if length (sp_buffer p) < content_len then (p, None)
      else (p\<lparr>sp_buffer := drop content_len (sp_buffer p), sp_state := P_StartLine\<rparr>,
            Some (build_message start_line headers (take content_len (sp_buffer p)) content_len
                    (sp_normalize p))))"

definition pop_headers :: "sip_parser \<Rightarrow> string \<Rightarrow> pop_result" where
  "pop_headers p start_line =
     (case parse_headers (sp_config p) (sp_normalize p) (sp_buffer p) of
        (buf, None) \<Rightarrow> (p\<lparr>sp_buffer := buf\<rparr>, None)
      | (buf, Some (Inl e)) \<Rightarrow> (p\<lparr>sp_buffer := [], sp_state := P_StartLine\<rparr>, Some (Inl e))
      | (buf, Some (Inr (h, n, consumed))) \<Rightarrow>
          pop_body (p\<lparr>sp_buffer := buf, sp_state := P_Body start_line h n consumed\<rparr>) start_line h n)"

definition pop_start :: "sip_parser \<Rightarrow> pop_result" where
  "pop_start p =
     (case parse_start_line (pc_max_start_line_bytes (sp_config p)) (sp_buffer p) of
        (buf, None) \<Rightarrow> (p\<lparr>sp_buffer := buf\<rparr>, None)
      | (buf, Some (Inl e)) \<Rightarrow> (p\<lparr>sp_buffer := [], sp_state := P_StartLine\<rparr>, Some (Inl e))
      | (buf, Some (Inr line)) \<Rightarrow>
          pop_headers (p\<lparr>sp_buffer := buf, sp_state := P_Headers line\<rparr>) line)"

definition pop_message :: "sip_parser \<Rightarrow> pop_result" where
  "pop_message p =
     (case sp_state p of
        P_StartLine \<Rightarrow> pop_start p
      | P_Headers line \<Rightarrow> pop_headers p line
      | P_Body line h n consumed \<Rightarrow> pop_body p line h n)"

definition parse_datagram :: "string \<Rightarrow> sip_parser_config \<Rightarrow> bool \<Rightarrow> sip_error_kind + sip_message" where
  "parse_datagram data config nrm =
     (case parser_feed (parser_new (config\<lparr>pc_datagram_mode := True\<rparr>) nrm) data of
        (_, Inl e) \<Rightarrow> Inl e
      | (p, Inr ()) \<Rightarrow>
     (case pop_message p of
        (p', Some (Inr message)) \<Rightarrow>
          if sp_buffer p' \<noteq> [] then Inl InvalidFraming else Inr message
      | (p', Some (Inl e)) \<Rightarrow> Inl e
      | (p', None) \<Rightarrow>
          (case sp_state p' of
             P_Body _ _ n _ \<Rightarrow> if length (sp_buffer p') < n then Inl ContentLengthMismatch
                               else Inl InvalidFraming
           | _ \<Rightarrow> Inl InvalidFraming)))"

section \<open>Lines\<close>

lemma scan_line_append:
  "CR \<notin> set line \<Longrightarrow> i + length line \<le> mx \<Longrightarrow>
     scan_line mx i (line @ CR # LF # s) = LineAt (i + length line)"
proof (induction line arbitrary: i)
  case (Cons a line)
  then show ?case by (cases line) auto
qed simp

lemma parse_start_line_append:
  assumes "line \<noteq> []" "CR \<notin> set line" "length line \<le> mx" "utf8_valid line"
  shows "parse_start_line mx (line @ CRLF @ s) = (s, Some (Inr line))"
  using assms scan_line_append [of line 0 mx s] by (subst parse_start_line.simps) simp

lemma find_crlf_append: "CR \<notin> set line \<Longrightarrow> find_crlf (line @ CR # LF # s) = Some (length line)"
proof (induction line)
  case (Cons a line)
  then show ?case by (cases line) auto
qed simp

lemma utf8_valid_Nil [simp]: "utf8_valid []"
  by (simp add: utf8_valid.simps [of "[]"])

lemma utf8_valid_ascii: "list_all (byte_in 0 0x7F) a \<Longrightarrow> utf8_valid (a @ b) = utf8_valid b"
proof (induction a)
  case (Cons c a)
  then have "utf8_char_len ((c # a) @ b) = Some 1"
    by (cases "(c # a) @ b" rule: utf8_char_len.cases) auto
  with Cons show ?case by (simp add: utf8_valid.simps [of "c # a @ b"])
qed simp

lemma utf8_valid_SP: "utf8_valid (SP # s) = utf8_valid s"
  using utf8_valid_ascii [of "[SP]" s] by (simp add: byte_in_def)

lemma utf8_valid_append: "utf8_valid a \<Longrightarrow> utf8_valid b \<Longrightarrow> utf8_valid (a @ b)"
proof (induction a rule: utf8_valid.induct)
  case (1 a)
  show ?case
  proof (cases "a = []")
    case False
    with 1(2) obtain n where n: "utf8_char_len a = Some n" "utf8_valid (drop n a)"
      by (auto simp: utf8_valid.simps [of a] split: option.splits)
    have "utf8_valid (drop n a @ b)" using 1 n by (simp add: False)
    with utf8_char_len_props [OF n(1), of b] False show ?thesis
      by (simp add: utf8_valid.simps [of "a @ b"])
  qed (use 1 in simp)
qed

text \<open>A visible ASCII character at both ends leaves nothing to trim.\<close>

definition visible :: "char \<Rightarrow> bool" where
  "visible c \<longleftrightarrow> byte_in 0x21 0x7E c"

lemma visible_not_ws:
  assumes "visible c"
  shows "leading whitespace_seqs (c # cs) = None" "leading (map rev whitespace_seqs) (c # cs) = None"
proof -
  have "\<forall>w \<in> set whitespace_seqs. w \<noteq> [] \<and> hd w \<noteq> c \<and> last w \<noteq> c"
    using assms unfolding whitespace_seqs_def visible_def byte_in_def by auto
  then show "leading whitespace_seqs (c # cs) = None" "leading (map rev whitespace_seqs) (c # cs) = None"
    unfolding leading_None_iff by (auto simp: prefix_def neq_Nil_conv) (metis last_snoc rev.simps(2) rev_swap)+
qed

lemma trimmed_visible:
  assumes "s \<noteq> []" "visible (hd s)" "visible (last s)"
  shows "trimmed s"
proof -
  obtain c cs where "s = c # cs" using assms(1) by (cases s) auto
  moreover obtain d ds where "rev s = d # ds" "d = last s" using assms(1) by (cases "rev s") (auto simp: hd_rev [symmetric])
  ultimately show ?thesis
    using assms visible_not_ws by (simp add: trimmed_def)
qed

section \<open>Header lines\<close>

definition wf_header_name :: "header_name \<Rightarrow> bool" where
  "wf_header_name n \<longleftrightarrow>
     header_name_str n \<noteq> [] \<and> list_all is_header_token_char (header_name_str n)
     \<and> header_name_parse (header_name_str n) = n"

definition wf_header_value :: "string \<Rightarrow> bool" where
  "wf_header_value v \<longleftrightarrow> utf8_valid v \<and> trimmed v \<and> CR \<notin> set v"

definition plain_header_line :: "header_name \<times> string \<Rightarrow> string" where
  "plain_header_line l = header_name_str (fst l) @ '': '' @ snd l"

definition wf_header_line :: "sip_parser_config \<Rightarrow> header_name \<times> string \<Rightarrow> bool" where
  "wf_header_line cfg l \<longleftrightarrow>
     wf_header_name (fst l) \<and> wf_header_value (snd l)
     \<and> length (plain_header_line l) \<le> pc_max_header_line_bytes cfg"

lemma token_char_visible: "is_header_token_char c \<Longrightarrow> visible c"
  unfolding is_header_token_char_def visible_def byte_in_def is_ascii_lowercase_def
    is_ascii_uppercase_def is_ascii_digit_def
  by auto

lemma token_char_not [simp]:
  "is_header_token_char c \<Longrightarrow> c \<noteq> CHR '':''" "is_header_token_char c \<Longrightarrow> c \<noteq> CR"
  "is_header_token_char c \<Longrightarrow> c \<noteq> SP" "is_header_token_char c \<Longrightarrow> c \<noteq> CHR 0x09"
  "is_header_token_char c \<Longrightarrow> byte_in 0 0x7F c"
  using token_char_visible [of c]
  by (auto simp: visible_def byte_in_def is_header_token_char_def is_ascii_lowercase_def
      is_ascii_uppercase_def is_ascii_digit_def)

lemma not_token_char [simp]:
  "\<not> is_header_token_char CR" "\<not> is_header_token_char (CHR '':'')"
  "\<not> is_header_token_char SP" "\<not> is_header_token_char (CHR 0x09)"
  using token_char_not(1-4) by blast+

lemma trim_SP: "trimmed v \<Longrightarrow> trim (SP # v) = v"
proof -
  assume v: "trimmed v"
  then have "strip_leading whitespace_seqs (SP # v) = v"
    by (subst strip_leading.simps) (simp add: trimmed_def)
  with v show ?thesis
    by (simp add: trim_def trim_start_def trim_end_def trimmed_def)
qed

lemma wf_header_name_trim: "wf_header_name n \<Longrightarrow> trim (header_name_str n) = header_name_str n"
  using trimmed_visible [of "header_name_str n"]
  by (simp add: wf_header_name_def list_all_iff token_char_visible)

lemma plain_header_line_chars:
  assumes "wf_header_line cfg l"
  shows "CR \<notin> set (plain_header_line l)" "utf8_valid (plain_header_line l)"
    "plain_header_line l \<noteq> []"
proof -
  have tok: "list_all is_header_token_char (header_name_str (fst l))" and v: "wf_header_value (snd l)"
    using assms by (auto simp: wf_header_line_def wf_header_name_def)
  then have "list_all (byte_in 0 0x7F) (header_name_str (fst l))"
    by (auto simp: list_all_iff)
  with v show "utf8_valid (plain_header_line l)"
    by (simp add: plain_header_line_def wf_header_value_def utf8_valid_ascii
        utf8_valid_ascii [of "'': ''", simplified] byte_in_def)
  show "CR \<notin> set (plain_header_line l)" "plain_header_line l \<noteq> []"
    using tok v by (auto simp: plain_header_line_def wf_header_value_def list_all_iff)
qed

lemma parse_header_line_encode:
  assumes "wf_header_line cfg l"
  shows "parse_header_line cfg False (plain_header_line l) = Inr l"
proof -
  obtain n v where l: "l = (n, v)" by (cases l)
  have n: "wf_header_name n" "wf_header_value v" using assms l by (auto simp: wf_header_line_def)
  then have tok: "list_all is_header_token_char (header_name_str n)" "header_name_str n \<noteq> []"
    by (auto simp: wf_header_name_def)
  then obtain c cs where c: "header_name_str n = c # cs" "is_header_token_char c"
    by (cases "header_name_str n") auto
  have "CHR '':'' \<notin> set (header_name_str n)" using tok by (auto simp: list_all_iff)
  then have "split_once (CHR '':'') (plain_header_line l) = Some (header_name_str n, SP # v)"
    using split_once_append [of "CHR '':''" "header_name_str n" "SP # v"]
    by (simp add: plain_header_line_def l)
  moreover have "\<not> prefix [CHR 0x20] (plain_header_line l)" "\<not> prefix [CHR 0x09] (plain_header_line l)"
    using c by (auto simp: plain_header_line_def l)
  ultimately show ?thesis
    using assms plain_header_line_chars(2) [OF assms] n wf_header_name_trim [OF n(1)] trim_SP [of v]
    by (simp add: parse_header_line_def wf_header_line_def l wf_header_name_def wf_header_value_def)
qed

definition header_block :: "(header_name \<times> string) list \<Rightarrow> string" where
  "header_block ls = concat (map (\<lambda>l. plain_header_line l @ CRLF) ls)"

lemma header_block_simps [simp]:
  "header_block [] = []" "header_block (l # ls) = plain_header_line l @ CRLF @ header_block ls"
  "header_block (ls @ ls') = header_block ls @ header_block ls'"
  by (simp_all add: header_block_def)

lemma prefix_CRLF_iff: "prefix CRLF s \<longleftrightarrow> find_crlf s = Some 0"
  by (cases s rule: find_crlf.cases) auto

lemma parse_headers_loop_lines:
  assumes "\<forall>l \<in> set ls. wf_header_line cfg l" "cnt + length ls \<le> pc_max_headers cfg"
    "block + length (header_block ls) \<le> pc_max_header_block_bytes cfg"
  shows "parse_headers_loop cfg False h consumed cnt block
      (header_block ls @ CRLF @ s) =
    Some (case finish_headers cfg (foldl (\<lambda>h (n, v). hdr_append n v h) h ls) (length s) of
            Inl e \<Rightarrow> Inl e
          | Inr (h, n) \<Rightarrow>
              Inr (h, n, consumed + length (header_block ls) + 2))"
  using assms
proof (induction ls arbitrary: h consumed cnt block)
  case Nil
  then show ?case by (subst parse_headers_loop.simps) (simp split: sum.split prod.split)
next
  case (Cons l ls)
  let ?rest = "header_block ls @ CRLF @ s"
  have wf: "wf_header_line cfg l" using Cons.prems(1) by simp
  note ch = plain_header_line_chars [OF wf]
  have crlf: "find_crlf (plain_header_line l @ CRLF @ ?rest) = Some (length (plain_header_line l))"
    using find_crlf_append [OF ch(1)] by simp
  then have np: "\<not> prefix CRLF (plain_header_line l @ CRLF @ ?rest)"
    using ch(3) unfolding prefix_CRLF_iff by simp
  have step: "parse_headers_loop cfg False h consumed cnt block (plain_header_line l @ CRLF @ ?rest) =
     parse_headers_loop cfg False (hdr_append (fst l) (snd l) h)
       (consumed + (length (plain_header_line l) + 2)) (cnt + 1) (block + (length (plain_header_line l) + 2)) ?rest"
    using np crlf Cons.prems(2,3) parse_header_line_encode [OF wf]
    by (subst parse_headers_loop.simps) (cases l, simp)
  have "cnt + 1 + length ls \<le> pc_max_headers cfg"
    "block + (length (plain_header_line l) + 2) + length (header_block ls)
       \<le> pc_max_header_block_bytes cfg"
    using Cons.prems(2,3) by auto
  from Cons.IH [OF _ this, of "hdr_append (fst l) (snd l) h" "consumed + (length (plain_header_line l) + 2)"]
    Cons.prems(1) step show ?case
    by (cases l) (simp add: ac_simps split: sum.split prod.split)
qed

section \<open>The round trip\<close>

text \<open>The headers as they arrive: every \<open>Content-Length\<close> is that of the body, and there is one.\<close>

definition canonical_lines ::
    "nat \<Rightarrow> (header_name \<times> string) list \<Rightarrow> (header_name \<times> string) list" where
  "canonical_lines n ls =
     map (\<lambda>l. if header_name_eq (fst l) ContentLength then (ContentLength, nat_to_dec n) else l) ls
     @ (if \<not> list_ex (\<lambda>l. header_name_eq (fst l) ContentLength) ls
        then [(ContentLength, nat_to_dec n)] else [])"

fun canonical :: "sip_message \<Rightarrow> sip_message" where
  "canonical (Request line h b) = Request line (hdr_of_lines (canonical_lines (length b) (hdr_lines h))) b"
| "canonical (Response line h b) = Response line (hdr_of_lines (canonical_lines (length b) (hdr_lines h))) b"

fun start_line_text :: "sip_message \<Rightarrow> string" where
  "start_line_text (Request line _ _) =
     method_to_string (rl_method line) @ '' '' @ uri_encode (rl_uri line) @ '' '' @ rl_version line"
| "start_line_text (Response line _ _) =
     sl_version line @ '' '' @ nat_to_dec (sl_code line) @ '' '' @ sl_reason line"

text \<open>Start lines that can be printed and read back.\<close>

fun wf_start_line :: "sip_message \<Rightarrow> bool" where
  "wf_start_line (Request line _ _) \<longleftrightarrow>
     wf_method (rl_method line) \<and> wf_uri (rl_uri line) \<and> rl_version line = sip_2_0
     \<and> SP \<notin> set (uri_encode (rl_uri line)) \<and> CR \<notin> set (uri_encode (rl_uri line))
     \<and> utf8_valid (uri_encode (rl_uri line))"
| "wf_start_line (Response line _ _) \<longleftrightarrow>
     sl_version line = sip_2_0 \<and> sl_code line \<le> u16_max
     \<and> CR \<notin> set (sl_reason line) \<and> utf8_valid (sl_reason line)"

definition message_lines :: "sip_message \<Rightarrow> (header_name \<times> string) list" where
  "message_lines m = canonical_lines (length (msg_body m)) (hdr_lines (msg_headers m))"

text \<open>A message within the limits of a parser.\<close>

definition message_fits :: "sip_parser_config \<Rightarrow> sip_message \<Rightarrow> bool" where
  "message_fits cfg m \<longleftrightarrow>
     wf_start_line m \<and> length (start_line_text m) \<le> pc_max_start_line_bytes cfg
     \<and> (\<forall>l \<in> set (message_lines m). wf_header_line cfg l)
     \<and> length (message_lines m) \<le> pc_max_headers cfg
     \<and> length (header_block (message_lines m)) \<le> pc_max_header_block_bytes cfg
     \<and> length (msg_body m) \<le> pc_max_body_bytes cfg \<and> length (msg_body m) \<le> u64_max"

lemma content_length_eq: "header_name_eq h ContentLength \<longleftrightarrow> h = ContentLength"
  by (cases h) (simp_all add: header_name_eq_def)

lemma encode_headers_block:
  "encode_headers h n = header_block (canonical_lines n (hdr_lines h)) @ CRLF"
proof -
  have "concat (map (encode_header_line n) ls) =
      header_block (map (\<lambda>l. if header_name_eq (fst l) ContentLength then (ContentLength, nat_to_dec n) else l) ls)"
    for ls
    by (induction ls) (simp_all add: encode_header_line_def plain_header_line_def)
  then show ?thesis
    by (simp add: encode_headers_def canonical_lines_def plain_header_line_def)
qed

lemma encode_message_parts:
  "encode_message m = start_line_text m @ CRLF @ header_block (message_lines m) @ CRLF @ msg_body m"
  by (cases m) (simp_all add: encode_request_line_def encode_status_line_def encode_headers_block
      message_lines_def)

lemma hdr_get_content_length:
  "hdr_get ContentLength (hdr_of_lines (canonical_lines n ls)) = Some (nat_to_dec n)"
proof -
  have "find (\<lambda>l. fst l = ContentLength) (canonical_lines n ls) = Some (ContentLength, nat_to_dec n)"
    by (induction ls) (auto simp: canonical_lines_def content_length_eq)
  then show ?thesis
    by (simp add: hdr_get_scan [OF hdr_of_lines_props(1)] hdr_of_lines_props(2) content_length_eq)
qed

lemma digit_visible: "is_ascii_digit c \<Longrightarrow> visible c" "is_ascii_digit c \<Longrightarrow> byte_in 0 0x7F c"
  by (simp_all add: is_ascii_digit_def visible_def byte_in_def)

lemma trimmed_nat_to_dec: "trimmed (nat_to_dec n)"
proof -
  have "visible c" if "c \<in> set (nat_to_dec n)" for c
    using that nat_to_dec_digits [of n] digit_visible(1) unfolding list_all_iff by blast
  then show ?thesis
    using trimmed_visible [OF nat_to_dec_not_Nil] hd_in_set [OF nat_to_dec_not_Nil]
      last_in_set [OF nat_to_dec_not_Nil] by blast
qed

lemma finish_headers_canonical:
  assumes "n \<le> pc_max_body_bytes cfg" "n \<le> u64_max"
  shows "finish_headers cfg (hdr_of_lines (canonical_lines n ls)) k
    = Inr (hdr_of_lines (canonical_lines n ls), n)"
  using assms trimmed_nat_to_dec [of n]
  by (simp add: finish_headers_def hdr_get_content_length)

lemma start_line_chars:
  assumes "wf_start_line m"
  shows "start_line_text m \<noteq> []" "CR \<notin> set (start_line_text m)" "utf8_valid (start_line_text m)"
proof -
  have asc: "utf8_valid a" if "list_all (byte_in 0 0x7F) a" for a
    using utf8_valid_ascii [OF that, of "[]"] by simp
  have dec: "list_all (byte_in 0 0x7F) (nat_to_dec n)" for n
    using nat_to_dec_digits [of n] digit_visible(2) unfolding list_all_iff by blast
  have meth: "list_all (byte_in 0 0x7F) (method_to_string x)" "CR \<notin> set (method_to_string x)"
    if "wf_method x" for x
    using method_chars [OF that] by (auto simp: list_all_iff is_ascii_uppercase_def byte_in_def)
  have lit: "utf8_valid '' ''" "utf8_valid sip_2_0" "CR \<notin> set sip_2_0"
    by (auto intro!: asc simp: sip_2_0_def byte_in_def)
  show "start_line_text m \<noteq> []" by (cases m) auto
  show "CR \<notin> set (start_line_text m)"
    using assms lit by (cases m) (auto simp: meth)
  show "utf8_valid (start_line_text m)"
    using assms lit by (cases m) (auto intro!: utf8_valid_append simp: utf8_valid_SP asc [OF dec] asc [OF meth(1)])
qed

lemma build_message_canonical:
  assumes "wf_start_line m"
  shows "build_message (start_line_text m) (hdr_of_lines (message_lines m)) (msg_body m)
      (length (msg_body m)) False = Inr (canonical m)"
proof (cases m)
  case (Request line h b)
  with assms have w: "wf_method (rl_method line)" "wf_uri (rl_uri line)" "rl_version line = sip_2_0"
    "SP \<notin> set (uri_encode (rl_uri line))" by auto
  have sp: "SP \<notin> set (method_to_string (rl_method line))" "CHR ''/'' \<notin> set (method_to_string (rl_method line))"
    using method_chars [OF w(1)] by (auto simp: list_all_iff is_ascii_uppercase_def)
  have split: "split_once SP (start_line_text m) =
      Some (method_to_string (rl_method line), uri_encode (rl_uri line) @ SP # sip_2_0)"
    using split_once_append [OF sp(1)] w(3) by (simp add: Request)
  have "\<not> prefix ''SIP/2.0 '' (start_line_text m)"
  proof
    assume "prefix ''SIP/2.0 '' (start_line_text m)"
    then obtain x where "start_line_text m = ''SIP/2.0 '' @ x" by (rule prefixE)
    then have "split_once SP (start_line_text m) = Some (''SIP/2.0'', x)" by simp
    with split have "method_to_string (rl_method line) = ''SIP/2.0''" by simp
    with sp(2) show False by simp
  qed
  then have "strip_prefix ''SIP/2.0 '' (start_line_text m) = None"
    by (simp add: strip_prefix_def)
  moreover note split
  moreover have "split_once SP (uri_encode (rl_uri line) @ SP # sip_2_0) =
      Some (uri_encode (rl_uri line), sip_2_0)"
    using split_once_append [OF w(4)] by simp
  moreover have "request_line_new (rl_method line) (rl_uri line) = line"
    using w(3) by (simp add: request_line_new_def)
  ultimately show ?thesis
    using w uri_roundtrip_lemma [OF w(2)]
    by (simp add: build_message_def Request message_lines_def)
next
  case (Response line h b)
  with assms have w: "sl_version line = sip_2_0" "sl_code line \<le> u16_max" by auto
  have "strip_prefix ''SIP/2.0 '' (start_line_text m)
      = Some (nat_to_dec (sl_code line) @ SP # sl_reason line)"
    using w(1) by (simp add: Response sip_2_0_def strip_prefix_append [of "''SIP/2.0 ''", simplified])
  moreover have "split_once SP (nat_to_dec (sl_code line) @ SP # sl_reason line)
      = Some (nat_to_dec (sl_code line), sl_reason line)"
    by (rule split_once_append) simp
  moreover have "status_line_new (sl_code line) (sl_reason line) = line"
    using w(1) by (simp add: status_line_new_def)
  ultimately show ?thesis
    using w by (simp add: build_message_def Response message_lines_def)
qed

lemma pop_encoded:
  assumes "message_fits (sp_config p) m" "sp_state p = P_StartLine" "\<not> sp_normalize p"
    "sp_buffer p = encode_message m @ s"
  shows "pop_message p = (p\<lparr>sp_buffer := s\<rparr>, Some (Inr (canonical m)))"
proof -
  let ?cfg = "sp_config p" and ?hs = "hdr_of_lines (message_lines m)"
  let ?t = "header_block (message_lines m) @ CRLF @ msg_body m @ s"
  have fits: "wf_start_line m" "length (start_line_text m) \<le> pc_max_start_line_bytes ?cfg"
    using assms(1) by (auto simp: message_fits_def)
  have 1: "parse_start_line (pc_max_start_line_bytes ?cfg) (sp_buffer p) = (?t, Some (Inr (start_line_text m)))"
    using parse_start_line_append [OF start_line_chars(1,2) [OF fits(1)] fits(2) start_line_chars(3) [OF fits(1)]]
      assms(4) by (simp add: encode_message_parts)
  have "foldl (\<lambda>h (n, v). hdr_append n v h) hdr_new (message_lines m) = ?hs"
    by (simp add: hdr_of_lines_def)
  then have "parse_headers_loop ?cfg False hdr_new 0 0 0 ?t =
      Some (Inr (?hs, length (msg_body m), length (header_block (message_lines m)) + 2))"
    using parse_headers_loop_lines [of "message_lines m" ?cfg 0 0 hdr_new 0 "msg_body m @ s"] assms(1)
      finish_headers_canonical [of "length (msg_body m)" ?cfg]
    by (simp add: message_fits_def message_lines_def)
  then have 2: "parse_headers ?cfg False ?t = (msg_body m @ s,
      Some (Inr (?hs, length (msg_body m), length (header_block (message_lines m)) + 2)))"
    by (simp add: parse_headers_def)
  have "build_message (start_line_text m) ?hs (msg_body m) (length (msg_body m)) False = Inr (canonical m)"
    by (rule build_message_canonical [OF fits(1)])
  with 1 2 assms show ?thesis
    by (simp add: pop_message_def pop_start_def pop_headers_def pop_body_def)
qed

section \<open>Streams\<close>

lemma scan_line_extend:
  "scan_line mx i s = r \<Longrightarrow> r \<noteq> NoLine \<Longrightarrow> scan_line mx i (s @ t) = r"
  by (induction mx i s rule: scan_line.induct) auto

lemma parse_start_line_extend:
  "parse_start_line mx s = (s', Some (Inr line)) \<Longrightarrow>
     parse_start_line mx (s @ t) = (s' @ t, Some (Inr line))"
  "parse_start_line mx s = (s', None) \<Longrightarrow> parse_start_line mx (s @ t) = parse_start_line mx (s' @ t)"
proof (induction mx s rule: parse_start_line.induct)
  case (1 mx s)
  have line: "parse_start_line mx (s @ t) =
      (if \<not> utf8_valid (take i s) then (s @ t, Some (Inl InvalidStartLine))
       else if i = 0 then parse_start_line mx (drop 2 s @ t)
       else (drop (i + 2) s @ t, Some (Inr (take i s))))"
    "parse_start_line mx s =
      (if \<not> utf8_valid (take i s) then (s, Some (Inl InvalidStartLine))
       else if i = 0 then parse_start_line mx (drop 2 s)
       else (drop (i + 2) s, Some (Inr (take i s))))"
    if "scan_line mx 0 s = LineAt i" for i
    using that scan_line_extend [OF that, of t] scan_line_length [OF that]
    by (auto simp: parse_start_line.simps [of mx s] parse_start_line.simps [of mx "s @ t"] numeral_2_eq_2)
  {
    case 1
    show ?case
    proof (cases "scan_line mx 0 s")
      case (LineAt i)
      show ?thesis
        using 1 "1.IH"(1) [OF LineAt] line [OF LineAt] by (auto simp: numeral_2_eq_2 split: if_splits)
    qed (use 1 in \<open>simp_all add: parse_start_line.simps [of mx s] split: if_splits\<close>)
  next
    case 2
    show ?case
    proof (cases "scan_line mx 0 s")
      case (LineAt i)
      show ?thesis
        using 2 "1.IH"(2) [OF LineAt] line [OF LineAt] by (auto simp: numeral_2_eq_2 split: if_splits)
    qed (use 2 in \<open>simp_all add: parse_start_line.simps [of mx s] split: if_splits\<close>)
  }
qed

lemma find_crlf_extend: "find_crlf s = Some k \<Longrightarrow> find_crlf (s @ t) = Some k"
  by (induction s arbitrary: k rule: find_crlf.induct) (auto split: if_splits)

text \<open>The loop without normalization, by the position of the next line end.\<close>

lemma parse_headers_loop_plain:
  "parse_headers_loop cfg False h consumed cnt block s =
     (if pc_max_header_block_bytes cfg < block then Some (Inl HeadersTooLarge)
      else if pc_max_headers cfg < cnt then Some (Inl TooManyHeaders)
      else case find_crlf s of
        None \<Rightarrow> None
      | Some e \<Rightarrow>
          if e = 0
          then Some (case finish_headers cfg h (length s - 2) of
                       Inl err \<Rightarrow> Inl err | Inr (h, n) \<Rightarrow> Inr (h, n, consumed + 2))
          else (case parse_header_line cfg False (take e s) of
                  Inl err \<Rightarrow> Some (Inl err)
                | Inr (name, val) \<Rightarrow>
                    parse_headers_loop cfg False (hdr_append name val h) (consumed + (e + 2))
                      (cnt + 1) (block + (e + 2)) (drop (e + 2) s)))"
proof (cases s rule: find_crlf.cases)
  case (1 a b s1)
  then show ?thesis
    by (subst parse_headers_loop.simps) (auto simp: prefix_CRLF_iff split: option.split)
qed (subst parse_headers_loop.simps, simp)+

lemma finish_headers_stream:
  "\<not> pc_datagram_mode cfg \<Longrightarrow> finish_headers cfg h k = finish_headers cfg h k'"
  by (simp add: finish_headers_def split: option.split)

lemma parse_headers_loop_extend:
  assumes "parse_headers_loop cfg False h consumed cnt block s = Some r" "\<not> pc_datagram_mode cfg"
  shows "parse_headers_loop cfg False h consumed cnt block (s @ t) = Some r"
  using assms
proof (induction "length s" arbitrary: h consumed cnt block s rule: less_induct)
  case less
  show ?case
  proof (cases "pc_max_header_block_bytes cfg < block \<or> pc_max_headers cfg < cnt")
    case True
    with less(2) show ?thesis
      by (auto simp: parse_headers_loop_plain [of cfg h consumed cnt block])
  next
    case False
    with less(2) obtain e where e: "find_crlf s = Some e"
      by (auto simp: parse_headers_loop_plain [of cfg h consumed cnt block s] split: option.splits)
    note len = find_crlf_length [OF e] and ext = find_crlf_extend [OF e, of t]
    note fin = finish_headers_stream [OF less(3), of h "length s - 2" "length (s @ t) - 2"]
    show ?thesis
      using less(1) [of "drop (e + 2) s"] less(2,3) False e ext len fin
      by (auto simp: parse_headers_loop_plain [of cfg h consumed cnt block s]
          parse_headers_loop_plain [of cfg h consumed cnt block "s @ t"]
          split: sum.splits prod.splits if_splits)
  qed
qed

lemma finish_headers_bounds:
  assumes "finish_headers cfg h k = Inr (h', n)"
  shows "n \<le> pc_max_body_bytes cfg" "hdr_len h' \<le> hdr_len h + (if pc_datagram_mode cfg then 1 else 0)"
  using assms
  by (auto simp: finish_headers_def Let_def hdr_len_def split: option.splits sum.splits if_splits)

lemma parse_headers_loop_bounds:
  assumes "parse_headers_loop cfg nrm h consumed cnt block s = Some (Inr (h', n, c))"
  shows "c \<le> consumed + length s \<and> n \<le> pc_max_body_bytes cfg \<and>
    hdr_len h' + cnt \<le> hdr_len h + pc_max_headers cfg + (if pc_datagram_mode cfg then 1 else 0)"
  using assms
proof (induction cfg nrm h consumed cnt block s rule: parse_headers_loop.induct)
  case (1 cfg nrm h consumed cnt block s)
  note prem = "1.prems" [unfolded parse_headers_loop.simps [of cfg nrm h consumed cnt block s]]
  have lim: "\<not> pc_max_header_block_bytes cfg < block" "\<not> pc_max_headers cfg < cnt" "\<not> length s \<le> 1"
    using prem by (auto split: if_splits)
  show ?case
  proof (cases "prefix CRLF s")
    case True
    show ?thesis
    proof (cases "nrm \<and> looks_like_header_after_blank s")
      case False
      with prem lim True finish_headers_bounds [of cfg h "length s - 2" h' n] show ?thesis
        by (auto split: sum.splits)
    qed (use "1.IH"(1) [OF lim True] prem lim True in auto)
  next
    case False
    with prem lim obtain e where e: "find_crlf s = Some e" by (auto split: option.splits)
    with prem lim False obtain nm v where l: "parse_header_line cfg nrm (take e s) = Inr (nm, v)"
      by (auto split: sum.splits)
    from "1.IH"(2) [OF lim False e l refl] prem lim False e l find_crlf_length [OF e] show ?thesis
      by (auto simp: hdr_len_def)
  qed
qed

definition fed :: "string \<Rightarrow> sip_parser \<Rightarrow> sip_parser" where
  "fed t p = p\<lparr>sp_buffer := sp_buffer p @ t\<rparr>"

lemma parser_commute:
  "p\<lparr>sp_state := x, sp_buffer := y\<rparr> = p\<lparr>sp_buffer := y, sp_state := x\<rparr>"
  by (cases p) simp

definition stream_mode :: "sip_parser \<Rightarrow> bool" where
  "stream_mode p \<longleftrightarrow> \<not> pc_datagram_mode (sp_config p) \<and> \<not> sp_normalize p"

lemma fed_simps [simp]:
  "sp_config (fed t p) = sp_config p" "sp_normalize (fed t p) = sp_normalize p"
  "sp_state (fed t p) = sp_state p" "sp_buffer (fed t p) = sp_buffer p @ t"
  "stream_mode (fed t p) = stream_mode p" "fed [] p = p" "fed t (fed s p) = fed (s @ t) p"
  by (simp_all add: fed_def stream_mode_def)

text \<open>
  The shape of a stable result: a message is the same message after more input, and where more
  input is needed, continuing is the same as starting over with all of it.
\<close>

definition pop_stable :: "(sip_parser \<Rightarrow> pop_result) \<Rightarrow> sip_parser \<Rightarrow> string \<Rightarrow> bool" where
  "pop_stable f p t \<longleftrightarrow>
     (case f p of
        (p', Some (Inr m)) \<Rightarrow> f (fed t p) = (fed t p', Some (Inr m))
      | (p', None) \<Rightarrow> f (fed t p) = pop_message (fed t p')
      | (p', Some (Inl e)) \<Rightarrow> True)"

lemma pop_body_stable:
  assumes "sp_state p = P_Body line h n c"
  shows "pop_stable (\<lambda>p. pop_body p line h n) p t"
  using assms
  by (auto simp: pop_stable_def pop_body_def pop_message_def fed_def split: sum.splits)

lemma pop_headers_stable:
  assumes "stream_mode p" "sp_state p = P_Headers line"
  shows "pop_stable (\<lambda>p. pop_headers p line) p t"
proof (cases "parse_headers_loop (sp_config p) False hdr_new 0 0 0 (sp_buffer p)")
  case None
  with assms have "pop_headers p line = (p, None)"
    by (simp add: pop_headers_def parse_headers_def stream_mode_def)
  with assms show ?thesis
    by (simp add: pop_stable_def pop_message_def)
next
  case (Some r)
  have ext: "parse_headers_loop (sp_config p) False hdr_new 0 0 0 (sp_buffer p @ t) = Some r"
    using parse_headers_loop_extend [OF Some] assms(1) by (simp add: stream_mode_def)
  show ?thesis
  proof (cases r)
    case (Inl e)
    with Some assms show ?thesis
      by (simp add: pop_stable_def pop_headers_def parse_headers_def stream_mode_def)
  next
    case (Inr x)
    then obtain h n c where r: "r = Inr (h, n, c)" by (cases x) auto
    have c: "c \<le> length (sp_buffer p)"
      using parse_headers_loop_bounds [OF Some [unfolded r]] by simp
    let ?p = "p\<lparr>sp_buffer := drop c (sp_buffer p), sp_state := P_Body line h n c\<rparr>"
    have 1: "pop_headers p line = pop_body ?p line h n"
      using Some r assms by (simp add: pop_headers_def parse_headers_def stream_mode_def)
    have 2: "pop_headers (fed t p) line = pop_body (fed t ?p) line h n"
      using ext r assms c by (simp add: pop_headers_def parse_headers_def stream_mode_def fed_def parser_commute)
    show ?thesis
      using pop_body_stable [of ?p line h n c t] unfolding pop_stable_def 1 2 by simp
  qed
qed

lemma pop_start_stable:
  assumes "stream_mode p" "sp_state p = P_StartLine"
  shows "pop_stable pop_start p t"
proof -
  let ?mx = "pc_max_start_line_bytes (sp_config p)"
  obtain s r where sr: "parse_start_line ?mx (sp_buffer p) = (s, r)" by fastforce
  consider e where "r = Some (Inl e)" | "r = None" | line where "r = Some (Inr line)"
    by (metis option.exhaust sumE)
  then show ?thesis
  proof cases
    case 1
    with sr show ?thesis by (simp add: pop_stable_def pop_start_def)
  next
    case 2
    with sr parse_start_line_extend(2) [of ?mx "sp_buffer p" s t] assms show ?thesis
      by (simp add: pop_stable_def pop_start_def pop_message_def fed_def)
  next
    case (3 line)
    let ?p = "p\<lparr>sp_buffer := s, sp_state := P_Headers line\<rparr>"
    have eqs: "pop_start p = pop_headers ?p line" "pop_start (fed t p) = pop_headers (fed t ?p) line"
      using sr 3 parse_start_line_extend(1) [of ?mx "sp_buffer p" s line t]
      by (simp_all add: pop_start_def fed_def parser_commute)
    have "pop_stable (\<lambda>p. pop_headers p line) ?p t"
      using assms by (intro pop_headers_stable) (simp_all add: stream_mode_def)
    then show ?thesis unfolding pop_stable_def eqs .
  qed
qed

lemma pop_message_stable: "stream_mode p \<Longrightarrow> pop_stable pop_message p t"
  using pop_start_stable [of p t] pop_headers_stable [of p _ t] pop_body_stable [of p _ _ _ _ t]
  by (cases "sp_state p") (simp_all add: pop_stable_def pop_message_def split: prod.splits option.splits sum.splits)

text \<open>A popped message leaves the parser at a start line with less to read.\<close>

lemma parse_start_line_shorter:
  "parse_start_line mx s = (s', Some (Inr line)) \<Longrightarrow> length s' < length s"
proof (induction mx s rule: parse_start_line.induct)
  case (1 mx s)
  show ?case
  proof (cases "scan_line mx 0 s")
    case (LineAt i)
    with 1 scan_line_length [OF LineAt] show ?thesis
      by (auto simp: parse_start_line.simps [of mx s] split: if_splits)
  qed (use 1 in \<open>simp_all add: parse_start_line.simps [of mx s] split: if_splits\<close>)
qed

definition pop_weight :: "sip_parser \<Rightarrow> nat" where
  "pop_weight p = 2 * length (sp_buffer p) + (if sp_state p = P_StartLine then 0 else 1)"

lemma pop_headers_weight:
  assumes "pop_headers p line = (p', Some (Inr m))"
  shows "length (sp_buffer p') \<le> length (sp_buffer p) \<and> sp_state p' = P_StartLine"
  using assms
  by (auto simp: pop_headers_def parse_headers_def pop_body_def
      split: option.splits sum.splits prod.splits if_splits)

lemma pop_message_weight:
  assumes "pop_message p = (p', Some (Inr m))"
  shows "pop_weight p' < pop_weight p"
proof (cases "sp_state p")
  case P_StartLine
  with assms have "pop_start p = (p', Some (Inr m))" by (simp add: pop_message_def)
  then obtain s line where "parse_start_line (pc_max_start_line_bytes (sp_config p)) (sp_buffer p) = (s, Some (Inr line))"
    "pop_headers (p\<lparr>sp_buffer := s, sp_state := P_Headers line\<rparr>) line = (p', Some (Inr m))"
    by (auto simp: pop_start_def split: prod.splits option.splits sum.splits)
  with parse_start_line_shorter pop_headers_weight P_StartLine show ?thesis
    by (fastforce simp: pop_weight_def)
next
  case (P_Headers line)
  with assms pop_headers_weight [of p line p' m] show ?thesis
    by (simp add: pop_message_def pop_weight_def)
next
  case (P_Body line h n c)
  with assms show ?thesis
    by (auto simp: pop_message_def pop_body_def pop_weight_def split: if_splits)
qed

section \<open>Reading a stream\<close>

text \<open>
  A reader of a stream feeds each chunk to the parser and then pops messages until there is none,
  and stops at the first error, the way the TCP driver uses it.
\<close>

function pop_all :: "sip_parser \<Rightarrow> sip_parser \<times> sip_message list \<times> sip_error_kind option" where
  "pop_all p =
     (case pop_message p of
        (p', None) \<Rightarrow> (p', [], None)
      | (p', Some (Inl e)) \<Rightarrow> (p', [], Some e)
      | (p', Some (Inr m)) \<Rightarrow> (case pop_all p' of (q, ms, r) \<Rightarrow> (q, m # ms, r)))"
  by pat_completeness auto
termination
  by (relation "measure pop_weight") (auto dest: pop_message_weight [OF sym])

declare pop_all.simps [simp del]

fun feed_all :: "sip_parser \<Rightarrow> string list \<Rightarrow> sip_parser \<times> sip_message list \<times> sip_error_kind option" where
  "feed_all p [] = (p, [], None)"
| "feed_all p (chunk # chunks) =
     (case parser_feed p chunk of
        (p', Inl e) \<Rightarrow> (p', [], Some e)
      | (p', Inr _) \<Rightarrow>
          (case pop_all p' of
             (q, ms, Some e) \<Rightarrow> (q, ms, Some e)
           | (q, ms, None) \<Rightarrow> (case feed_all q chunks of (q', ms', r) \<Rightarrow> (q', ms @ ms', r))))"

lemma pop_message_config:
  "pop_message p = (p', r) \<Longrightarrow> sp_config p' = sp_config p \<and> sp_normalize p' = sp_normalize p"
  by (auto simp: pop_message_def pop_start_def pop_headers_def pop_body_def
      split: parser_state.splits prod.splits option.splits sum.splits if_splits)

lemma pop_all_config:
  "pop_all p = (q, ms, r) \<Longrightarrow> sp_config q = sp_config p \<and> sp_normalize q = sp_normalize p"
proof (induction p arbitrary: ms rule: pop_all.induct)
  case (1 p)
  obtain p' x where x: "pop_message p = (p', x)" by fastforce
  note c = pop_message_config [OF x]
  consider "x = None" | e where "x = Some (Inl e)" | m where "x = Some (Inr m)"
    by (metis option.exhaust sumE)
  then show ?case
  proof cases
    case (3 m)
    obtain q' ms' r' where d: "pop_all p' = (q', ms', r')" by (metis prod_cases3)
    with 1(2) x 3 have "q = q'" "r = r'" by (simp_all add: pop_all.simps [of p])
    with 1(1) [of p' "Some (Inr m)" "Inr m" m ms'] x 3 d c show ?thesis by simp
  qed (use 1(2) x c in \<open>simp_all add: pop_all.simps [of p]\<close>)
qed

lemma pop_all_extend:
  assumes "stream_mode p" "pop_all p = (q, ms, None)" "pop_all (fed t q) = (q', ms', r)"
  shows "pop_all (fed t p) = (q', ms @ ms', r)"
  using assms
proof (induction p arbitrary: ms rule: pop_all.induct)
  case (1 p)
  obtain p' x where x: "pop_message p = (p', x)" by fastforce
  note st = pop_message_stable [OF 1(2), of t]
  consider "x = None" | e where "x = Some (Inl e)" | m where "x = Some (Inr m)"
    by (metis option.exhaust sumE)
  then show ?case
  proof cases
    case 1
    with st x have "pop_message (fed t p) = pop_message (fed t p')" by (simp add: pop_stable_def)
    then have "pop_all (fed t p) = pop_all (fed t p')"
      by (simp add: pop_all.simps [of "fed t p"] pop_all.simps [of "fed t p'"])
    with "1.prems" 1 x show ?thesis by (simp add: pop_all.simps [of p])
  next
    case (2 e)
    with "1.prems" x show ?thesis by (simp add: pop_all.simps [of p])
  next
    case (3 m)
    have pop: "pop_message (fed t p) = (fed t p', Some (Inr m))"
      using st x 3 by (simp add: pop_stable_def)
    obtain qa ma ra where d: "pop_all p' = (qa, ma, ra)" by (metis prod_cases3)
    with "1.prems"(2) x 3 have q: "qa = q" "ra = None" "ms = m # ma"
      by (simp_all add: pop_all.simps [of p])
    have "stream_mode p'" using pop_message_config [OF x] "1.prems"(1) by (simp add: stream_mode_def)
    with "1.IH" [OF x [symmetric], of "Inr m" m ma] 3 d q "1.prems"(3)
    have "pop_all (fed t p') = (q', ma @ ms', r)" by simp
    with pop q show ?thesis by (simp add: pop_all.simps [of "fed t p"])
  qed
qed

lemma pop_all_idle:
  assumes "stream_mode p" "pop_all p = (q, ms, None)"
  shows "pop_message q = (q, None)"
  using assms
proof (induction p arbitrary: ms rule: pop_all.induct)
  case (1 p)
  obtain p' x where x: "pop_message p = (p', x)" by fastforce
  consider "x = None" | e where "x = Some (Inl e)" | m where "x = Some (Inr m)"
    by (metis option.exhaust sumE)
  then show ?case
  proof cases
    case 1
    then have "q = p'" using x "1.prems"(2) by (simp add: pop_all.simps [of p])
    moreover have "pop_message p = pop_message p'"
      using pop_message_stable [OF "1.prems"(1), of "[]"] x 1 unfolding pop_stable_def by simp
    ultimately show ?thesis using x 1 by simp
  next
    case (2 e)
    with "1.prems" x show ?thesis by (simp add: pop_all.simps [of p])
  next
    case (3 m)
    obtain qa ma ra where d: "pop_all p' = (qa, ma, ra)" by (metis prod_cases3)
    with "1.prems"(2) x 3 have q: "qa = q" "ra = None" by (simp_all add: pop_all.simps [of p])
    have "stream_mode p'" using pop_message_config [OF x] "1.prems"(1) by (simp add: stream_mode_def)
    with "1.IH" [OF x [symmetric], of "Inr m" m ma] 3 d q show ?thesis by simp
  qed
qed

lemma feed_all_one_shot:
  assumes "stream_mode p" "pop_message p = (p, None)" "feed_all p cs = (q, ms, None)"
  shows "pop_all (fed (concat cs) p) = (q, ms, None)"
  using assms
proof (induction cs arbitrary: p ms)
  case Nil
  then have "pop_all p = (p, [], None)" by (subst pop_all.simps) simp
  with Nil show ?case by simp
next
  case (Cons c cs)
  obtain p1 ms1 r1 where d: "pop_all (fed c p) = (p1, ms1, r1)" by (metis prod_cases3)
  have feed: "parser_feed p c = (fed c p, Inr ())"
    using Cons.prems(3) by (auto simp: parser_feed_def fed_def split: if_splits)
  obtain q2 ms2 r2 where l: "feed_all p1 cs = (q2, ms2, r2)" by (metis prod_cases3)
  from Cons.prems(3) feed d l have r: "r1 = None" "q2 = q" "r2 = None" "ms = ms1 @ ms2"
    by (auto split: option.splits)
  have "stream_mode p1"
    using pop_all_config [OF d] Cons.prems(1) by (simp add: stream_mode_def)
  moreover have "pop_message p1 = (p1, None)"
    using pop_all_idle [of "fed c p"] Cons.prems(1) d r by simp
  ultimately have "pop_all (fed (concat cs) p1) = (q, ms2, None)"
    using Cons.IH l r by simp
  with pop_all_extend [of "fed c p" p1 ms1 "concat cs"] Cons.prems(1) d r show ?case by simp
qed

section \<open>Streams of encoded messages\<close>

lemma scan_line_late:
  "scan_line mx k s = NoLine \<Longrightarrow> scan_line mx k (s @ t) = LineAt i \<Longrightarrow> k + length s \<le> i + 1"
proof (induction mx k s rule: scan_line.induct)
  case (1 mx i' a b s)
  then show ?case by (auto split: if_splits)
next
  case (2 mx k)
  then show ?case using scan_line_length [of mx k t i] by simp
next
  case (3 mx k v)
  then show ?case using scan_line_length [of mx k "[v] @ t" i] by simp
qed

lemma parse_start_line_error_prefix:
  "parse_start_line mx (s @ t) = (x, Some (Inr line)) \<Longrightarrow> length line < mx \<Longrightarrow>
     parse_start_line mx s \<noteq> (s', Some (Inl e))"
proof (induction mx s rule: parse_start_line.induct)
  case (1 mx s)
  show ?case
  proof (cases "scan_line mx 0 s")
    case (LineAt i)
    have len: "i + 2 \<le> length s" using scan_line_length [OF LineAt] by simp
    note ext = scan_line_extend [OF LineAt, of t]
    show ?thesis
      using 1 LineAt len ext
      by (auto simp: parse_start_line.simps [of mx s] parse_start_line.simps [of mx "s @ t"] split: if_splits)
  next
    case ScanTooLong
    with scan_line_extend [OF ScanTooLong, of t] 1(2) show ?thesis
      by (simp add: parse_start_line.simps [of mx "s @ t"])
  next
    case NoLine
    have "length s \<le> mx"
    proof (rule ccontr)
      assume long: "\<not> length s \<le> mx"
      from 1(2) consider i where "scan_line mx 0 (s @ t) = LineAt i"
        by (cases "scan_line mx 0 (s @ t)") (auto simp: parse_start_line.simps [of mx "s @ t"] split: if_splits)
      then obtain i where i: "scan_line mx 0 (s @ t) = LineAt i" by blast
      have "mx \<le> i" using scan_line_late [OF NoLine i] long by simp
      moreover have "i + 2 \<le> length (s @ t)" using scan_line_length [OF i] by simp
      ultimately show False
        using 1(2,3) i by (auto simp: parse_start_line.simps [of mx "s @ t"] split: if_splits)
    qed
    with NoLine show ?thesis by (simp add: parse_start_line.simps [of mx s])
  qed
qed

text \<open>No error on a strict prefix of an encoded message, and nothing popped either.\<close>

definition message_fits_strictly :: "sip_parser_config \<Rightarrow> sip_message \<Rightarrow> bool" where
  "message_fits_strictly cfg m \<longleftrightarrow>
     message_fits cfg m \<and> length (start_line_text m) < pc_max_start_line_bytes cfg"

lemma pop_headers_error_extend:
  assumes "stream_mode p" "pop_headers p line = (p', Some (Inl e))"
  shows "\<exists>q. pop_headers (fed t p) line = (q, Some (Inl e))"
proof -
  have "parse_headers_loop (sp_config p) False hdr_new 0 0 0 (sp_buffer p) \<noteq> None"
    using assms by (auto simp: pop_headers_def parse_headers_def stream_mode_def split: option.splits)
  then obtain r where r: "parse_headers_loop (sp_config p) False hdr_new 0 0 0 (sp_buffer p) = Some r"
    by blast
  have ext: "parse_headers_loop (sp_config p) False hdr_new 0 0 0 (sp_buffer p @ t) = Some r"
    using parse_headers_loop_extend [OF r] assms(1) by (simp add: stream_mode_def)
  show ?thesis
  proof (cases r)
    case (Inl e')
    with r ext assms show ?thesis
      by (simp add: pop_headers_def parse_headers_def stream_mode_def)
  next
    case (Inr x)
    then obtain h n c where x: "r = Inr (h, n, c)" by (cases x) auto
    have "c \<le> length (sp_buffer p)"
      using parse_headers_loop_bounds [OF r [unfolded x]] by simp
    with x r ext assms show ?thesis
      by (auto simp: pop_headers_def parse_headers_def stream_mode_def pop_body_def split: if_splits)
  qed
qed

lemma pop_prefix:
  assumes "stream_mode p" "message_fits_strictly (sp_config p) m" "sp_state p = P_StartLine"
    "sp_buffer p @ t = encode_message m" "t \<noteq> []"
  shows "\<exists>p'. pop_message p = (p', None)"
proof -
  let ?mx = "pc_max_start_line_bytes (sp_config p)"
  have full: "pop_message (fed t p) = (p\<lparr>sp_buffer := []\<rparr>, Some (Inr (canonical m)))"
    using pop_encoded [of "fed t p" m "[]"] assms
    by (simp add: message_fits_strictly_def stream_mode_def fed_def)
  have fits: "wf_start_line m" "length (start_line_text m) < ?mx"
    using assms(2) by (auto simp: message_fits_strictly_def message_fits_def)
  have line: "\<exists>x. parse_start_line ?mx (sp_buffer p @ t) = (x, Some (Inr (start_line_text m)))"
    using parse_start_line_append [OF start_line_chars(1,2) [OF fits(1)] _ start_line_chars(3) [OF fits(1)]]
      fits(2) by (simp add: assms(4) encode_message_parts)
  obtain p' r where pr: "pop_message p = (p', r)" by fastforce
  consider "r = None" | e where "r = Some (Inl e)" | m' where "r = Some (Inr m')"
    by (metis option.exhaust sumE)
  then show ?thesis
  proof cases
    case (2 e)
    obtain s r' where s: "parse_start_line ?mx (sp_buffer p) = (s, r')" by fastforce
    have "r' \<noteq> Some (Inl e')" for e'
      using parse_start_line_error_prefix [of ?mx "sp_buffer p" t _ "start_line_text m" s e'] line fits(2) s
      by auto
    then obtain l where l: "r' = Some (Inr l)"
      using pr 2 s assms(3) by (cases r') (auto simp: pop_message_def pop_start_def split: sum.splits)
    let ?p = "p\<lparr>sp_buffer := s, sp_state := P_Headers l\<rparr>"
    have "pop_headers ?p l = (p', Some (Inl e))"
      using pr 2 s l assms(3) by (simp add: pop_message_def pop_start_def)
    then obtain q where "pop_headers (fed t ?p) l = (q, Some (Inl e))"
      using pop_headers_error_extend [of ?p l p' e t] assms(1) by (auto simp: stream_mode_def)
    moreover have "pop_message (fed t p) = pop_headers (fed t ?p) l"
      using parse_start_line_extend(1) [of ?mx "sp_buffer p" s l t] s l assms(3)
      by (simp add: pop_message_def pop_start_def) (simp add: fed_def parser_commute)
    ultimately show ?thesis using full by simp
  next
    case (3 m')
    with pop_message_stable [OF assms(1), of t] pr have "pop_message (fed t p) = (fed t p', Some (Inr m'))"
      by (simp add: pop_stable_def)
    with full have "fed t p' = p\<lparr>sp_buffer := []\<rparr>" by simp
    then have "sp_buffer (fed t p') = []" by simp
    with assms(5) show ?thesis by simp
  qed (use pr in simp)
qed

lemma pop_empty: "sp_state p = P_StartLine \<Longrightarrow> sp_buffer p = [] \<Longrightarrow> pop_message p = (p, None)"
  by (simp add: pop_message_def pop_start_def parse_start_line.simps)

lemma parse_start_line_le: "parse_start_line mx s = (s', r) \<Longrightarrow> length s' \<le> length s"
proof (induction mx s rule: parse_start_line.induct)
  case (1 mx s)
  then show ?case
    by (cases "scan_line mx 0 s") (auto simp: parse_start_line.simps [of mx s] split: if_splits)
qed

lemma pop_headers_le: "length (sp_buffer (fst (pop_headers p line))) \<le> length (sp_buffer p)"
  by (auto simp: pop_headers_def parse_headers_def pop_body_def split: option.split sum.split)

lemma pop_message_le:
  assumes "pop_message p = (p', r)"
  shows "length (sp_buffer p') \<le> length (sp_buffer p)"
proof (cases "sp_state p")
  case P_StartLine
  obtain s x where s: "parse_start_line (pc_max_start_line_bytes (sp_config p)) (sp_buffer p) = (s, x)"
    by fastforce
  note le = parse_start_line_le [OF s]
  have "pop_start p = (p', r)" using assms P_StartLine by (simp add: pop_message_def)
  then show ?thesis
    using s le pop_headers_le [of "p\<lparr>sp_buffer := s, sp_state := P_Headers _\<rparr>"]
    by (auto simp: pop_start_def split: option.splits sum.splits) (metis fst_conv order_trans)
next
  case (P_Headers line)
  with assms pop_headers_le [of p line] show ?thesis by (simp add: pop_message_def)
next
  case (P_Body line h n c)
  with assms show ?thesis by (auto simp: pop_message_def pop_body_def split: if_splits)
qed

text \<open>A position in a stream of encoded messages: \<open>p\<close> is at the start of the first of \<open>ms\<close>.\<close>

definition at_message :: "sip_parser \<Rightarrow> sip_message list \<Rightarrow> string \<Rightarrow> bool" where
  "at_message p ms t \<longleftrightarrow>
     stream_mode p \<and> sp_state p = P_StartLine
     \<and> sp_buffer p @ t = concat (map encode_message ms)
     \<and> (\<forall>m \<in> set ms. message_fits_strictly (sp_config p) m)"

lemma pop_all_step: "pop_message p = (q, Some (Inr m)) \<Longrightarrow> pop_all q = (p', ms, e) \<Longrightarrow>
    pop_all p = (p', m # ms, e)"
  and pop_all_stop: "pop_message p = (q, None) \<Longrightarrow> pop_all p = (q, [], None)"
  by (simp_all add: pop_all.simps [of p])

lemma append_overlap:
  assumes "a @ t = x @ y"
  obtains b where "a = x @ b" "b @ t = y" | u where "x = a @ u" "u \<noteq> []"
proof -
  from assms consider us where "a = x @ us" "us @ t = y" | us where "x = a @ us" "t = us @ y"
    by (auto simp: append_eq_append_conv2)
  then show ?thesis
  proof cases
    case (2 us)
    with that show ?thesis by (cases us) auto
  qed (rule that(1))
qed

lemma pop_all_encoded:
  assumes "at_message p ms t"
  shows "\<exists>k p1 p'. pop_all p = (p', map canonical (take k ms), None) \<and>
     sp_config p1 = sp_config p \<and> at_message p1 (drop k ms) t \<and> pop_message p1 = (p', None)"
  using assms
proof (induction ms arbitrary: p)
  case Nil
  then have "pop_message p = (p, None)" by (intro pop_empty) (auto simp: at_message_def)
  with Nil show ?case by (intro exI [of _ 0] exI [of _ p]) (simp add: pop_all_stop)
next
  case (Cons m ms)
  have "sp_buffer p @ t = encode_message m @ concat (map encode_message ms)"
    using Cons.prems by (simp add: at_message_def)
  then consider b where "sp_buffer p = encode_message m @ b" "b @ t = concat (map encode_message ms)"
    | u where "encode_message m = sp_buffer p @ u" "u \<noteq> []"
    by (rule append_overlap)
  then show ?case
  proof cases
    case (1 b)
    let ?p = "p\<lparr>sp_buffer := b\<rparr>"
    have pop: "pop_message p = (?p, Some (Inr (canonical m)))"
      using Cons.prems 1 by (intro pop_encoded)
        (auto simp: at_message_def message_fits_strictly_def stream_mode_def)
    have "at_message ?p ms t" using Cons.prems 1 by (simp add: at_message_def stream_mode_def)
    from Cons.IH [OF this] obtain k p1 p' where IH: "pop_all ?p = (p', map canonical (take k ms), None)"
      "sp_config p1 = sp_config p" "at_message p1 (drop k ms) t" "pop_message p1 = (p', None)" by auto
    have "pop_all p = (p', map canonical (take (Suc k) (m # ms)), None)"
      using pop_all_step [OF pop IH(1)] by simp
    moreover have "at_message p1 (drop (Suc k) (m # ms)) t" using IH(3) by simp
    ultimately show ?thesis using IH(2,4) by blast
  next
    case (2 u)
    then obtain p' where pop: "pop_message p = (p', None)"
      using pop_prefix [of p m u] Cons.prems by (auto simp: at_message_def)
    have "pop_all p = (p', map canonical (take 0 (m # ms)), None)"
      using pop_all_stop [OF pop] by simp
    moreover have "at_message p (drop 0 (m # ms)) t" using Cons.prems by simp
    ultimately show ?thesis using pop by blast
  qed
qed

text \<open>The end of the stream, and one more chunk of it.\<close>

lemma encoded_end:
  assumes "at_message p1 ms []" "pop_message p1 = (p, None)"
  shows "ms = []" "p = p1" "sp_buffer p = []"
proof -
  show "ms = []"
  proof (rule ccontr)
    assume "ms \<noteq> []"
    then obtain m ms' where ms: "ms = m # ms'" by (cases ms) auto
    with assms have "pop_message p1 = (p1\<lparr>sp_buffer := concat (map encode_message ms')\<rparr>, Some (Inr (canonical m)))"
      by (intro pop_encoded) (auto simp: at_message_def message_fits_strictly_def stream_mode_def)
    with assms(2) show False by simp
  qed
  with assms pop_empty [of p1] show "p = p1" "sp_buffer p = []" by (auto simp: at_message_def)
qed

lemma encoded_chunk:
  assumes "at_message p1 ms (c @ t)" "pop_message p1 = (p, None)"
    "length (concat (map encode_message ms)) \<le> pc_max_buffer_bytes (sp_config p1)"
  obtains k p' p2 where "parser_feed p c = (fed c p, Inr ())"
    "pop_all (fed c p) = (p', map canonical (take k ms), None)" "at_message p2 (drop k ms) t"
    "pop_message p2 = (p', None)"
    "length (concat (map encode_message (drop k ms))) \<le> pc_max_buffer_bytes (sp_config p2)"
proof -
  have c: "sp_config p = sp_config p1" "stream_mode p1"
    using pop_message_config [OF assms(2)] assms(1) by (auto simp: at_message_def)
  have "length (sp_buffer p1) + length c \<le> length (concat (map encode_message ms))"
    using assms(1) by (auto simp: at_message_def dest!: arg_cong [of _ _ length])
  then have feed: "parser_feed p c = (fed c p, Inr ())"
    using pop_message_le [OF assms(2)] assms(3) c(1) by (simp add: parser_feed_def fed_def)
  have "pop_message (fed c p1) = pop_message (fed c p)"
    using pop_message_stable [OF c(2), of c] assms(2) by (simp add: pop_stable_def)
  then have same: "pop_all (fed c p) = pop_all (fed c p1)"
    by (simp add: pop_all.simps [of "fed c p"] pop_all.simps [of "fed c p1"])
  have "at_message (fed c p1) ms t"
    using assms(1) by (simp add: at_message_def)
  from pop_all_encoded [OF this] obtain k p2 p' where d:
    "pop_all (fed c p1) = (p', map canonical (take k ms), None)" "sp_config p2 = sp_config p1"
    "at_message p2 (drop k ms) t" "pop_message p2 = (p', None)" by auto
  have "concat (map encode_message ms)
      = concat (map encode_message (take k ms)) @ concat (map encode_message (drop k ms))"
    by (metis append_take_drop_id concat_append map_append)
  with assms(3) d(2) have "length (concat (map encode_message (drop k ms))) \<le> pc_max_buffer_bytes (sp_config p2)"
    by simp
  with that feed same d show ?thesis by simp
qed

lemma feed_all_encoded:
  assumes "at_message p1 ms (concat cs)" "pop_message p1 = (p, None)"
    "length (concat (map encode_message ms)) \<le> pc_max_buffer_bytes (sp_config p1)"
  shows "\<exists>q. feed_all p cs = (q, map canonical ms, None) \<and> sp_buffer q = []"
  using assms
proof (induction cs arbitrary: p p1 ms)
  case Nil
  then show ?case using encoded_end by fastforce
next
  case (Cons c cs)
  from Cons.prems(1) have "at_message p1 ms (c @ concat cs)" by simp
  from encoded_chunk [OF this Cons.prems(2,3)] obtain k p' p2 where d:
    "parser_feed p c = (fed c p, Inr ())" "pop_all (fed c p) = (p', map canonical (take k ms), None)"
    "at_message p2 (drop k ms) (concat cs)" "pop_message p2 = (p', None)"
    "length (concat (map encode_message (drop k ms))) \<le> pc_max_buffer_bytes (sp_config p2)" .
  from Cons.IH [OF d(3-5)] obtain q where "feed_all p' cs = (q, map canonical (drop k ms), None)"
    "sp_buffer q = []" by blast
  with d(1,2) show ?case
    by (auto simp: map_append [symmetric] simp del: map_append)
qed

section \<open>Limits\<close>

text \<open>The parsers that feeding and popping reach.\<close>

inductive parser_reach :: "sip_parser_config \<Rightarrow> bool \<Rightarrow> sip_parser \<Rightarrow> bool" for cfg nrm where
  new: "parser_reach cfg nrm (parser_new cfg nrm)"
| feed: "parser_reach cfg nrm p \<Longrightarrow> parser_reach cfg nrm (fst (parser_feed p data))"
| pop: "parser_reach cfg nrm p \<Longrightarrow> parser_reach cfg nrm (fst (pop_message p))"

definition wf_parser :: "sip_parser \<Rightarrow> bool" where
  "wf_parser p \<longleftrightarrow>
     length (sp_buffer p) \<le> pc_max_buffer_bytes (sp_config p)
     \<and> (case sp_state p of
          P_Body line h n c \<Rightarrow>
            n \<le> pc_max_body_bytes (sp_config p)
            \<and> hdr_len h \<le> pc_max_headers (sp_config p) + (if pc_datagram_mode (sp_config p) then 1 else 0)
        | _ \<Rightarrow> True)"

definition message_within :: "sip_parser_config \<Rightarrow> sip_message \<Rightarrow> bool" where
  "message_within cfg m \<longleftrightarrow>
     length (msg_body m) \<le> pc_max_body_bytes cfg
     \<and> hdr_len (msg_headers m) \<le> pc_max_headers cfg + (if pc_datagram_mode cfg then 1 else 0)"

definition pop_within :: "sip_parser_config \<Rightarrow> pop_result \<Rightarrow> bool" where
  "pop_within cfg r \<longleftrightarrow>
     (case r of (p', x) \<Rightarrow>
        sp_config p' = cfg \<and> wf_parser p' \<and> (\<forall>m. x = Some (Inr m) \<longrightarrow> message_within cfg m))"

lemma build_message_fields:
  "build_message line h b n nrm = Inr m \<Longrightarrow> msg_body m = b \<and> msg_headers m = h"
  by (auto simp: build_message_def Let_def split: if_splits option.splits prod.splits sum.splits)

lemma pop_body_within:
  assumes "wf_parser p" "sp_state p = P_Body line h n c"
  shows "pop_within (sp_config p) (pop_body p line h n)"
  using assms
  by (auto simp: pop_within_def pop_body_def wf_parser_def message_within_def dest!: build_message_fields)

lemma pop_headers_within:
  assumes "wf_parser p" "sp_state p = P_Headers line"
  shows "pop_within (sp_config p) (pop_headers p line)"
proof (cases "parse_headers_loop (sp_config p) (sp_normalize p) hdr_new 0 0 0 (sp_buffer p)")
  case None
  with assms show ?thesis by (simp add: pop_headers_def parse_headers_def pop_within_def wf_parser_def)
next
  case (Some r)
  show ?thesis
  proof (cases r)
    case (Inl e)
    with Some show ?thesis by (simp add: pop_headers_def parse_headers_def pop_within_def wf_parser_def)
  next
    case (Inr x)
    then obtain h n c where x: "r = Inr (h, n, c)" by (cases x) auto
    let ?p = "p\<lparr>sp_buffer := drop c (sp_buffer p), sp_state := P_Body line h n c\<rparr>"
    have "wf_parser ?p"
      using parse_headers_loop_bounds [OF Some [unfolded x]] assms(1)
      by (auto simp: wf_parser_def hdr_len_def)
    with pop_body_within [of ?p line h n c] Some x show ?thesis
      by (simp add: pop_headers_def parse_headers_def)
  qed
qed

lemma pop_message_within:
  assumes "wf_parser p"
  shows "pop_within (sp_config p) (pop_message p)"
proof (cases "sp_state p")
  case P_StartLine
  obtain s r where s: "parse_start_line (pc_max_start_line_bytes (sp_config p)) (sp_buffer p) = (s, r)"
    by fastforce
  have len: "length s \<le> pc_max_buffer_bytes (sp_config p)"
    using parse_start_line_le [OF s] assms by (simp add: wf_parser_def)
  consider "r = None" | e where "r = Some (Inl e)" | line where "r = Some (Inr line)"
    by (metis option.exhaust sumE)
  then show ?thesis
  proof cases
    case (3 line)
    let ?p = "p\<lparr>sp_buffer := s, sp_state := P_Headers line\<rparr>"
    have "wf_parser ?p" using len by (simp add: wf_parser_def)
    with pop_headers_within [of ?p line] P_StartLine s 3 show ?thesis
      by (simp add: pop_message_def pop_start_def)
  qed (use P_StartLine s len in \<open>simp_all add: pop_message_def pop_start_def pop_within_def wf_parser_def\<close>)
next
  case (P_Headers line)
  with assms pop_headers_within show ?thesis by (simp add: pop_message_def)
next
  case (P_Body line h n c)
  with assms pop_body_within show ?thesis by (simp add: pop_message_def)
qed

lemma parser_reach_wf: "parser_reach cfg nrm p \<Longrightarrow> wf_parser p \<and> sp_config p = cfg"
proof (induction rule: parser_reach.induct)
  case new
  then show ?case by (simp add: wf_parser_def parser_new_def)
next
  case (feed p data)
  then show ?case by (auto simp: parser_feed_def wf_parser_def split: parser_state.splits)
next
  case (pop p)
  with pop_message_within [of p] show ?case by (simp add: pop_within_def split: prod.splits)
qed

section \<open>Properties\<close>

lemma message_fits_datagram [simp]: "message_fits (cfg\<lparr>pc_datagram_mode := d\<rparr>) m = message_fits cfg m"
  by (simp add: message_fits_def wf_header_line_def)

lemma canonical_lines_idem: "canonical_lines n (canonical_lines n ls) = canonical_lines n ls"
proof -
  have "list_ex (\<lambda>l. fst l = ContentLength) (canonical_lines n ls)"
    by (induction ls) (auto simp: canonical_lines_def content_length_eq)
  moreover have "map (\<lambda>l. if fst l = ContentLength then (ContentLength, nat_to_dec n) else l) (canonical_lines n ls)
      = canonical_lines n ls"
    by (simp add: canonical_lines_def content_length_eq)
  ultimately show ?thesis
    by (subst canonical_lines_def) (simp add: content_length_eq)
qed

lemma encode_canonical: "encode_message (canonical m) = encode_message m"
proof -
  have "start_line_text (canonical m) = start_line_text m" "msg_body (canonical m) = msg_body m"
    by (cases m; simp)+
  moreover have "message_lines (canonical m) = message_lines m"
    by (cases m) (simp_all add: message_lines_def hdr_of_lines_props canonical_lines_idem)
  ultimately show ?thesis by (simp add: encode_message_parts)
qed

text \<open>A message with a body, for the examples.\<close>

definition sample_wire_uri :: sip_uri where
  "sample_wire_uri = \<lparr>uri_scheme = Sip, uri_user = Some ''3402'', uri_password = None,
     uri_host = ''example.com'', uri_port = None, uri_parameters = [(''lr'', None)]\<rparr>"

definition sample_message :: sip_message where
  "sample_message =
     Request (request_line_new Message sample_wire_uri)
       (hdr_of_lines [(CallId, ''c1''), (CSeq, ''1 MESSAGE''), (OtherHeader ''X-Ver'', ''2'')]) ''abc''"

lemma sample_wire_uri_wf:
  "wf_uri sample_wire_uri" "uri_encode sample_wire_uri = ''sip:3402@example.com;lr''"
proof -
  show e: "uri_encode sample_wire_uri = ''sip:3402@example.com;lr''" by code_simp
  have "wf_host ''example.com''" by code_simp
  then show "wf_uri sample_wire_uri"
    unfolding wf_uri_def e by (simp add: sample_wire_uri_def wf_user_def wf_parameter_def)
qed

lemma sample_message_lengths:
  "length (start_line_text sample_message) = 39" "length (message_lines sample_message) = 4"
  "length (header_block (message_lines sample_message)) = 59" "length (msg_body sample_message) = 3"
  "length (encode_message sample_message) = 105"
  by code_simp+

lemma sample_message_fits: "message_fits_strictly default_parser_config sample_message"
proof -
  have "utf8_valid ''sip:3402@example.com;lr''" by code_simp
  with sample_wire_uri_wf have "wf_start_line sample_message"
    by (simp add: sample_message_def request_line_new_def)
  moreover have "\<forall>l \<in> set (message_lines sample_message). wf_header_name (fst l) \<and> wf_header_value (snd l)"
    by code_simp
  moreover have e: "map (\<lambda>l. length (plain_header_line l)) (message_lines sample_message) = [11, 15, 8, 17]"
    by code_simp
  have "\<forall>n \<in> set (map (\<lambda>l. length (plain_header_line l)) (message_lines sample_message)). n \<le> 17"
    unfolding e by simp
  then have "\<forall>l \<in> set (message_lines sample_message). length (plain_header_line l) \<le> 17" by simp
  ultimately show ?thesis
    by (auto simp: message_fits_strictly_def message_fits_def default_parser_config_def wf_header_line_def
        u64_max_def sample_message_lengths)
qed

text \<open>
  C26. Encoding and parsing a datagram. For every message whose start line and headers can be printed
  and that is within the limits of the parser, \<open>parse_datagram\<close> of the encoded bytes succeeds. It
  gives the same start line, the same body and the same header lines in the same order, except that
  every \<open>Content-Length\<close> is the length of the body and one is added if there was none. Encoding the
  result again gives the same bytes.
\<close>

theorem datagram_roundtrip:
  assumes "message_fits cfg m" "length (encode_message m) \<le> pc_max_buffer_bytes cfg"
  shows "parse_datagram (encode_message m) cfg False = Inr (canonical m)
    \<and> encode_message (canonical m) = encode_message m"
proof -
  let ?p = "(parser_new (cfg\<lparr>pc_datagram_mode := True\<rparr>) False)\<lparr>sp_buffer := encode_message m\<rparr>"
  have "pop_message ?p = (?p\<lparr>sp_buffer := []\<rparr>, Some (Inr (canonical m)))"
    using assms(1) by (intro pop_encoded) (simp_all add: parser_new_def)
  then show ?thesis
    using assms(2) by (simp add: parse_datagram_def parser_feed_def parser_new_def encode_canonical split: unit.split)
qed

theorem datagram_roundtrip_witness:
  "parse_datagram (encode_message sample_message) default_parser_config False = Inr (canonical sample_message)"
  using datagram_roundtrip [of default_parser_config sample_message] sample_message_fits sample_message_lengths(5)
  by (simp add: message_fits_strictly_def default_parser_config_def)

lemma stream_start: "\<not> pc_datagram_mode cfg \<Longrightarrow> stream_mode (parser_new cfg False)"
  "pop_message (parser_new cfg nrm) = (parser_new cfg nrm, None)"
  by (simp_all add: stream_mode_def pop_empty parser_new_def)


text \<open>
  C8. Framing of a stream. Take any list of messages within the limits of the parser, with start
  lines strictly below the limit, encode them one after the other and cut the bytes into chunks
  anywhere. The reader gets exactly these messages in this order, without an error, and leaves
  no byte in the buffer.
\<close>

theorem stream_framing:
  assumes "\<not> pc_datagram_mode cfg" "\<forall>m \<in> set ms. message_fits_strictly cfg m"
    "concat cs = concat (map encode_message ms)" "length (concat cs) \<le> pc_max_buffer_bytes cfg"
  shows "\<exists>q. feed_all (parser_new cfg False) cs = (q, map canonical ms, None) \<and> sp_buffer q = []"
  using assms stream_start(1) [of cfg] stream_start(2) [of cfg False]
  by (intro feed_all_encoded [of "parser_new cfg False"]) (auto simp: at_message_def parser_new_def)

theorem stream_framing_witness:
  "\<exists>q. feed_all (parser_new default_parser_config False)
        (map (\<lambda>c. [c]) (encode_message sample_message) @ [encode_message sample_message])
      = (q, [canonical sample_message, canonical sample_message], None) \<and> sp_buffer q = []"
proof -
  let ?c = "map (\<lambda>c. [c]) (encode_message sample_message) @ [encode_message sample_message]"
  have c: "concat ?c = concat (map encode_message [sample_message, sample_message])"
    by (simp del: encode_message.simps)
  have "length (concat ?c) \<le> pc_max_buffer_bytes default_parser_config"
    unfolding c using sample_message_lengths(5) by (simp add: default_parser_config_def)
  from stream_framing [OF _ _ c this] sample_message_fits show ?thesis
    by (simp add: default_parser_config_def)
qed




text \<open>
  The limit on the start line depends on the chunks. A start line of exactly the maximal length
  is accepted when its CR LF is in the buffer, but rejected as too long when the bytes so far end
  between the CR and the LF: the check for an incomplete line counts the CR.
\<close>

theorem start_line_limit_depends_on_chunks:
  assumes "length line = mx" "line \<noteq> []" "CR \<notin> set line" "utf8_valid line"
  shows "parse_start_line mx (line @ CRLF @ s) = (s, Some (Inr line))
    \<and> parse_start_line mx (line @ [CR]) = (line @ [CR], Some (Inl StartLineTooLong))"
proof -
  have "scan_line mx i (line @ [CR]) = NoLine" if "i + length line \<le> mx" for i
    using that assms(3)
  proof (induction line arbitrary: i)
    case (Cons a line)
    then show ?case by (cases line) auto
  qed simp
  with assms parse_start_line_append [of line mx s] show ?thesis
    by (simp add: parse_start_line.simps [of mx "line @ [CR]"])
qed

theorem start_line_limit_depends_on_chunks_witness:
  "parse_start_line 3 (''ABC'' @ CRLF) = ([], Some (Inr ''ABC''))
    \<and> parse_start_line 3 (''ABC'' @ [CR]) = (''ABC'' @ [CR], Some (Inl StartLineTooLong))"
proof -
  have "utf8_valid ''ABC''" by code_simp
  then show ?thesis using start_line_limit_depends_on_chunks [of "''ABC''" 3 "[]"] by simp
qed

end
