(* ===== verification/Timers.thy ===== *)
theory Timers
  imports Prelude
begin

text \<open>
  RFC 3261 transaction timers: \<open>sip/transaction/timers.rs\<close> of \<open>cheetah-gb28181-core\<close>.
  Durations are nanoseconds. The lemmas give the retransmission schedule: it starts at T1,
  doubles, and stays at the largest multiple of T1 that T2 allows.
\<close>

datatype transport_kind = Unreliable | Reliable

definition is_reliable :: "transport_kind \<Rightarrow> bool" where
  "is_reliable t \<longleftrightarrow> t = Reliable"

datatype timer_kind =
    TimerA | TimerB | TimerF | TimerD | TimerE | TimerG | TimerH | TimerI | TimerJ | TimerK

text \<open>\<open>kind as u8\<close>: the position in the declaration.\<close>

fun timer_ord :: "timer_kind \<Rightarrow> nat" where
  "timer_ord TimerA = 0"
| "timer_ord TimerB = 1"
| "timer_ord TimerF = 2"
| "timer_ord TimerD = 3"
| "timer_ord TimerE = 4"
| "timer_ord TimerG = 5"
| "timer_ord TimerH = 6"
| "timer_ord TimerI = 7"
| "timer_ord TimerJ = 8"
| "timer_ord TimerK = 9"

definition millis :: "nat \<Rightarrow> duration" where
  "millis n = n * 1000000"

definition secs :: "nat \<Rightarrow> duration" where
  "secs n = n * 1000000000"

record transaction_config =
  t1 :: duration
  t2 :: duration
  t4 :: duration
  transport :: transport_kind

definition default_config :: transaction_config where
  "default_config = \<lparr>t1 = millis 500, t2 = millis 4000, t4 = millis 5000, transport = Unreliable\<rparr>"

definition for_transport :: "transport_kind \<Rightarrow> transaction_config" where
  "for_transport tr = default_config\<lparr>transport := tr\<rparr>"

definition retry_cap_factor :: nat where
  "retry_cap_factor = 64"

text \<open>\<open>as_millis\<close> clamped to \<open>u64\<close>, and multiplication clamped to \<open>u64\<close> nanoseconds. The product
  of two values below \<open>2^128\<close> saturates at \<open>u128::MAX\<close> before the clamp to \<open>u64::MAX\<close>, so the
  clamp alone gives the same result.\<close>

definition millis_u64 :: "duration \<Rightarrow> nat" where
  "millis_u64 d = min (d div 1000000) u64_max"

definition scale_duration :: "duration \<Rightarrow> nat \<Rightarrow> duration" where
  "scale_duration d multiplier = min (d * multiplier) u64_max"

text \<open>\<open>2u64.saturating_pow(n)\<close>.\<close>

definition saturating_pow2 :: "nat \<Rightarrow> nat" where
  "saturating_pow2 n = (if n < 64 then 2 ^ n else u64_max)"

definition timer_a :: "transaction_config \<Rightarrow> nat \<Rightarrow> duration" where
  "timer_a c n =
     (if is_reliable (transport c) then 0
      else let factor = saturating_pow2 n;
               t1_ms = millis_u64 (t1 c);
               t2_ms = millis_u64 (t2 c);
               cap = t2_ms div max t1_ms 1;
               capped = max (min factor cap) 1
           in scale_duration (t1 c) capped)"

definition timer_b :: "transaction_config \<Rightarrow> duration" where
  "timer_b c = t1 c * retry_cap_factor"

definition timer_c :: "transaction_config \<Rightarrow> duration" where
  "timer_c c = secs 180"

definition timer_d :: "transaction_config \<Rightarrow> duration" where
  "timer_d c = (if is_reliable (transport c) then 0 else secs 32)"

definition timer_e :: "transaction_config \<Rightarrow> nat \<Rightarrow> duration" where
  "timer_e c n =
     (if is_reliable (transport c) then 0
      else let factor = saturating_pow2 n;
               t1_ms = millis_u64 (t1 c);
               t2_ms = millis_u64 (t2 c);
               cap = t2_ms div max t1_ms 1;
               capped = max (min factor cap) 1
           in scale_duration (t1 c) capped)"

definition timer_f :: "transaction_config \<Rightarrow> duration" where
  "timer_f c = t1 c * retry_cap_factor"

definition timer_g :: "transaction_config \<Rightarrow> nat \<Rightarrow> duration" where
  "timer_g c n = (if is_reliable (transport c) then 0 else timer_e c n)"

definition timer_h :: "transaction_config \<Rightarrow> duration" where
  "timer_h c = t1 c * retry_cap_factor"

definition timer_i :: "transaction_config \<Rightarrow> duration" where
  "timer_i c = (if is_reliable (transport c) then 0 else t4 c)"

definition timer_j :: "transaction_config \<Rightarrow> duration" where
  "timer_j c = (if is_reliable (transport c) then 0 else timer_b c)"

definition timer_k :: "transaction_config \<Rightarrow> duration" where
  "timer_k c = (if is_reliable (transport c) then 0 else t4 c)"

section \<open>The set of armed timers\<close>

definition ts_set :: "timer_kind \<Rightarrow> timer_kind list \<Rightarrow> timer_kind list" where
  "ts_set k ks = (if k \<in> set ks then ks else ks @ [k])"

definition ts_cancel :: "timer_kind \<Rightarrow> timer_kind list \<Rightarrow> timer_kind list" where
  "ts_cancel k ks = filter (\<lambda>k'. k' \<noteq> k) ks"

definition ts_contains :: "timer_kind \<Rightarrow> timer_kind list \<Rightarrow> bool" where
  "ts_contains k ks \<longleftrightarrow> k \<in> set ks"

definition ts_take_all :: "timer_kind list \<Rightarrow> timer_kind list \<times> timer_kind list" where
  "ts_take_all ks = ([], ks)"

section \<open>The retransmission schedule\<close>

lemma timer_e_eq_a: "timer_e c n = timer_a c n"
  by (simp add: timer_e_def timer_a_def)

lemma saturating_pow2_mono: "m \<le> n \<Longrightarrow> saturating_pow2 m \<le> saturating_pow2 n"
proof -
  assume "m \<le> n"
  have "(2::nat) ^ m \<le> u64_max" if "m < 64"
  proof -
    have "(2::nat) ^ m \<le> 2 ^ 63" using that by (intro power_increasing) auto
    then show ?thesis by (simp add: u64_max_def)
  qed
  with \<open>m \<le> n\<close> show ?thesis
    by (auto simp: saturating_pow2_def intro: power_increasing)
qed

text \<open>The factor by which T1 is multiplied.\<close>

definition backoff_factor :: "transaction_config \<Rightarrow> nat \<Rightarrow> nat" where
  "backoff_factor c n =
     max (min (saturating_pow2 n) (millis_u64 (t2 c) div max (millis_u64 (t1 c)) 1)) 1"

lemma timer_a_factor:
  "timer_a c n =
     (if is_reliable (transport c) then 0 else scale_duration (t1 c) (backoff_factor c n))"
  by (simp add: timer_a_def backoff_factor_def Let_def)

lemma backoff_factor_mono: "m \<le> n \<Longrightarrow> backoff_factor c m \<le> backoff_factor c n"
  unfolding backoff_factor_def
  by (intro max.mono min.mono order_refl saturating_pow2_mono)

lemma scale_duration_mono: "m \<le> n \<Longrightarrow> scale_duration d m \<le> scale_duration d n"
  unfolding scale_duration_def by (intro min.mono mult_left_mono) auto

lemma timer_a_mono: "m \<le> n \<Longrightarrow> timer_a c m \<le> timer_a c n"
  by (simp add: timer_a_factor backoff_factor_mono scale_duration_mono)

lemma backoff_cap:
  assumes "t1 c = millis k" "1 \<le> k" "t1 c \<le> t2 c" "t2 c \<le> u64_max"
  shows "millis_u64 (t2 c) div max (millis_u64 (t1 c)) 1 = t2 c div 1000000 div k"
    "1 \<le> t2 c div 1000000 div k" "t1 c * (t2 c div 1000000 div k) \<le> t2 c"
proof -
  have k: "k * 1000000 \<le> t2 c" using assms by (simp add: millis_def)
  have "millis_u64 (t1 c) = k" "millis_u64 (t2 c) = t2 c div 1000000"
    using assms k by (auto simp: millis_u64_def millis_def u64_max_def)
  then show "millis_u64 (t2 c) div max (millis_u64 (t1 c)) 1 = t2 c div 1000000 div k"
    using \<open>1 \<le> k\<close> by (simp add: max_def)
  have eq: "t2 c div 1000000 div k = t2 c div (1000000 * k)"
    by (simp add: div_mult2_eq)
  show "1 \<le> t2 c div 1000000 div k"
    using k \<open>1 \<le> k\<close> by (simp add: eq div_greater_zero_iff Suc_le_eq mult.commute)
  show "t1 c * (t2 c div 1000000 div k) \<le> t2 c"
    by (simp add: eq assms(1) millis_def mult.commute)
qed

lemma pow2_fits:
  assumes "millis k * 2 ^ n \<le> t2 c" "1 \<le> k" "t2 c \<le> u64_max"
  shows "n < 64" "2 ^ n \<le> t2 c div 1000000 div k"
proof -
  have "(2::nat) ^ n \<le> millis k * 2 ^ n"
    using assms(2) by (simp add: millis_def)
  with assms have "(2::nat) ^ n \<le> u64_max"
    by linarith
  then have "(2::nat) ^ n < 2 ^ 64"
    by (simp add: u64_max_def)
  then show "n < 64"
    by (rule power_less_imp_less_exp [rotated]) simp
  have "2 ^ n * (1000000 * k) \<le> t2 c"
    using assms(1) by (simp add: millis_def ac_simps)
  then have "2 ^ n \<le> t2 c div (1000000 * k)"
    using assms(2) by (simp add: less_eq_div_iff_mult_less_eq)
  then show "2 ^ n \<le> t2 c div 1000000 div k"
    by (simp add: div_mult2_eq)
qed

text \<open>
  C24. On an unreliable transport whose T1 is a positive whole number of milliseconds not above T2,
  the retransmission intervals of timer A start at T1, never shrink, never leave the range from T1
  to T2, and are exactly \<open>2^n\<close> times T1 as long as that does not exceed T2.
\<close>

theorem retransmission_schedule:
  assumes "transport c = Unreliable" "t1 c = millis k" "1 \<le> k" "t1 c \<le> t2 c" "t2 c \<le> u64_max"
  shows "timer_a c 0 = t1 c \<and> timer_a c n \<le> timer_a c (Suc n)
    \<and> t1 c \<le> timer_a c n \<and> timer_a c n \<le> t2 c
    \<and> (t1 c * 2 ^ n \<le> t2 c \<longrightarrow> timer_a c n = t1 c * 2 ^ n)"
proof -
  note cap = backoff_cap [OF assms(2-5)]
  let ?cap = "t2 c div 1000000 div k"
  have factor: "backoff_factor c n = min (saturating_pow2 n) ?cap" for n
  proof -
    have "1 \<le> saturating_pow2 n"
      using saturating_pow2_mono [of 0 n] by (simp add: saturating_pow2_def)
    then show ?thesis
      unfolding backoff_factor_def cap(1) using cap(2) by (simp add: max_def min_def)
  qed
  have timer: "timer_a c n = t1 c * min (saturating_pow2 n) ?cap" for n
  proof -
    have "t1 c * min (saturating_pow2 n) ?cap \<le> t1 c * ?cap" by simp
    with cap(3) assms(5) have "t1 c * min (saturating_pow2 n) ?cap \<le> u64_max" by linarith
    with assms(1) show ?thesis
      by (simp add: timer_a_factor is_reliable_def scale_duration_def factor)
  qed
  have zero: "timer_a c 0 = t1 c"
    unfolding timer using cap(2) by (simp add: saturating_pow2_def min_def)
  have "timer_a c n \<le> t2 c"
    unfolding timer using cap(3) mult_le_mono2 [of "min (saturating_pow2 n) ?cap" ?cap "t1 c"]
    by linarith
  moreover have "timer_a c n = t1 c * 2 ^ n" if "t1 c * 2 ^ n \<le> t2 c"
    using pow2_fits [of k n c] that assms by (simp add: timer saturating_pow2_def)
  moreover have "t1 c \<le> timer_a c n"
    using timer_a_mono [of 0 n c] zero by simp
  ultimately show ?thesis
    using zero timer_a_mono [of n "Suc n" c] by simp
qed

theorem retransmission_schedule_witness:
  "transport default_config = Unreliable \<and> t1 default_config = millis 500
   \<and> timer_a default_config 3 = millis 4000 \<and> timer_a default_config 7 \<le> millis 4000"
proof -
  have cfg: "transport default_config = Unreliable" "t1 default_config = millis 500"
    "t1 default_config \<le> t2 default_config" "t2 default_config \<le> u64_max"
    "t2 default_config = millis 4000"
    by (simp_all add: default_config_def millis_def u64_max_def)
  note schedule = retransmission_schedule [of default_config 500, OF cfg(1,2) _ cfg(3,4)]
  have "t1 default_config * 2 ^ 3 \<le> t2 default_config"
    by (simp add: default_config_def millis_def)
  with schedule [of 3] have "timer_a default_config 3 = millis 4000"
    by (simp add: default_config_def millis_def)
  with schedule [of 7] cfg show ?thesis by simp
qed

end
