(* ===== verification/TransactionTypes.thy ===== *)
theory TransactionTypes
  imports SipMessage Timers
begin

text \<open>
  Inputs and outputs of the transaction state machines and the helpers on messages they share:
  \<open>sip/transaction/state_machine.rs\<close> of \<open>cheetah-gb28181-core\<close>.
\<close>

datatype transaction_event =
    EvRequest sip_message
  | EvResponse sip_message
  | EvTimer timer_kind
  | EvTransportError

datatype transaction_output =
    SendMessage sip_message
  | Deliver sip_message
  | SetTimer timer_kind duration
  | CancelTimer timer_kind
  | Complete
  | Failure sip_error_kind

definition is_provisional :: "nat \<Rightarrow> bool" where
  "is_provisional code \<longleftrightarrow> 100 \<le> code \<and> code < 200"

definition is_success :: "nat \<Rightarrow> bool" where
  "is_success code \<longleftrightarrow> 200 \<le> code \<and> code < 300"

definition is_failure :: "nat \<Rightarrow> bool" where
  "is_failure code \<longleftrightarrow> 300 \<le> code \<and> code < 700"

definition is_final :: "nat \<Rightarrow> bool" where
  "is_final code \<longleftrightarrow> 200 \<le> code \<and> code < 700"

fun request_method :: "sip_message \<Rightarrow> sip_method option" where
  "request_method (Request l _ _) = Some (rl_method l)"
| "request_method (Response _ _ _) = None"

fun response_code :: "sip_message \<Rightarrow> nat option" where
  "response_code (Response l _ _) = Some (sl_code l)"
| "response_code (Request _ _ _) = None"

text \<open>\<open>response_code(&resp).unwrap_or(0)\<close>.\<close>

definition code_or_zero :: "sip_message \<Rightarrow> nat" where
  "code_or_zero m = (case response_code m of None \<Rightarrow> 0 | Some c \<Rightarrow> c)"

lemma code_classes_disjoint [simp]:
  "is_success c \<Longrightarrow> \<not> is_provisional c" "is_failure c \<Longrightarrow> \<not> is_provisional c"
  "is_failure c \<Longrightarrow> \<not> is_success c" "is_final c \<Longrightarrow> \<not> is_provisional c"
  by (auto simp: is_provisional_def is_success_def is_failure_def is_final_def)

lemma is_final_iff: "is_final c \<longleftrightarrow> is_success c \<or> is_failure c"
  by (auto simp: is_success_def is_failure_def is_final_def)

lemma request_method_is_request: "is_request m \<longleftrightarrow> (\<exists>meth. request_method m = Some meth)"
  by (cases m) auto

text \<open>Output classifiers used by the manager and in the statements.\<close>

fun is_deliver :: "transaction_output \<Rightarrow> bool" where
  "is_deliver (Deliver _) = True"
| "is_deliver _ = False"

end
