(* ===== verification/TransactionKey.thy ===== *)
theory TransactionKey
  imports SipMessage
begin

text \<open>
  Transaction identifiers: \<open>sip/transaction/key.rs\<close> of \<open>cheetah-gb28181-core\<close>. A key is the
  branch of the top \<open>Via\<close>, the method named in \<open>CSeq\<close>, the \<open>Call-ID\<close> and the local role.
\<close>

datatype transaction_role = Uac | Uas

fun opposite :: "transaction_role \<Rightarrow> transaction_role" where
  "opposite Uac = Uas"
| "opposite Uas = Uac"

datatype transaction_kind = InviteKind | NonInviteKind

datatype transaction_half = ClientHalf | ServerHalf

datatype branch_policy = Strict | Permissive

definition magic_cookie :: string where
  "magic_cookie = ''z9hG4bK''"

record transaction_key =
  key_branch :: string
  key_cseq_method :: sip_method
  key_call_id :: string
  key_role :: transaction_role

definition key_for_message ::
    "sip_message \<Rightarrow> transaction_role \<Rightarrow> branch_policy \<Rightarrow> transaction_key option" where
  "key_for_message message role policy =
     (case top_branch message of
        None \<Rightarrow> None
      | Some branch \<Rightarrow>
          if branch = [] then None
          else if is_request message \<and> policy = Strict \<and> \<not> prefix magic_cookie branch then None
          else (case call_id message of
                  None \<Rightarrow> None
                | Some cid \<Rightarrow>
                    (case cseq message of
                       Inl _ \<Rightarrow> None
                     | Inr (_, m) \<Rightarrow>
                         Some \<lparr>key_branch = branch, key_cseq_method = m, key_call_id = cid,
                               key_role = role\<rparr>)))"

definition key_half :: "transaction_key \<Rightarrow> transaction_half" where
  "key_half k = (case key_role k of Uac \<Rightarrow> ClientHalf | Uas \<Rightarrow> ServerHalf)"

definition key_kind :: "transaction_key \<Rightarrow> transaction_kind" where
  "key_kind k = (case key_cseq_method k of Invite \<Rightarrow> InviteKind | _ \<Rightarrow> NonInviteKind)"

definition validate_branch :: "string \<Rightarrow> branch_policy \<Rightarrow> sip_error_kind + unit" where
  "validate_branch branch policy =
     (if branch = [] then Inl InvalidHeader
      else if policy = Strict \<and> \<not> prefix magic_cookie branch then Inl InvalidHeader
      else Inr ())"

lemma key_for_message_SomeD:
  assumes "key_for_message m role pol = Some k"
  shows "top_branch m = Some (key_branch k)" "call_id m = Some (key_call_id k)"
    "\<exists>n. cseq m = Inr (n, key_cseq_method k)" "key_role k = role"
    "is_request m \<Longrightarrow> validate_branch (key_branch k) pol = Inr ()"
  using assms
  by (auto simp: key_for_message_def validate_branch_def split: option.splits if_splits sum.splits)

lemma key_for_message_SomeI:
  assumes "top_branch m = Some b" "b \<noteq> []" "is_request m \<Longrightarrow> pol = Strict \<Longrightarrow> prefix magic_cookie b"
    "call_id m = Some cid" "cseq m = Inr (n, meth)"
  shows "key_for_message m role pol =
    Some \<lparr>key_branch = b, key_cseq_method = meth, key_call_id = cid, key_role = role\<rparr>"
  using assms by (auto simp: key_for_message_def)

end
