(* ===== verification/ClientTransaction.thy ===== *)
theory ClientTransaction
  imports TransactionTypes TransactionKey "HOL-Library.Monad_Syntax"
begin

text \<open>
  The client transaction: \<open>sip/transaction/client.rs\<close> of \<open>cheetah-gb28181-core\<close>. An operation
  returns the new state and its outputs. The one panic of the file, the \<open>unreachable!\<close> of
  \<open>build_ack\<close>, is the value \<open>None\<close>; the lemmas show that a transaction made from a request never
  gets there.
\<close>

section \<open>State\<close>

datatype client_state = C_Calling | C_Trying | C_Proceeding | C_Completed | C_Terminated

record client_transaction =
  ct_config :: transaction_config
  ct_request :: sip_message
  ct_is_invite :: bool
  ct_state :: client_state
  ct_retransmit_count :: u32
  ct_final_response :: "sip_message option"

type_synonym client_result = "client_transaction \<times> transaction_output list"

definition client_new :: "sip_message \<Rightarrow> transaction_config \<Rightarrow> client_transaction" where
  "client_new request config =
     (let is_invite = (request_method request = Some Invite) in
      \<lparr>ct_config = config, ct_request = request, ct_is_invite = is_invite,
       ct_state = (if is_invite then C_Calling else C_Trying),
       ct_retransmit_count = 0, ct_final_response = None\<rparr>)"

definition client_is_terminated :: "client_transaction \<Rightarrow> bool" where
  "client_is_terminated t \<longleftrightarrow> ct_state t = C_Terminated"

section \<open>The ACK for a failure response\<close>

definition ack_allowed :: "header_name list" where
  "ack_allowed = [From, CallId, Route, MaxForwards]"

definition build_ack :: "sip_message \<Rightarrow> sip_message \<Rightarrow> sip_message option" where
  "build_ack invite response =
     (case invite of
        Response _ _ _ \<Rightarrow> None
      | Request line headers _ \<Rightarrow>
          (let h0 = (case hdr_get_all Via headers of
                       [] \<Rightarrow> hdr_new
                     | top_via # _ \<Rightarrow> hdr_append Via top_via hdr_new);
               h1 = foldl (\<lambda>h (name, val).
                             if list_ex (header_name_eq name) ack_allowed
                             then hdr_append name val h else h)
                      h0 (hdr_lines headers);
               h2 = (case hdr_get To (msg_headers response) of
                       None \<Rightarrow> h1
                     | Some to \<Rightarrow> hdr_append To to h1);
               seq = (case cseq invite of Inl _ \<Rightarrow> 0 | Inr (n, _) \<Rightarrow> n);
               h3 = hdr_append CSeq (nat_to_dec (unat seq) @ '' ACK'') h2
           in Some (Request (request_line_new Ack (rl_uri line)) h3 [])))"

section \<open>Handlers\<close>

definition client_terminate :: "client_transaction \<Rightarrow> client_result" where
  "client_terminate t = (t\<lparr>ct_state := C_Terminated\<rparr>, [Complete])"

definition client_terminate_with_failure ::
    "sip_error_kind \<Rightarrow> client_transaction \<Rightarrow> client_result" where
  "client_terminate_with_failure kind t = (t\<lparr>ct_state := C_Terminated\<rparr>, [Failure kind, Complete])"

definition client_bootstrap :: "client_transaction \<Rightarrow> duration \<Rightarrow> client_result" where
  "client_bootstrap t now =
     (t, [SendMessage (ct_request t)] @
         (if ct_is_invite t
          then [SetTimer TimerA (now + timer_a (ct_config t) 0),
                SetTimer TimerB (now + timer_b (ct_config t))]
          else [SetTimer TimerE (now + timer_e (ct_config t) 0),
                SetTimer TimerF (now + timer_f (ct_config t))]))"

definition on_invite_response ::
    "client_transaction \<Rightarrow> sip_message \<Rightarrow> duration \<Rightarrow> client_result option" where
  "on_invite_response t resp now =
     (let code = code_or_zero resp in
      if is_provisional code then
        Some (t\<lparr>ct_state := C_Proceeding\<rparr>, [CancelTimer TimerA, Deliver resp])
      else if is_success code then
        Some (t\<lparr>ct_state := C_Terminated\<rparr>,
              [CancelTimer TimerA, CancelTimer TimerB, Deliver resp, Complete])
      else if is_failure code then
        do {
          ack \<leftarrow> build_ack (ct_request t) resp;
          let t' = t\<lparr>ct_final_response := Some resp\<rparr>;
          let out = [CancelTimer TimerA, CancelTimer TimerB, Deliver resp, SendMessage ack];
          Some (if timer_d (ct_config t) = 0
                then (t'\<lparr>ct_state := C_Terminated\<rparr>, out @ [Complete])
                else (t'\<lparr>ct_state := C_Completed\<rparr>,
                      out @ [SetTimer TimerD (now + timer_d (ct_config t))]))
        }
      else Some (t, []))"

definition on_invite_response_completed ::
    "client_transaction \<Rightarrow> sip_message \<Rightarrow> client_result option" where
  "on_invite_response_completed t resp =
     (case ct_final_response t of
        Some final_response \<Rightarrow>
          if is_failure (code_or_zero resp)
          then do { ack \<leftarrow> build_ack (ct_request t) final_response; Some (t, [SendMessage ack]) }
          else Some (t, [])
      | None \<Rightarrow> Some (t, []))"

definition on_invite_timer_a :: "client_transaction \<Rightarrow> duration \<Rightarrow> client_result" where
  "on_invite_timer_a t now =
     (if ct_state t \<noteq> C_Calling then (t, [])
      else let t' = t\<lparr>ct_retransmit_count := ct_retransmit_count t + 1\<rparr> in
        (t', [SendMessage (ct_request t),
              SetTimer TimerA (now + timer_a (ct_config t) (unat (ct_retransmit_count t')))]))"

definition on_invite_timer_b :: "client_transaction \<Rightarrow> client_result" where
  "on_invite_timer_b t = client_terminate_with_failure TransactionTimeout t"

definition on_non_invite_response ::
    "client_transaction \<Rightarrow> sip_message \<Rightarrow> duration \<Rightarrow> client_result" where
  "on_non_invite_response t resp now =
     (let code = code_or_zero resp in
      if is_provisional code then
        (t\<lparr>ct_state := C_Proceeding\<rparr>, [SetTimer TimerE (now + t2 (ct_config t)), Deliver resp])
      else if is_final code then
        (let out = [CancelTimer TimerE, CancelTimer TimerF, Deliver resp] in
         if timer_k (ct_config t) = 0
         then (t\<lparr>ct_state := C_Terminated\<rparr>, out @ [Complete])
         else (t\<lparr>ct_state := C_Completed\<rparr>, out @ [SetTimer TimerK (now + timer_k (ct_config t))]))
      else (t, []))"

definition on_non_invite_timer_e :: "client_transaction \<Rightarrow> duration \<Rightarrow> client_result" where
  "on_non_invite_timer_e t now =
     (if ct_state t \<noteq> C_Trying then (t, [])
      else let t' = t\<lparr>ct_retransmit_count := ct_retransmit_count t + 1\<rparr> in
        (t', [SendMessage (ct_request t),
              SetTimer TimerE (now + timer_e (ct_config t) (unat (ct_retransmit_count t')))]))"

definition on_non_invite_timer_e_proceeding :: "client_transaction \<Rightarrow> duration \<Rightarrow> client_result" where
  "on_non_invite_timer_e_proceeding t now =
     (if ct_state t \<noteq> C_Proceeding then (t, [])
      else (t, [SendMessage (ct_request t), SetTimer TimerE (now + t2 (ct_config t))]))"

definition on_non_invite_timer_f :: "client_transaction \<Rightarrow> client_result" where
  "on_non_invite_timer_f t = client_terminate_with_failure TransactionTimeout t"

text \<open>
  The arms of \<open>process\<close>, grouped by event; within a group they are in the order of the source.
\<close>

definition client_process ::
    "client_transaction \<Rightarrow> transaction_event \<Rightarrow> duration \<Rightarrow> client_result option" where
  "client_process t event now =
     (let s = ct_state t; inv = ct_is_invite t in
      case event of
        EvTimer k \<Rightarrow>
          Some (if s = C_Calling \<and> k = TimerA \<and> inv then on_invite_timer_a t now
                else if (s = C_Calling \<or> s = C_Proceeding) \<and> k = TimerB \<and> inv then on_invite_timer_b t
                else if s = C_Completed \<and> k = TimerD \<and> inv then client_terminate t
                else if s = C_Trying \<and> k = TimerE \<and> \<not> inv then on_non_invite_timer_e t now
                else if s = C_Proceeding \<and> k = TimerE \<and> \<not> inv
                  then on_non_invite_timer_e_proceeding t now
                else if (s = C_Trying \<or> s = C_Proceeding) \<and> k = TimerF \<and> \<not> inv
                  then on_non_invite_timer_f t
                else if s = C_Completed \<and> k = TimerK \<and> \<not> inv then client_terminate t
                else (t, []))
      | EvResponse resp \<Rightarrow>
          if (s = C_Calling \<or> s = C_Proceeding) \<and> inv then on_invite_response t resp now
          else if s = C_Completed \<and> inv then on_invite_response_completed t resp
          else if (s = C_Trying \<or> s = C_Proceeding) \<and> \<not> inv
            then Some (on_non_invite_response t resp now)
          else Some (t, [])
      | EvTransportError \<Rightarrow> Some (client_terminate_with_failure TransportFailure t)
      | EvRequest _ \<Rightarrow> Some (t, []))"

text \<open>A run feeds a list of events with their times and collects the outputs.\<close>

fun client_run ::
    "client_transaction \<Rightarrow> (transaction_event \<times> duration) list \<Rightarrow> client_result option" where
  "client_run t [] = Some (t, [])"
| "client_run t ((ev, now) # evs) =
     do { (ta, out1) \<leftarrow> client_process t ev now;
          (tb, out2) \<leftarrow> client_run ta evs;
          Some (tb, out1 @ out2) }"

section \<open>The ACK\<close>

lemma foldl_append_if:
  assumes "wf_headers h"
  shows "wf_headers (foldl (\<lambda>h (n, v). if P n then hdr_append n v h else h) h ls)"
    "hdr_lines (foldl (\<lambda>h (n, v). if P n then hdr_append n v h else h) h ls)
       = hdr_lines h @ filter (\<lambda>l. P (fst l)) ls"
  using assms by (induction ls arbitrary: h) auto

lemma build_ack_lines:
  assumes "wf_headers headers"
  shows "\<exists>h. build_ack (Request line headers body) resp
            = Some (Request (request_line_new Ack (rl_uri line)) h [])
          \<and> wf_headers h
          \<and> hdr_lines h =
              map (Pair Via) (take 1 (hdr_get_all Via headers))
              @ filter (\<lambda>l. list_ex (header_name_eq (fst l)) ack_allowed) (hdr_lines headers)
              @ (case hdr_get To (msg_headers resp) of None \<Rightarrow> [] | Some to \<Rightarrow> [(To, to)])
              @ [(CSeq, nat_to_dec (unat (case cseq (Request line headers body) of
                                            Inl _ \<Rightarrow> 0 | Inr (n, _) \<Rightarrow> n)) @ '' ACK'')]"
proof -
  let ?h0 = "case hdr_get_all Via headers of [] \<Rightarrow> hdr_new | v # _ \<Rightarrow> hdr_append Via v hdr_new"
  have h0: "wf_headers ?h0" "hdr_lines ?h0 = map (Pair Via) (take 1 (hdr_get_all Via headers))"
    by (auto split: list.split)
  note h1 = foldl_append_if [OF h0(1), of "\<lambda>n. list_ex (header_name_eq n) ack_allowed"]
  show ?thesis
    unfolding build_ack_def Let_def
    by (auto simp: h1 h0 split: option.split)
qed

lemma header_name_eq_simps [simp]:
  "header_name_eq h Via \<longleftrightarrow> h = Via" "header_name_eq h CallId \<longleftrightarrow> h = CallId"
  "header_name_eq h To \<longleftrightarrow> h = To" "header_name_eq h CSeq \<longleftrightarrow> h = CSeq"
  "header_name_eq h From \<longleftrightarrow> h = From" "header_name_eq h Route \<longleftrightarrow> h = Route"
  "header_name_eq h MaxForwards \<longleftrightarrow> h = MaxForwards"
  by (cases h; simp add: header_name_eq_def)+

lemma build_ack_fields:
  assumes "wf_headers (msg_headers invite)" "is_request invite"
    "build_ack invite resp = Some ack"
  shows "wf_headers (msg_headers ack)" "request_method ack = Some Ack"
    "top_branch ack = top_branch invite" "call_id ack = call_id invite"
    "hdr_get To (msg_headers ack) = hdr_get To (msg_headers resp)"
    "hdr_get_all Via (msg_headers ack) = take 1 (hdr_get_all Via (msg_headers invite))"
    "cseq ack = Inr (case cseq invite of Inl _ \<Rightarrow> 0 | Inr (n, _) \<Rightarrow> n, Ack)"
proof -
  obtain line headers body where inv: "invite = Request line headers body"
    using assms(2) by (cases invite) auto
  with assms(1) have wf: "wf_headers headers" by simp
  let ?seq = "case cseq invite of Inl _ \<Rightarrow> 0 | Inr (n, _) \<Rightarrow> n"
  obtain h where ack: "ack = Request (request_line_new Ack (rl_uri line)) h []" and h: "wf_headers h"
    and lines: "hdr_lines h = map (Pair Via) (take 1 (hdr_get_all Via headers))
              @ filter (\<lambda>l. list_ex (header_name_eq (fst l)) ack_allowed) (hdr_lines headers)
              @ (case hdr_get To (msg_headers resp) of None \<Rightarrow> [] | Some to \<Rightarrow> [(To, to)])
              @ [(CSeq, cseq_value ?seq Ack)]"
    using build_ack_lines [OF wf, of line body resp] assms(3)
    by (auto simp: inv cseq_value_def)
  show "wf_headers (msg_headers ack)" "request_method ack = Some Ack"
    using h by (simp_all add: ack request_line_new_def)
  show via: "hdr_get_all Via (msg_headers ack) = take 1 (hdr_get_all Via (msg_headers invite))"
    by (auto simp: ack inv hdr_get_all_scan [OF h] lines filter_empty_conv ack_allowed_def comp_def
        split: option.split)
  show "top_branch ack = top_branch invite"
    unfolding top_branch_def via by (auto split: list.split)
  have via_only: "n \<noteq> Via \<Longrightarrow> find (\<lambda>l. fst l = n) (map (Pair Via) vs) = None" for n vs
    by (auto simp: find_None_iff)
  have skip: "n \<notin> {From, CallId, Route, MaxForwards} \<Longrightarrow>
      find (\<lambda>l. fst l = n) (filter (\<lambda>l. list_ex (header_name_eq (fst l)) ack_allowed) ls) = None" for n ls
    by (rule find_filter_none) (auto simp: ack_allowed_def)
  have keep: "find (\<lambda>l. fst l = CallId) (filter (\<lambda>l. list_ex (header_name_eq (fst l)) ack_allowed) ls)
      = find (\<lambda>l. fst l = CallId) ls" for ls
    by (rule find_filter_imp) (auto simp: ack_allowed_def)
  note get = hdr_get_scan [OF h] lines find_append via_only
  show "hdr_get To (msg_headers ack) = hdr_get To (msg_headers resp)"
    by (auto simp: ack get skip split: option.split)
  show "call_id ack = call_id invite"
    by (auto simp: ack inv call_id_def get keep hdr_get_scan [OF wf] split: option.split)
  have "hdr_get CSeq h = Some (cseq_value ?seq Ack)"
    by (auto simp: get skip split: option.split)
  then show "cseq ack = Inr (?seq, Ack)"
    by (simp add: ack cseq_def)
qed

section \<open>The invariant\<close>

definition wf_client :: "client_transaction \<Rightarrow> bool" where
  "wf_client t \<longleftrightarrow>
     is_request (ct_request t)
     \<and> ct_is_invite t = (request_method (ct_request t) = Some Invite)
     \<and> (ct_is_invite t \<longrightarrow> ct_state t \<noteq> C_Trying)
     \<and> (\<not> ct_is_invite t \<longrightarrow> ct_state t \<noteq> C_Calling)
     \<and> (ct_is_invite t \<and> ct_state t = C_Completed \<longrightarrow>
          (\<exists>r. ct_final_response t = Some r \<and> is_failure (code_or_zero r)))"

text \<open>Past a final answer: nothing is delivered and the request is not sent any more.\<close>

definition client_done :: "client_transaction \<Rightarrow> bool" where
  "client_done t \<longleftrightarrow> ct_state t = C_Completed \<or> ct_state t = C_Terminated"

fun final_delivery :: "transaction_output \<Rightarrow> bool" where
  "final_delivery (Deliver r) \<longleftrightarrow> is_final (code_or_zero r)"
| "final_delivery _ \<longleftrightarrow> False"

definition quiet :: "sip_message \<Rightarrow> transaction_output \<Rightarrow> bool" where
  "quiet req x \<longleftrightarrow> \<not> is_deliver x \<and> x \<noteq> SendMessage req"

fun quiet_after_final :: "sip_message \<Rightarrow> transaction_output list \<Rightarrow> bool" where
  "quiet_after_final req [] = True"
| "quiet_after_final req (x # xs) =
     ((final_delivery x \<longrightarrow> list_all (quiet req) xs) \<and> quiet_after_final req xs)"

lemmas client_handler_defs =
  client_terminate_def client_terminate_with_failure_def on_invite_response_def
  on_invite_response_completed_def on_invite_timer_a_def on_invite_timer_b_def
  on_non_invite_response_def on_non_invite_timer_e_def on_non_invite_timer_e_proceeding_def
  on_non_invite_timer_f_def

lemma wf_client_new: "is_request req \<Longrightarrow> wf_client (client_new req c)"
  by (simp add: wf_client_def client_new_def Let_def)

lemma build_ack_Some:
  assumes "is_request invite"
  obtains ack where "build_ack invite resp = Some ack" "request_method ack = Some Ack"
proof -
  obtain line headers body where "invite = Request line headers body"
    using assms by (cases invite) auto
  then have "\<exists>ack. build_ack invite resp = Some ack \<and> request_method ack = Some Ack"
    unfolding build_ack_def Let_def by (simp add: request_line_new_def)
  then show ?thesis using that by blast
qed

text \<open>One step: no panic, the invariant, and what the outputs say about the state.\<close>

definition client_step_ok :: "client_transaction \<Rightarrow> client_result \<Rightarrow> bool" where
  "client_step_ok t r \<longleftrightarrow>
     (case r of (t', out) \<Rightarrow>
        wf_client t' \<and> ct_request t' = ct_request t \<and> ct_config t' = ct_config t
        \<and> (client_done t \<longrightarrow> client_done t' \<and> list_all (quiet (ct_request t)) out)
        \<and> quiet_after_final (ct_request t) out
        \<and> (list_ex final_delivery out \<longrightarrow> client_done t')
        \<and> (client_is_terminated t \<or> Complete \<in> set out \<longrightarrow> client_is_terminated t')
        \<and> (client_is_terminated t' \<longrightarrow> client_is_terminated t \<or> Complete \<in> set out))"

lemmas client_step_simps =
  client_step_ok_def wf_client_def client_done_def quiet_def client_is_terminated_def

lemma on_invite_response_ok:
  assumes "wf_client t" "ct_is_invite t" "ct_state t = C_Calling \<or> ct_state t = C_Proceeding"
  shows "\<exists>r. on_invite_response t resp now = Some r \<and> client_step_ok t r"
proof -
  obtain ack where ack: "build_ack (ct_request t) resp = Some ack" "request_method ack = Some Ack"
    using assms(1) build_ack_Some unfolding wf_client_def by blast
  then have "ack \<noteq> ct_request t"
    using assms(1,2) by (auto simp: wf_client_def)
  with assms ack show ?thesis
    by (auto simp: on_invite_response_def Let_def client_step_simps is_final_iff)
qed

lemma on_invite_response_completed_ok:
  assumes "wf_client t" "ct_is_invite t" "ct_state t = C_Completed"
  shows "\<exists>r. on_invite_response_completed t resp = Some r \<and> client_step_ok t r"
proof -
  obtain f where f: "ct_final_response t = Some f" using assms by (auto simp: wf_client_def)
  obtain ack where ack: "build_ack (ct_request t) f = Some ack" "request_method ack = Some Ack"
    using assms(1) build_ack_Some unfolding wf_client_def by blast
  then have "ack \<noteq> ct_request t"
    using assms(1,2) by (auto simp: wf_client_def)
  with assms ack f show ?thesis
    by (auto simp: on_invite_response_completed_def client_step_simps)
qed

lemma on_non_invite_response_ok:
  assumes "wf_client t" "\<not> ct_is_invite t" "ct_state t = C_Trying \<or> ct_state t = C_Proceeding"
  shows "client_step_ok t (on_non_invite_response t resp now)"
  using assms by (auto simp: on_non_invite_response_def Let_def client_step_simps)

lemma client_unchanged_ok: "wf_client t \<Longrightarrow> client_step_ok t (t, [])"
  by (simp add: client_step_simps)

lemma client_timer_ok:
  "wf_client t \<Longrightarrow> \<exists>r. client_process t (EvTimer k) now = Some r \<and> client_step_ok t r"
  unfolding client_process_def client_handler_defs Let_def
  by (auto simp: client_step_simps)

lemma client_process_ok:
  assumes "wf_client t"
  shows "\<exists>r. client_process t ev now = Some r \<and> client_step_ok t r"
proof (cases ev)
  case (EvTimer k)
  then show ?thesis using client_timer_ok [OF assms] by simp
next
  case (EvResponse resp)
  then show ?thesis
    using assms on_invite_response_ok [OF assms] on_invite_response_completed_ok [OF assms]
      on_non_invite_response_ok [OF assms] client_unchanged_ok [OF assms]
    by (simp add: client_process_def Let_def del: split_paired_Ex)
next
  case EvTransportError
  then show ?thesis using assms
    by (simp add: client_process_def client_terminate_with_failure_def client_step_simps)
next
  case (EvRequest req)
  then show ?thesis using client_unchanged_ok [OF assms]
    by (simp add: client_process_def)
qed

lemma quiet_after_final_append:
  "quiet_after_final req (xs @ ys) \<longleftrightarrow>
     quiet_after_final req xs \<and> quiet_after_final req ys
     \<and> (list_ex final_delivery xs \<longrightarrow> list_all (quiet req) ys)"
  by (induction xs) auto

lemma client_run_ok:
  assumes "wf_client t"
  shows "\<exists>t' out. client_run t evs = Some (t', out) \<and> client_step_ok t (t', out)"
  using assms
proof (induction evs arbitrary: t)
  case Nil
  then show ?case by (simp add: client_unchanged_ok)
next
  case (Cons e evs)
  obtain ev now where e: "e = (ev, now)" by (cases e)
  obtain t1 out1 where 1: "client_process t ev now = Some (t1, out1)" "client_step_ok t (t1, out1)"
    using client_process_ok [OF Cons.prems] by fast
  then have "wf_client t1" by (simp add: client_step_ok_def)
  then obtain t2 out2 where 2: "client_run t1 evs = Some (t2, out2)" "client_step_ok t1 (t2, out2)"
    using Cons.IH by blast
  have "client_step_ok t (t2, out1 @ out2)"
    using 1(2) 2(2) by (auto simp: client_step_ok_def quiet_after_final_append)
  with 1(1) 2(1) show ?case by (simp add: e)
qed

section \<open>Properties\<close>

lemma quiet_after_finalD:
  "quiet_after_final req (out1 @ Deliver r # out2) \<Longrightarrow> is_final (code_or_zero r) \<Longrightarrow>
     list_all (quiet req) out2"
  by (induction out1) auto



text \<open>
  The ACK for a failure response. For an INVITE with consistent headers, \<open>build_ack\<close> succeeds
  and the ACK has the Request-URI, the branch and the Call-ID of the INVITE, the \<open>To\<close> of the
  response, at most one \<open>Via\<close>, and the number of the INVITE with method ACK in \<open>CSeq\<close>.
\<close>

theorem ack_follows_invite:
  assumes "wf_headers headers" "cseq (Request line headers body) = Inr (n, m)"
  shows "\<exists>ack h. build_ack (Request line headers body) resp = Some ack \<and>
     ack = Request (request_line_new Ack (rl_uri line)) h [] \<and>
     top_branch ack = top_branch (Request line headers body) \<and>
     call_id ack = call_id (Request line headers body) \<and>
     hdr_get To h = hdr_get To (msg_headers resp) \<and>
     length (hdr_get_all Via h) \<le> 1 \<and>
     cseq ack = Inr (n, Ack)"
proof -
  let ?inv = "Request line headers body"
  obtain h where ack: "build_ack ?inv resp = Some (Request (request_line_new Ack (rl_uri line)) h [])"
    using build_ack_lines [OF assms(1)] by blast
  from build_ack_fields [OF _ _ ack] assms show ?thesis
    using ack by simp
qed

theorem ack_follows_invite_witness:
  "\<exists>ack h. build_ack (sample_request Invite 1 Invite) (sample_response 486 1 Invite) = Some ack \<and>
     ack = Request (request_line_new Ack sample_uri) h [] \<and>
     top_branch ack = Some ''z9hG4bK77'' \<and> call_id ack = Some ''c1'' \<and>
     hdr_get To h = Some ''<sip:3402@192.168.1.64>;tag=b2'' \<and>
     length (hdr_get_all Via h) \<le> 1 \<and> cseq ack = Inr (1, Ack)"
proof -
  let ?inv = "sample_request Invite 1 Invite"
  have f: "?inv = Request (request_line_new Invite sample_uri) (msg_headers ?inv) []"
    by (simp add: sample_request_def)
  from ack_follows_invite [of "msg_headers ?inv" "request_line_new Invite sample_uri" "[]" 1 Invite
      "sample_response 486 1 Invite", folded f]
  show ?thesis by (simp add: request_line_new_def)
qed

end
