(* ===== verification/ServerTransaction.thy ===== *)
theory ServerTransaction
  imports TransactionTypes
begin

text \<open>
  The server transaction: \<open>sip/transaction/server.rs\<close> of \<open>cheetah-gb28181-core\<close>. An operation
  returns the new state and its outputs. The lemmas show that one final response is fixed per
  transaction, and that a repeated request is answered with it and not delivered again.
\<close>

section \<open>State\<close>

datatype server_state = S_Trying | S_Proceeding | S_Completed | S_Confirmed | S_Terminated

record server_transaction =
  st_config :: transaction_config
  st_request :: sip_message
  st_is_invite :: bool
  st_state :: server_state
  st_provisional_response :: "sip_message option"
  st_final_response :: "sip_message option"
  st_retransmit_count :: u32
  st_cancelled :: bool

type_synonym server_result = "server_transaction \<times> transaction_output list"

definition server_new :: "sip_message \<Rightarrow> transaction_config \<Rightarrow> server_transaction" where
  "server_new request config =
     (let is_invite = (request_method request = Some Invite) in
      \<lparr>st_config = config, st_request = request, st_is_invite = is_invite,
       st_state = (if is_invite then S_Proceeding else S_Trying),
       st_provisional_response = None, st_final_response = None,
       st_retransmit_count = 0, st_cancelled = False\<rparr>)"

definition server_is_terminated :: "server_transaction \<Rightarrow> bool" where
  "server_is_terminated t \<longleftrightarrow> st_state t = S_Terminated"

section \<open>Handlers\<close>

definition server_terminate :: "server_transaction \<Rightarrow> server_result" where
  "server_terminate t = (t\<lparr>st_state := S_Terminated\<rparr>, [Complete])"

definition server_terminate_with_failure ::
    "sip_error_kind \<Rightarrow> server_transaction \<Rightarrow> server_result" where
  "server_terminate_with_failure kind t = (t\<lparr>st_state := S_Terminated\<rparr>, [Failure kind, Complete])"

definition server_bootstrap :: "server_transaction \<Rightarrow> server_result" where
  "server_bootstrap t = (t, [Deliver (st_request t)])"

definition on_invite_cancel :: "server_transaction \<Rightarrow> sip_message \<Rightarrow> server_result" where
  "on_invite_cancel t req =
     (t\<lparr>st_cancelled := True\<rparr>,
      [Deliver req] @ (if st_final_response t = None then [Failure TransactionCancelled] else []))"

definition on_invite_ack :: "server_transaction \<Rightarrow> sip_message \<Rightarrow> duration \<Rightarrow> server_result" where
  "on_invite_ack t req now =
     (let t' = t\<lparr>st_state := S_Confirmed\<rparr>;
          out = [Deliver req, CancelTimer TimerG, CancelTimer TimerH] in
      if timer_i (st_config t) = 0
      then (case server_terminate t' of (t'', o2) \<Rightarrow> (t'', out @ o2))
      else (t', out @ [SetTimer TimerI (now + timer_i (st_config t))]))"

definition on_invite_request ::
    "server_transaction \<Rightarrow> sip_message \<Rightarrow> duration \<Rightarrow> server_result" where
  "on_invite_request t req now =
     (case request_method req of
        Some Invite \<Rightarrow>
          (case st_provisional_response t of
             Some resp \<Rightarrow> (t, [SendMessage resp])
           | None \<Rightarrow> (t, []))
      | Some Ack \<Rightarrow> (t, [Deliver req])
      | Some Cancel \<Rightarrow> on_invite_cancel t req
      | _ \<Rightarrow> (t, []))"

text \<open>
  The inner test of the source looks for a \<open>SetTimer\<close> of timer G in a list that holds only the
  send; it is kept as written.
\<close>

definition sets_timer_g :: "transaction_output \<Rightarrow> bool" where
  "sets_timer_g x = (case x of SetTimer k _ \<Rightarrow> k = TimerG | _ \<Rightarrow> False)"

definition on_invite_request_completed ::
    "server_transaction \<Rightarrow> sip_message \<Rightarrow> duration \<Rightarrow> server_result" where
  "on_invite_request_completed t req now =
     (case request_method req of
        Some Invite \<Rightarrow>
          (case st_final_response t of
             Some resp \<Rightarrow>
               (let out = [SendMessage resp] in
                if is_reliable (transport (st_config t)) then (t, out)
                else if \<not> list_ex sets_timer_g out
                then (let t' = t\<lparr>st_retransmit_count := st_retransmit_count t + 1\<rparr> in
                      (t', out @ [SetTimer TimerG
                         (now + timer_g (st_config t) (unat (st_retransmit_count t')))]))
                else (t, out))
           | None \<Rightarrow> (t, []))
      | Some Ack \<Rightarrow> on_invite_ack t req now
      | Some Cancel \<Rightarrow> on_invite_cancel t req
      | _ \<Rightarrow> (t, []))"

definition on_invite_request_confirmed :: "server_transaction \<Rightarrow> sip_message \<Rightarrow> server_result" where
  "on_invite_request_confirmed t req =
     (if request_method req = Some Ack then (t, [Deliver req]) else (t, []))"

definition on_invite_tu_response ::
    "server_transaction \<Rightarrow> sip_message \<Rightarrow> duration \<Rightarrow> server_result" where
  "on_invite_tu_response t resp now =
     (let code = code_or_zero resp in
      if is_provisional code then
        (t\<lparr>st_provisional_response := Some resp, st_state := S_Proceeding\<rparr>, [SendMessage resp])
      else if is_success code then
        (t\<lparr>st_state := S_Terminated\<rparr>, [SendMessage resp, Complete])
      else if is_failure code then
        (t\<lparr>st_final_response := Some resp, st_state := S_Completed\<rparr>,
         [SendMessage resp]
         @ (if \<not> is_reliable (transport (st_config t))
            then [SetTimer TimerG (now + timer_g (st_config t) 0)] else [])
         @ [SetTimer TimerH (now + timer_h (st_config t))])
      else (t, []))"

definition on_invite_timer_g :: "server_transaction \<Rightarrow> duration \<Rightarrow> server_result" where
  "on_invite_timer_g t now =
     (case st_final_response t of
        Some resp \<Rightarrow>
          (let t' = t\<lparr>st_retransmit_count := st_retransmit_count t + 1\<rparr> in
           (t', [SendMessage resp,
                 SetTimer TimerG (now + timer_g (st_config t) (unat (st_retransmit_count t')))]))
      | None \<Rightarrow> (t, []))"

definition on_invite_timer_h :: "server_transaction \<Rightarrow> server_result" where
  "on_invite_timer_h t = server_terminate_with_failure TransactionTimeout t"

definition on_non_invite_request_trying ::
    "server_transaction \<Rightarrow> sip_message \<Rightarrow> server_result" where
  "on_non_invite_request_trying t req =
     (if request_method req = request_method (st_request t) then (t, []) else (t, [Deliver req]))"

definition on_non_invite_request_proceeding ::
    "server_transaction \<Rightarrow> sip_message \<Rightarrow> server_result" where
  "on_non_invite_request_proceeding t req =
     (if request_method req = request_method (st_request t)
      then (case st_provisional_response t of
              Some resp \<Rightarrow> (t, [SendMessage resp]) | None \<Rightarrow> (t, []))
      else (t, [Deliver req]))"

definition on_non_invite_request_completed ::
    "server_transaction \<Rightarrow> sip_message \<Rightarrow> server_result" where
  "on_non_invite_request_completed t req =
     (if request_method req = request_method (st_request t)
      then (case st_final_response t of
              Some resp \<Rightarrow> (t, [SendMessage resp]) | None \<Rightarrow> (t, []))
      else (t, [Deliver req]))"

definition on_non_invite_tu_response ::
    "server_transaction \<Rightarrow> sip_message \<Rightarrow> duration \<Rightarrow> server_result" where
  "on_non_invite_tu_response t resp now =
     (let code = code_or_zero resp in
      if is_provisional code then
        (t\<lparr>st_provisional_response := Some resp, st_state := S_Proceeding\<rparr>, [SendMessage resp])
      else if is_final code then
        (let t' = t\<lparr>st_final_response := Some resp, st_state := S_Completed\<rparr> in
         if timer_j (st_config t) = 0
         then (t'\<lparr>st_state := S_Terminated\<rparr>, [SendMessage resp, Complete])
         else (t', [SendMessage resp, SetTimer TimerJ (now + timer_j (st_config t))]))
      else (t, []))"

text \<open>
  The arms of \<open>process\<close>, grouped by event; within a group they are in the order of the source.
\<close>

definition server_process ::
    "server_transaction \<Rightarrow> transaction_event \<Rightarrow> duration \<Rightarrow> server_result" where
  "server_process t event now =
     (let s = st_state t; inv = st_is_invite t in
      case event of
        EvRequest req \<Rightarrow>
          (if s = S_Proceeding \<and> inv then on_invite_request t req now
           else if s = S_Completed \<and> inv then on_invite_request_completed t req now
           else if s = S_Confirmed \<and> inv then on_invite_request_confirmed t req
           else if s = S_Trying \<and> \<not> inv then on_non_invite_request_trying t req
           else if s = S_Proceeding \<and> \<not> inv then on_non_invite_request_proceeding t req
           else if s = S_Completed \<and> \<not> inv then on_non_invite_request_completed t req
           else (t, []))
      | EvResponse resp \<Rightarrow>
          (if s = S_Proceeding \<and> inv then on_invite_tu_response t resp now
           else if (s = S_Trying \<or> s = S_Proceeding) \<and> \<not> inv
             then on_non_invite_tu_response t resp now
           else (t, []))
      | EvTimer k \<Rightarrow>
          (if (s = S_Proceeding \<or> s = S_Completed) \<and> k = TimerG \<and> inv then on_invite_timer_g t now
           else if s = S_Completed \<and> k = TimerH \<and> inv then on_invite_timer_h t
           else if s = S_Confirmed \<and> k = TimerI \<and> inv then server_terminate t
           else if s = S_Completed \<and> k = TimerJ \<and> \<not> inv then server_terminate t
           else (t, []))
      | EvTransportError \<Rightarrow> server_terminate_with_failure TransportFailure t)"

text \<open>A run feeds a list of events with their times and collects the outputs.\<close>

fun server_run ::
    "server_transaction \<Rightarrow> (transaction_event \<times> duration) list \<Rightarrow> server_result" where
  "server_run t [] = (t, [])"
| "server_run t ((ev, now) # evs) =
     (let (ta, out1) = server_process t ev now;
          (tb, out2) = server_run ta evs
      in (tb, out1 @ out2))"

section \<open>The invariant\<close>

definition wf_server :: "server_transaction \<Rightarrow> bool" where
  "wf_server t \<longleftrightarrow>
     is_request (st_request t)
     \<and> st_is_invite t = (request_method (st_request t) = Some Invite)
     \<and> (st_is_invite t \<longrightarrow> st_state t \<noteq> S_Trying)
     \<and> (\<not> st_is_invite t \<longrightarrow> st_state t \<noteq> S_Confirmed)
     \<and> (st_state t = S_Trying \<or> st_state t = S_Proceeding \<longrightarrow> st_final_response t = None)
     \<and> (st_state t = S_Completed \<or> st_state t = S_Confirmed \<longrightarrow> st_final_response t \<noteq> None)
     \<and> (\<forall>r. st_final_response t = Some r \<longrightarrow> is_final (code_or_zero r))
     \<and> (\<forall>r. st_provisional_response t = Some r \<longrightarrow> is_provisional (code_or_zero r))"

lemma wf_server_new: "is_request req \<Longrightarrow> wf_server (server_new req c)"
  by (simp add: wf_server_def server_new_def Let_def)

text \<open>The final responses that a list of outputs sends.\<close>

definition final_sends :: "transaction_output list \<Rightarrow> sip_message set" where
  "final_sends out = {m. SendMessage m \<in> set out \<and> is_final (code_or_zero m)}"

definition sends :: "transaction_output list \<Rightarrow> sip_message set" where
  "sends out = {m. SendMessage m \<in> set out}"

definition cached :: "server_transaction \<Rightarrow> sip_message set" where
  "cached t = set_option (st_provisional_response t) \<union> set_option (st_final_response t)"

definition event_responses :: "transaction_event \<Rightarrow> sip_message set" where
  "event_responses ev = (case ev of EvResponse r \<Rightarrow> {r} | _ \<Rightarrow> {})"

definition server_step_ok ::
    "server_transaction \<Rightarrow> transaction_event \<Rightarrow> server_transaction \<times> transaction_output list \<Rightarrow> bool" where
  "server_step_ok t ev r \<longleftrightarrow>
     (case r of (t', out) \<Rightarrow>
        wf_server t' \<and> st_request t' = st_request t
        \<and> (\<forall>m \<in> final_sends out. st_final_response t' = Some m \<or> server_is_terminated t')
        \<and> (\<forall>m \<in> final_sends out. \<forall>m' \<in> final_sends out. m = m')
        \<and> (\<forall>f. st_final_response t = Some f \<longrightarrow>
              st_final_response t' = Some f \<and> final_sends out \<subseteq> {f})
        \<and> (server_is_terminated t \<longrightarrow> server_is_terminated t' \<and> sends out = {})
        \<and> sends out \<union> cached t' \<subseteq> cached t \<union> event_responses ev
        \<and> (Complete \<in> set out \<longrightarrow> server_is_terminated t')
        \<and> (server_is_terminated t' \<longrightarrow> server_is_terminated t \<or> Complete \<in> set out))"

lemmas server_step_simps =
  server_step_ok_def wf_server_def server_is_terminated_def final_sends_def sends_def cached_def
  event_responses_def

lemma server_keep_ok:
  "wf_server t \<Longrightarrow> server_step_ok t ev (t, [])" "wf_server t \<Longrightarrow> server_step_ok t ev (t, [Deliver r])"
  by (auto simp: server_step_simps)

lemma server_replay_ok:
  assumes "wf_server t" "\<not> server_is_terminated t"
  shows "st_provisional_response t = Some p \<Longrightarrow> server_step_ok t ev (t, [SendMessage p])"
    "st_final_response t = Some f \<Longrightarrow> server_step_ok t ev (t, [SendMessage f])"
    "st_final_response t = Some f \<Longrightarrow>
       server_step_ok t ev (t\<lparr>st_retransmit_count := n\<rparr>, [SendMessage f, SetTimer k d])"
  using assms by (auto simp: server_step_simps)

lemma on_invite_cancel_ok: "wf_server t \<Longrightarrow> server_step_ok t ev (on_invite_cancel t req)"
  by (auto simp: server_step_simps on_invite_cancel_def)

lemma on_invite_ack_ok:
  "wf_server t \<Longrightarrow> st_is_invite t \<Longrightarrow> st_state t = S_Completed \<Longrightarrow>
     server_step_ok t ev (on_invite_ack t req now)"
  by (auto simp: server_step_simps on_invite_ack_def server_terminate_def Let_def)

lemma on_invite_request_ok:
  assumes "wf_server t" "\<not> server_is_terminated t"
  shows "server_step_ok t ev (on_invite_request t req now)"
  unfolding on_invite_request_def
  using assms by (auto simp: server_keep_ok server_replay_ok on_invite_cancel_ok
      split: option.split sip_method.split)

lemma on_invite_request_completed_ok:
  assumes "wf_server t" "st_is_invite t" "st_state t = S_Completed"
  shows "server_step_ok t ev (on_invite_request_completed t req now)"
proof -
  have "\<not> server_is_terminated t" using assms(3) by (simp add: server_is_terminated_def)
  with assms show ?thesis
    unfolding on_invite_request_completed_def Let_def
    by (auto simp: server_keep_ok server_replay_ok on_invite_cancel_ok on_invite_ack_ok sets_timer_g_def
        split: option.split sip_method.split)
qed

lemma server_request_ok:
  assumes "wf_server t"
  shows "server_step_ok t (EvRequest req) (server_process t (EvRequest req) now)"
proof -
  have "on_invite_request_confirmed t req \<in> {(t, []), (t, [Deliver req])}"
    "on_non_invite_request_trying t req \<in> {(t, []), (t, [Deliver req])}"
    by (simp_all add: on_invite_request_confirmed_def on_non_invite_request_trying_def)
  moreover have "server_step_ok t (EvRequest req) (on_non_invite_request_proceeding t req)"
    "server_step_ok t (EvRequest req) (on_non_invite_request_completed t req)"
    if "\<not> server_is_terminated t"
    using assms that
    by (auto simp: on_non_invite_request_proceeding_def on_non_invite_request_completed_def
        server_keep_ok server_replay_ok split: option.split)
  ultimately show ?thesis
    using assms server_keep_ok [OF assms, of "EvRequest req"]
    by (auto simp: server_process_def Let_def on_invite_request_ok on_invite_request_completed_ok
        server_is_terminated_def)
qed

lemma on_invite_tu_response_ok:
  assumes "wf_server t" "st_is_invite t" "st_state t = S_Proceeding"
  shows "server_step_ok t (EvResponse resp) (on_invite_tu_response t resp now)"
  using assms
  by (auto simp: on_invite_tu_response_def Let_def server_step_simps is_final_iff)

lemma on_non_invite_tu_response_ok:
  assumes "wf_server t" "\<not> st_is_invite t" "st_state t = S_Trying \<or> st_state t = S_Proceeding"
  shows "server_step_ok t (EvResponse resp) (on_non_invite_tu_response t resp now)"
  using assms
  by (auto simp: on_non_invite_tu_response_def Let_def server_step_simps)

lemma server_response_ok:
  "wf_server t \<Longrightarrow> server_step_ok t (EvResponse resp) (server_process t (EvResponse resp) now)"
  by (simp add: server_process_def Let_def on_invite_tu_response_ok on_non_invite_tu_response_ok
      server_keep_ok)

lemma server_terminate_ok:
  "wf_server t \<Longrightarrow> server_step_ok t ev (server_terminate t)"
  "wf_server t \<Longrightarrow> server_step_ok t ev (server_terminate_with_failure kind t)"
  by (auto simp: server_terminate_def server_terminate_with_failure_def server_step_simps)

lemma server_timer_ok:
  assumes "wf_server t"
  shows "server_step_ok t (EvTimer k) (server_process t (EvTimer k) now)"
proof -
  have "server_step_ok t (EvTimer k) (on_invite_timer_g t now)" if "\<not> server_is_terminated t"
    using assms that
    by (auto simp: on_invite_timer_g_def Let_def server_keep_ok server_replay_ok split: option.split)
  with assms show ?thesis
    by (auto simp: server_process_def Let_def server_is_terminated_def on_invite_timer_h_def
        server_keep_ok server_terminate_ok)
qed

lemma server_process_ok:
  assumes "wf_server t"
  shows "server_step_ok t ev (server_process t ev now)"
proof (cases ev)
  case EvTransportError
  then show ?thesis
    using assms by (simp add: server_process_def server_terminate_ok)
qed (simp_all add: assms server_request_ok server_response_ok server_timer_ok)

section \<open>Runs\<close>

definition server_run_ok ::
    "server_transaction \<Rightarrow> (transaction_event \<times> duration) list \<Rightarrow> server_result \<Rightarrow> bool" where
  "server_run_ok t evs r \<longleftrightarrow>
     (case r of (t', out) \<Rightarrow>
        wf_server t'
        \<and> (\<forall>m \<in> final_sends out. \<forall>m' \<in> final_sends out. m = m')
        \<and> (\<forall>f. st_final_response t = Some f \<longrightarrow> final_sends out \<subseteq> {f})
        \<and> (server_is_terminated t \<longrightarrow> sends out = {})
        \<and> sends out \<subseteq> cached t \<union> (\<Union>(ev, now) \<in> set evs. event_responses ev))"

lemma sends_append: "sends (xs @ ys) = sends xs \<union> sends ys"
  by (auto simp: sends_def)

lemma final_sends_append: "final_sends (xs @ ys) = final_sends xs \<union> final_sends ys"
  by (auto simp: final_sends_def)

lemma final_sends_subset: "final_sends xs \<subseteq> sends xs"
  by (auto simp: final_sends_def sends_def)

lemma server_run_ok_Cons:
  assumes "server_step_ok t ev (ta, out1)" "server_run_ok ta evs (tb, out2)"
  shows "server_run_ok t ((ev, now) # evs) (tb, out1 @ out2)"
proof -
  have agree: "m = m'" if "m \<in> final_sends out1" "m' \<in> final_sends out2" for m m'
  proof -
    have "st_final_response ta = Some m \<or> server_is_terminated ta"
      using assms(1) that(1) by (auto simp: server_step_ok_def)
    then show ?thesis
      using assms(2) that(2) final_sends_subset [of out2] by (auto simp: server_run_ok_def)
  qed
  moreover have "final_sends (out1 @ out2) \<subseteq> {f}" if "st_final_response t = Some f" for f
    using assms that by (auto simp: server_step_ok_def server_run_ok_def final_sends_append)
  moreover have "sends (out1 @ out2) \<subseteq> cached t \<union> (\<Union>(ev, now) \<in> set ((ev, now) # evs). event_responses ev)"
    using assms by (auto simp: server_step_ok_def server_run_ok_def sends_append)
  moreover have "m = m'" if "m \<in> final_sends (out1 @ out2)" "m' \<in> final_sends (out1 @ out2)" for m m'
    using assms agree that
    by (auto simp: server_step_ok_def server_run_ok_def final_sends_append)
  moreover have "server_is_terminated t \<longrightarrow> sends (out1 @ out2) = {}"
    using assms by (auto simp: server_step_ok_def server_run_ok_def sends_append)
  moreover have "wf_server tb" using assms(2) by (simp add: server_run_ok_def)
  ultimately show ?thesis
    unfolding server_run_ok_def split_conv by blast
qed

lemma server_run_okI: "wf_server t \<Longrightarrow> server_run_ok t evs (server_run t evs)"
proof (induction evs arbitrary: t)
  case Nil
  then show ?case by (simp add: server_run_ok_def final_sends_def sends_def)
next
  case (Cons e evs)
  obtain ev now where e: "e = (ev, now)" by (cases e)
  obtain ta out1 where 1: "server_process t ev now = (ta, out1)" by fastforce
  obtain tb out2 where 2: "server_run ta evs = (tb, out2)" by fastforce
  have step: "server_step_ok t ev (ta, out1)"
    using server_process_ok [OF Cons.prems, of ev now] 1 by simp
  then have "wf_server ta" by (simp add: server_step_ok_def)
  with Cons.IH 2 have "server_run_ok ta evs (tb, out2)" by metis
  with step show ?case
    by (simp add: e 1 2 server_run_ok_Cons)
qed

text \<open>Requests with the method of the transaction are retransmissions: none is delivered.\<close>

definition retransmission_of :: "sip_message \<Rightarrow> transaction_event \<Rightarrow> bool" where
  "retransmission_of req ev =
     (case ev of EvRequest r \<Rightarrow> request_method r = request_method req | _ \<Rightarrow> True)"

lemma server_process_no_deliver:
  assumes "wf_server t" "retransmission_of (st_request t) ev"
  shows "\<not> list_ex is_deliver (snd (server_process t ev now))"
proof (cases ev)
  case (EvRequest r)
  with assms have "request_method r = request_method (st_request t)"
    "st_is_invite t \<longleftrightarrow> request_method r = Some Invite"
    by (auto simp: retransmission_of_def wf_server_def)
  with EvRequest show ?thesis
    by (auto simp: server_process_def Let_def on_invite_request_def on_invite_request_completed_def
        on_invite_request_confirmed_def on_non_invite_request_trying_def
        on_non_invite_request_proceeding_def on_non_invite_request_completed_def split: option.split)
next
  case (EvResponse r)
  then show ?thesis
    by (simp add: server_process_def Let_def on_invite_tu_response_def on_non_invite_tu_response_def)
next
  case (EvTimer k)
  then show ?thesis
    by (simp add: server_process_def Let_def on_invite_timer_g_def on_invite_timer_h_def
        server_terminate_def server_terminate_with_failure_def split: option.split)
qed (simp add: server_process_def server_terminate_with_failure_def)

lemma server_process_wf:
  "wf_server t \<Longrightarrow> wf_server (fst (server_process t ev now)) \<and>
     st_request (fst (server_process t ev now)) = st_request t"
  using server_process_ok [of t ev now] by (simp add: server_step_ok_def split: prod.splits)

lemma server_run_no_deliver:
  assumes "wf_server t" "\<forall>(ev, now) \<in> set evs. retransmission_of (st_request t) ev"
  shows "\<not> list_ex is_deliver (snd (server_run t evs))"
  using assms
proof (induction evs arbitrary: t)
  case (Cons e evs)
  obtain ev now where e: "e = (ev, now)" by (cases e)
  note step = server_process_wf [OF Cons.prems(1), of ev now]
  have "\<not> list_ex is_deliver (snd (server_run (fst (server_process t ev now)) evs))"
    using Cons.prems(2) step by (intro Cons.IH) auto
  moreover have "\<not> list_ex is_deliver (snd (server_process t ev now))"
    using Cons.prems by (intro server_process_no_deliver) (auto simp: e)
  ultimately show ?case
    by (simp add: e case_prod_beta)
qed simp

section \<open>Properties\<close>

text \<open>
  C15. A server transaction answers with one final response. Over any sequence of events at any
  times, two final responses that it sends are the same message, and each message that it sends
  is a response that the transaction user supplied.
\<close>

theorem server_one_final:
  assumes "is_request req" "server_run (server_new req c) evs = (t, out)"
    "SendMessage m \<in> set out"
  shows "(\<exists>now. (EvResponse m, now) \<in> set evs) \<and>
    (\<forall>m'. SendMessage m' \<in> set out \<and> is_final (code_or_zero m) \<and> is_final (code_or_zero m') \<longrightarrow> m' = m)"
proof -
  have ok: "server_run_ok (server_new req c) evs (t, out)"
    using server_run_okI [OF wf_server_new [OF assms(1)], of c evs] assms(2) by simp
  have "m \<in> (\<Union>(ev, now) \<in> set evs. event_responses ev)"
    using ok assms(3) unfolding server_run_ok_def
    by (auto simp: sends_def cached_def server_new_def Let_def subset_iff)
  then have "\<exists>now. (EvResponse m, now) \<in> set evs"
    by (auto simp: event_responses_def split: transaction_event.splits)
  with ok assms(3) show ?thesis
    by (auto simp: server_run_ok_def final_sends_def)
qed

theorem server_one_final_witness:
  "\<exists>t out. server_run (server_new (sample_request Bye 2 Bye) default_config)
      [(EvResponse (sample_response 200 2 Bye), 5), (EvResponse (sample_response 500 2 Bye), 6),
       (EvRequest (sample_request Bye 2 Bye), 9)] = (t, out) \<and>
    SendMessage (sample_response 200 2 Bye) \<in> set out \<and>
    (\<forall>m'. SendMessage m' \<in> set out \<and> is_final (code_or_zero m') \<longrightarrow> m' = sample_response 200 2 Bye)"
proof -
  let ?evs = "[(EvResponse (sample_response 200 2 Bye), 5), (EvResponse (sample_response 500 2 Bye), 6),
       (EvRequest (sample_request Bye 2 Bye), 9)]"
  obtain t out where run: "server_run (server_new (sample_request Bye 2 Bye) default_config) ?evs = (t, out)"
    by fastforce
  have code: "code_or_zero (sample_response 200 2 Bye) = 200"
    by (simp add: sample_response_def status_line_new_def code_or_zero_def)
  have "SendMessage (sample_response 200 2 Bye)
      \<in> set (snd (server_run (server_new (sample_request Bye 2 Bye) default_config)
           ((EvResponse (sample_response 200 2 Bye), 5) # rest)))" for rest
    using code
    by (simp add: server_new_def Let_def server_process_def on_non_invite_tu_response_def
        is_provisional_def is_final_def sample_request_def request_line_new_def case_prod_beta)
  from this [of "tl ?evs"] run have sent: "SendMessage (sample_response 200 2 Bye) \<in> set out"
    by (simp del: server_run.simps)
  from server_one_final [OF sample_is_request(1) run sent] run sent code show ?thesis
    by (intro exI conjI) (assumption | simp add: is_final_def del: server_run.simps)+
qed

text \<open>
  C16. A request is delivered once. After the delivery made by \<open>bootstrap\<close>, no sequence of
  responses, timers, transport errors and retransmissions (requests with the method of the
  transaction) makes the transaction deliver a message again.
\<close>

theorem server_delivers_once:
  assumes "is_request req" "\<forall>(ev, now) \<in> set evs. retransmission_of req ev"
  shows "filter is_deliver (snd (server_bootstrap (server_new req c))
            @ snd (server_run (server_new req c) evs)) = [Deliver req]"
proof -
  have req: "st_request (server_new req c) = req"
    by (simp add: server_new_def Let_def)
  have "\<not> list_ex is_deliver (snd (server_run (server_new req c) evs))"
    using assms wf_server_new req by (intro server_run_no_deliver) auto
  then show ?thesis
    by (auto simp: server_bootstrap_def req filter_empty_conv list_ex_iff)
qed

theorem server_delivers_once_witness:
  "filter is_deliver (snd (server_bootstrap (server_new (sample_request Bye 2 Bye) default_config))
      @ snd (server_run (server_new (sample_request Bye 2 Bye) default_config)
          [(EvRequest (sample_request Bye 2 Bye), 5), (EvTransportError, 6)]))
     = [Deliver (sample_request Bye 2 Bye)]"
  by (rule server_delivers_once [OF sample_is_request(1)]) (simp add: retransmission_of_def)

text \<open>
  A provisional response is still sent after a CANCEL. The comment on \<open>on_invite_cancel\<close> says
  that the \<open>cancelled\<close> flag prevents this, but no operation reads the flag: for an INVITE
  transaction that gets a CANCEL and then a provisional response, the response goes out.
\<close>

theorem provisional_after_cancel:
  assumes "request_method req = Some Invite" "request_method cancel = Some Cancel"
    "is_provisional (code_or_zero resp)"
  shows "snd (server_run (server_new req c) [(EvRequest cancel, n1), (EvResponse resp, n2)])
    = [Deliver cancel, Failure TransactionCancelled, SendMessage resp]"
  using assms
  by (simp add: server_new_def server_process_def on_invite_request_def on_invite_cancel_def
      on_invite_tu_response_def Let_def)

theorem provisional_after_cancel_witness:
  "snd (server_run (server_new (sample_request Invite 1 Invite) default_config)
      [(EvRequest (sample_request Cancel 1 Invite), 5), (EvResponse (sample_response 180 1 Invite), 6)])
    = [Deliver (sample_request Cancel 1 Invite), Failure TransactionCancelled,
       SendMessage (sample_response 180 1 Invite)]"
  by (rule provisional_after_cancel)
     (simp_all add: sample_request_def sample_response_def request_line_new_def status_line_new_def
        code_or_zero_def is_provisional_def)

end
