(* ===== verification/BoundedTable.thy ===== *)
theory BoundedTable
  imports Prelude "HOL-Library.Multiset"
begin

text \<open>
  The contract of the tables with a maximum size. Several components call an operation that makes
  room in a table before they insert into it: \<open>ensure_capacity\<close> of the transaction and the dialog
  manager, \<open>evict_if_needed\<close> of the rate limiter and others. The locales name what such a client
  relies on, and the lemmas about insertion are proved once here.
\<close>

locale bounded_table =
  fixes make_room :: "nat \<Rightarrow> ('k, 'v) table \<Rightarrow> ('k, 'v) table"
  assumes make_room_subset: "set (make_room mx t) \<subseteq> set t"
    and make_room_wf: "wf_table t \<Longrightarrow> wf_table (make_room mx t)"
    and make_room_length: "0 < mx \<Longrightarrow> length t \<le> mx \<Longrightarrow> length (make_room mx t) < mx"
begin

lemma insert_length:
  "0 < mx \<Longrightarrow> length t \<le> mx \<Longrightarrow> length (AList.update k v (make_room mx t)) \<le> mx"
  using make_room_length [of mx t] by (simp add: length_update_le)

lemma insert_wf: "wf_table t \<Longrightarrow> wf_table (AList.update k v (make_room mx t))"
  by (simp add: wf_table_update make_room_wf)

lemma insert_subset: "set (AList.update k v (make_room mx t)) \<subseteq> insert (k, v) (set t)"
  using make_room_subset [of mx t] set_table_update [of k v "make_room mx t"] by blast

lemma insert_all:
  "(\<forall>p \<in> set t. P p) \<Longrightarrow> P (k, v) \<Longrightarrow> \<forall>p \<in> set (AList.update k v (make_room mx t)). P p"
  using insert_subset by blast

lemma make_room_lookup:
  "wf_table t \<Longrightarrow> map_of (make_room mx t) k = Some v \<Longrightarrow> map_of t k = Some v"
  using make_room_subset [of mx t] by (meson map_of_SomeD map_of_is_SomeI subsetD)

lemma insert_lookup:
  assumes "wf_table t" "map_of (AList.update k v (make_room mx t)) k' = Some v'"
  shows "if k' = k then v' = v else map_of t k' = Some v'"
  using assms make_room_lookup by (auto simp: map_of_table_update split: if_splits)

end

text \<open>A table that gives up at most one entry, the oldest by a time stamp, and only when it is full.\<close>

locale lru_table = bounded_table make_room
  for make_room :: "nat \<Rightarrow> ('k, 'v) table \<Rightarrow> ('k, 'v) table" +
  fixes stamp :: "'v \<Rightarrow> nat"
    and live :: "'v \<Rightarrow> bool"
  assumes make_room_below: "length t < mx \<Longrightarrow> make_room mx t = t"
    and make_room_one:
      "0 < mx \<Longrightarrow> mx \<le> length t \<Longrightarrow> \<forall>p \<in> set t. live (snd p) \<Longrightarrow>
         \<exists>k v. (k, v) \<in> set t \<and> make_room mx t = AList.delete k t
             \<and> (\<forall>(k', v') \<in> set t. stamp v \<le> stamp v')"
begin

lemma recent_survive:
  assumes "0 < mx" "wf_table t" "\<forall>p \<in> set t. live (snd p)"
    "(k, v) \<in> set t" "(k', v') \<in> set t" "stamp v' < stamp v"
  shows "map_of (make_room mx t) k = Some v"
proof (cases "length t < mx")
  case True
  with assms show ?thesis by (simp add: make_room_below)
next
  case False
  then obtain k0 v0 where k0: "(k0, v0) \<in> set t" "make_room mx t = AList.delete k0 t"
    "\<forall>(k', v') \<in> set t. stamp v0 \<le> stamp v'"
    using make_room_one [OF assms(1) _ assms(3)] by auto
  have "v = v0" if "k = k0"
    using eq_key_imp_eq_value [OF assms(2)] assms(4) k0(1) that by blast
  then have "k \<noteq> k0"
    using assms(5,6) k0(3) by fastforce
  with k0 assms show ?thesis by (simp add: map_of_table_delete)
qed

end

section \<open>Evicting the oldest entry\<close>

text \<open>
  The strategy of both managers: nothing below the maximum, else one dead entry, else the entry
  with the least time stamp.
\<close>

definition evict_oldest ::
    "('v \<Rightarrow> bool) \<Rightarrow> ('v \<Rightarrow> nat) \<Rightarrow> nat \<Rightarrow> ('k, 'v) table \<Rightarrow> ('k, 'v) table" where
  "evict_oldest dead stamp mx t =
     (if mx = 0 \<or> length t < mx then t
      else case find (\<lambda>(_, e). dead e) t of
             Some (k, _) \<Rightarrow> AList.delete k t
           | None \<Rightarrow>
               (case min_by_key (\<lambda>(_, e). stamp e) t of
                  Some (k, _) \<Rightarrow> AList.delete k t
                | None \<Rightarrow> t))"

lemma evict_oldest_cases:
  "evict_oldest dead stamp mx t = t \<and> (mx = 0 \<or> length t < mx)
   \<or> (\<exists>k e. (k, e) \<in> set t \<and> 0 < mx \<and> mx \<le> length t \<and> evict_oldest dead stamp mx t = AList.delete k t
        \<and> (dead e
           \<or> (\<forall>(k', e') \<in> set t. stamp e \<le> stamp e')))"
proof (cases "mx = 0 \<or> length t < mx")
  case True
  then show ?thesis by (simp add: evict_oldest_def)
next
  case full: False
  show ?thesis
  proof (cases "find (\<lambda>(_, e). dead e) t")
    case None
    from full have "t \<noteq> []" by auto
    then obtain k e where min: "min_by_key (\<lambda>(_, e). stamp e) t = Some (k, e)"
      by (cases "min_by_key (\<lambda>(_, e). stamp e) t") auto
    from min_by_key_SomeD [OF min] have "(k, e) \<in> set t"
      "\<forall>(k', e') \<in> set t. stamp e \<le> stamp e'" by auto
    moreover have "evict_oldest dead stamp mx t = AList.delete k t"
      using None full min by (simp add: evict_oldest_def)
    ultimately show ?thesis using full by (intro disjI2 exI [of _ k] exI [of _ e]) simp
  next
    case (Some p)
    then obtain k e where "p = (k, e)" "(k, e) \<in> set t" "dead e"
      by (force simp: find_Some_iff dest: nth_mem)
    with Some full show ?thesis by (auto simp: evict_oldest_def)
  qed
qed

lemma evict_oldest_lru: "lru_table (evict_oldest dead stamp) stamp (\<lambda>v. \<not> dead v)"
proof
  show "set (evict_oldest dead stamp mx t) \<subseteq> set t" for mx and t
    using evict_oldest_cases [of dead stamp mx t] by (auto simp: set_table_delete)
  show "wf_table t \<Longrightarrow> wf_table (evict_oldest dead stamp mx t)" for mx and t
    using evict_oldest_cases [of dead stamp mx t] by (auto simp: wf_table_delete)
  show "length (evict_oldest dead stamp mx t) < mx" if "0 < mx" "length t \<le> mx" for mx and t
    using evict_oldest_cases [of dead stamp mx t] that by (force dest: length_delete_less [OF imageI])
  show "length t < mx \<Longrightarrow> evict_oldest dead stamp mx t = t" for mx and t
    by (simp add: evict_oldest_def)
  show "\<exists>k v. (k, v) \<in> set t \<and> evict_oldest dead stamp mx t = AList.delete k t
          \<and> (\<forall>(k', v') \<in> set t. stamp v \<le> stamp v')"
    if "0 < mx" "mx \<le> length t" "\<forall>p \<in> set t. \<not> dead (snd p)"
    for mx and t
    using evict_oldest_cases [of dead stamp mx t] that by fastforce
qed

end
