(* ===== verification/TransactionManager.thy ===== *)
theory TransactionManager
  imports ClientTransaction ServerTransaction BoundedTable
begin

text \<open>
  The transaction manager: \<open>sip/transaction/manager.rs\<close> of \<open>cheetah-gb28181-core\<close>, with the sum
  of both transaction kinds from \<open>state_machine.rs\<close>. The routing target is a type parameter. An
  operation returns \<open>None\<close> only for the panic of \<open>build_ack\<close>; the reachable states never do.
\<close>

section \<open>Either kind of transaction\<close>

datatype transaction = ClientTx client_transaction | ServerTx server_transaction

definition tx_new_client :: "sip_message \<Rightarrow> transaction_config \<Rightarrow> transaction option" where
  "tx_new_client request config =
     (if \<not> is_request request then None else Some (ClientTx (client_new request config)))"

definition tx_new_server :: "sip_message \<Rightarrow> transaction_config \<Rightarrow> transaction option" where
  "tx_new_server request config =
     (if \<not> is_request request then None else Some (ServerTx (server_new request config)))"

fun tx_process ::
    "transaction \<Rightarrow> transaction_event \<Rightarrow> duration \<Rightarrow> (transaction \<times> transaction_output list) option" where
  "tx_process (ClientTx t) ev now =
     map_option (\<lambda>(t', out). (ClientTx t', out)) (client_process t ev now)"
| "tx_process (ServerTx t) ev now =
     (case server_process t ev now of (t', out) \<Rightarrow> Some (ServerTx t', out))"

fun tx_is_terminated :: "transaction \<Rightarrow> bool" where
  "tx_is_terminated (ClientTx t) = client_is_terminated t"
| "tx_is_terminated (ServerTx t) = server_is_terminated t"

section \<open>State of the manager\<close>

record manager_config =
  mc_transaction :: transaction_config
  mc_branch_policy :: branch_policy
  mc_max_transactions :: nat
  mc_ttl :: duration

definition default_manager_config :: manager_config where
  "default_manager_config =
     \<lparr>mc_transaction = default_config, mc_branch_policy = Strict, mc_max_transactions = 4096,
      mc_ttl = secs 64\<rparr>"

datatype 't manager_output =
    MSend sip_message 't
  | MDeliver sip_message
  | MFailure sip_error_kind

record 't request_outcome =
  ro_key :: "transaction_key option"
  ro_deliver :: bool
  ro_outputs :: "'t manager_output list"

record 't entry =
  e_transaction :: transaction
  e_target :: 't
  e_timers :: "(timer_kind, duration) table"
  e_last_activity :: duration

type_synonym 't entries = "(transaction_key, 't entry) table"

record 't manager =
  m_config :: manager_config
  m_client :: "'t entries"
  m_server :: "'t entries"

definition entry_new :: "transaction \<Rightarrow> 't \<Rightarrow> duration \<Rightarrow> 't entry" where
  "entry_new tx target now =
     \<lparr>e_transaction = tx, e_target = target, e_timers = [], e_last_activity = now\<rparr>"

text \<open>One output in the loop of \<open>Entry::absorb\<close>: the armed timers and the output it becomes.\<close>

fun absorb_output ::
    "'t \<Rightarrow> (timer_kind, duration) table \<Rightarrow> transaction_output
       \<Rightarrow> (timer_kind, duration) table \<times> 't manager_output list" where
  "absorb_output tgt ts (SendMessage m) = (ts, [MSend m tgt])"
| "absorb_output tgt ts (Deliver m) = (ts, [MDeliver m])"
| "absorb_output tgt ts (SetTimer k d) = (AList.update k d ts, [])"
| "absorb_output tgt ts (CancelTimer k) = (AList.delete k ts, [])"
| "absorb_output tgt ts Complete = (ts, [])"
| "absorb_output tgt ts (Failure kind) = (ts, [MFailure kind])"

fun absorb_outputs ::
    "'t \<Rightarrow> (timer_kind, duration) table \<Rightarrow> transaction_output list
       \<Rightarrow> (timer_kind, duration) table \<times> 't manager_output list" where
  "absorb_outputs tgt ts [] = (ts, [])"
| "absorb_outputs tgt ts (x # xs) =
     (let (ts1, o1) = absorb_output tgt ts x; (ts2, o2) = absorb_outputs tgt ts1 xs
      in (ts2, o1 @ o2))"

definition absorb ::
    "'t entry \<Rightarrow> transaction_output list \<Rightarrow> duration \<Rightarrow> 't entry \<times> 't manager_output list \<times> bool" where
  "absorb e raw now =
     (let (ts, sink) = absorb_outputs (e_target e) (e_timers e) raw;
          e' = e\<lparr>e_timers := ts, e_last_activity := now\<rparr>
      in (e', sink, Complete \<in> set raw \<or> tx_is_terminated (e_transaction e)))"

definition due_timers :: "'t entry \<Rightarrow> duration \<Rightarrow> timer_kind list" where
  "due_timers e now = sort_key timer_ord (map fst (filter (\<lambda>(_, deadline). deadline \<le> now) (e_timers e)))"

text \<open>An event for one entry: \<open>process\<close> followed by \<open>absorb\<close>.\<close>

definition entry_event ::
    "'t entry \<Rightarrow> transaction_event \<Rightarrow> duration
       \<Rightarrow> ('t entry \<times> transaction_output list \<times> 't manager_output list \<times> bool) option" where
  "entry_event e ev now =
     do { (tx, raw) \<leftarrow> tx_process (e_transaction e) ev now;
          let (e', sink, terminated) = absorb (e\<lparr>e_transaction := tx\<rparr>) raw now;
          Some (e', raw, sink, terminated) }"

section \<open>Operations\<close>

definition manager_new :: "manager_config \<Rightarrow> 't manager" where
  "manager_new config = \<lparr>m_config = config, m_client = [], m_server = []\<rparr>"

definition server_len :: "'t manager \<Rightarrow> nat" where
  "server_len m = length (m_server m)"

definition client_len :: "'t manager \<Rightarrow> nat" where
  "client_len m = length (m_client m)"

definition server_key :: "'t manager \<Rightarrow> sip_message \<Rightarrow> transaction_key option" where
  "server_key m message = key_for_message message Uas (mc_branch_policy (m_config m))"

definition client_key :: "'t manager \<Rightarrow> sip_message \<Rightarrow> transaction_key option" where
  "client_key m message = key_for_message message Uac (mc_branch_policy (m_config m))"

definition ensure_capacity :: "nat \<Rightarrow> 't entries \<Rightarrow> 't entries" where
  "ensure_capacity mx t =
     (if mx = 0 \<or> length t < mx then t
      else case find (\<lambda>(_, e). tx_is_terminated (e_transaction e)) t of
             Some (k, _) \<Rightarrow> AList.delete k t
           | None \<Rightarrow>
               (case min_by_key (\<lambda>(_, e). e_last_activity e) t of
                  Some (k, _) \<Rightarrow> AList.delete k t
                | None \<Rightarrow> t))"

text \<open>\<open>get_mut\<close>, the event, and the removal of a terminated entry or its update in place.\<close>

definition store_back :: "transaction_key \<Rightarrow> 't entry \<Rightarrow> bool \<Rightarrow> 't entries \<Rightarrow> 't entries" where
  "store_back k e terminated t = (if terminated then AList.delete k t else AList.update k e t)"

fun is_mdeliver :: "'t manager_output \<Rightarrow> bool" where
  "is_mdeliver (MDeliver _) = True"
| "is_mdeliver _ = False"

definition handle_request ::
    "'t manager \<Rightarrow> sip_message \<Rightarrow> 't \<Rightarrow> duration \<Rightarrow> ('t manager \<times> 't request_outcome) option" where
  "handle_request m message target now =
     (case request_method message of
        None \<Rightarrow> Some (m, \<lparr>ro_key = None, ro_deliver = False, ro_outputs = []\<rparr>)
      | Some meth \<Rightarrow>
     (case server_key m message of
        None \<Rightarrow> Some (m, \<lparr>ro_key = None, ro_deliver = True, ro_outputs = []\<rparr>)
      | Some key \<Rightarrow>
     (case map_of (m_server m) key of
        Some e \<Rightarrow>
          do { (e', raw, outputs, terminated) \<leftarrow> entry_event e (EvRequest message) now;
               Some (m\<lparr>m_server := store_back key e' terminated (m_server m)\<rparr>,
                     \<lparr>ro_key = Some key, ro_deliver = list_ex is_deliver raw,
                      ro_outputs = filter (\<lambda>x. \<not> is_mdeliver x) outputs\<rparr>) }
      | None \<Rightarrow>
          if meth = Ack
          then Some (m, \<lparr>ro_key = None, ro_deliver = True, ro_outputs = []\<rparr>)
          else (case tx_new_server message (mc_transaction (m_config m)) of
             None \<Rightarrow> Some (m, \<lparr>ro_key = None, ro_deliver = True, ro_outputs = []\<rparr>)
           | Some tx \<Rightarrow>
               (let srv = ensure_capacity (mc_max_transactions (m_config m)) (m_server m);
                    (tx', bootstrap) = (case tx of
                        ServerTx t \<Rightarrow> (case server_bootstrap t of (t', out) \<Rightarrow> (ServerTx t', out))
                      | ClientTx t \<Rightarrow> (ClientTx t, []));
                    (e, outputs, terminated) = absorb (entry_new tx' target now) bootstrap now
                in Some (m\<lparr>m_server := (if \<not> terminated then AList.update key e srv else srv)\<rparr>,
                         \<lparr>ro_key = Some key, ro_deliver = list_ex is_deliver bootstrap,
                          ro_outputs = filter (\<lambda>x. \<not> is_mdeliver x) outputs\<rparr>))))))"

definition provide_response ::
    "'t manager \<Rightarrow> transaction_key \<Rightarrow> sip_message \<Rightarrow> duration
       \<Rightarrow> ('t manager \<times> 't manager_output list) option" where
  "provide_response m key response now =
     (case map_of (m_server m) key of
        None \<Rightarrow> Some (m, [])
      | Some e \<Rightarrow>
          do { (e', raw, outputs, terminated) \<leftarrow> entry_event e (EvResponse response) now;
               Some (m\<lparr>m_server := store_back key e' terminated (m_server m)\<rparr>, outputs) })"

definition handle_response ::
    "'t manager \<Rightarrow> sip_message \<Rightarrow> duration \<Rightarrow> ('t manager \<times> 't manager_output list) option" where
  "handle_response m message now =
     (if is_request message then Some (m, [])
      else case client_key m message of
        None \<Rightarrow> Some (m, [])
      | Some key \<Rightarrow>
     (case map_of (m_client m) key of
        None \<Rightarrow> Some (m, [])
      | Some e \<Rightarrow>
          do { (e', raw, outputs, terminated) \<leftarrow> entry_event e (EvResponse message) now;
               Some (m\<lparr>m_client := store_back key e' terminated (m_client m)\<rparr>, outputs) }))"

definition start_client_transaction ::
    "'t manager \<Rightarrow> sip_message \<Rightarrow> 't \<Rightarrow> duration \<Rightarrow> 't manager \<times> 't manager_output list" where
  "start_client_transaction m request target now =
     (case client_key m request of
        None \<Rightarrow> (m, [])
      | Some key \<Rightarrow>
     (case tx_new_client request (mc_transaction (m_config m)) of
        None \<Rightarrow> (m, [])
      | Some tx \<Rightarrow>
          (let cl = ensure_capacity (mc_max_transactions (m_config m)) (m_client m);
               (tx', bootstrap) = (case tx of
                   ClientTx t \<Rightarrow> (case client_bootstrap t now of (t', out) \<Rightarrow> (ClientTx t', out))
                 | ServerTx t \<Rightarrow> (ServerTx t, []));
               (e, outputs, terminated) = absorb (entry_new tx' target now) bootstrap now
           in (m\<lparr>m_client := (if \<not> terminated then AList.update key e cl else cl)\<rparr>, outputs))))"

text \<open>The inner loop of \<open>tick_map\<close> over the due timers of one entry; it stops at termination.\<close>

fun fire_timers ::
    "duration \<Rightarrow> timer_kind list \<Rightarrow> 't entry \<Rightarrow> ('t entry \<times> 't manager_output list \<times> bool) option" where
  "fire_timers now [] e = Some (e, [], False)"
| "fire_timers now (k # ks) e =
     (if map_of (e_timers e) k = None then fire_timers now ks e
      else do {
        (e1, raw, o1, terminated) \<leftarrow>
          entry_event (e\<lparr>e_timers := AList.delete k (e_timers e)\<rparr>) (EvTimer k) now;
        if terminated then Some (e1, o1, True)
        else do { (e2, o2, tm) \<leftarrow> fire_timers now ks e1; Some (e2, o1 @ o2, tm) } })"

definition tick_entry ::
    "duration \<Rightarrow> duration \<Rightarrow> 't entry \<Rightarrow> ('t entry \<times> 't manager_output list \<times> bool) option" where
  "tick_entry ttl now e =
     do { (e', outputs, terminated) \<leftarrow> fire_timers now (due_timers e now) e;
          Some (e', outputs,
                terminated \<or> tx_is_terminated (e_transaction e') \<or> ttl \<le> now - e_last_activity e') }"

fun tick_map ::
    "duration \<Rightarrow> duration \<Rightarrow> 't entries \<Rightarrow> ('t entries \<times> 't manager_output list) option" where
  "tick_map ttl now [] = Some ([], [])"
| "tick_map ttl now ((k, e) # t) =
     do { (e', o1, remove) \<leftarrow> tick_entry ttl now e;
          (t', o2) \<leftarrow> tick_map ttl now t;
          Some (if remove then t' else (k, e') # t', o1 @ o2) }"

definition tick ::
    "'t manager \<Rightarrow> duration \<Rightarrow> ('t manager \<times> 't manager_output list) option" where
  "tick m now =
     do { (srv, o1) \<leftarrow> tick_map (mc_ttl (m_config m)) now (m_server m);
          (cl, o2) \<leftarrow> tick_map (mc_ttl (m_config m)) now (m_client m);
          Some (m\<lparr>m_server := srv, m_client := cl\<rparr>, o1 @ o2) }"

section \<open>Making room\<close>

lemma ensure_capacity_eq:
  "ensure_capacity = evict_oldest (\<lambda>e. tx_is_terminated (e_transaction e)) e_last_activity"
  by (intro ext) (simp add: ensure_capacity_def evict_oldest_def)

interpretation tx_table: lru_table ensure_capacity e_last_activity "\<lambda>e. \<not> tx_is_terminated (e_transaction e)"
  unfolding ensure_capacity_eq by (rule evict_oldest_lru)

section \<open>The invariant\<close>

fun tx_request :: "transaction \<Rightarrow> sip_message" where
  "tx_request (ClientTx t) = ct_request t"
| "tx_request (ServerTx t) = st_request t"

fun wf_tx :: "transaction_role \<Rightarrow> transaction \<Rightarrow> bool" where
  "wf_tx Uac (ClientTx t) = wf_client t"
| "wf_tx Uas (ServerTx t) = wf_server t"
| "wf_tx _ _ = False"

definition entry_ok :: "transaction_role \<Rightarrow> branch_policy \<Rightarrow> transaction_key \<Rightarrow> 't entry \<Rightarrow> bool" where
  "entry_ok role pol k e \<longleftrightarrow>
     wf_tx role (e_transaction e) \<and> \<not> tx_is_terminated (e_transaction e)
     \<and> key_for_message (tx_request (e_transaction e)) role pol = Some k"

definition entries_ok :: "transaction_role \<Rightarrow> manager_config \<Rightarrow> 't entries \<Rightarrow> bool" where
  "entries_ok role cfg t \<longleftrightarrow>
     wf_table t
     \<and> (\<forall>p \<in> set t. entry_ok role (mc_branch_policy cfg) (fst p) (snd p))
     \<and> (0 < mc_max_transactions cfg \<longrightarrow> length t \<le> mc_max_transactions cfg)"

definition wf_manager :: "'t manager \<Rightarrow> bool" where
  "wf_manager m \<longleftrightarrow>
     entries_ok Uac (m_config m) (m_client m) \<and> entries_ok Uas (m_config m) (m_server m)"

lemma wf_manager_new: "wf_manager (manager_new cfg)"
  by (simp add: wf_manager_def manager_new_def entries_ok_def)

lemma tx_process_ok:
  assumes "wf_tx role tx"
  shows "\<exists>tx' raw. tx_process tx ev now = Some (tx', raw) \<and> wf_tx role tx' \<and> tx_request tx' = tx_request tx
     \<and> (Complete \<in> set raw \<longrightarrow> tx_is_terminated tx')"
  using assms
proof (cases "(role, tx)" rule: wf_tx.cases)
  case (1 t)
  with assms client_process_ok [of t ev now] show ?thesis
    by (auto simp: client_step_ok_def)
next
  case (2 t)
  with assms server_process_ok [of t ev now] show ?thesis
    by (auto simp: server_step_ok_def split: prod.splits)
qed auto

lemma absorb_fields:
  assumes "absorb e raw now = (e', sink, tm)"
  shows "e_transaction e' = e_transaction e" "e_target e' = e_target e" "e_last_activity e' = now"
    "tm = (Complete \<in> set raw \<or> tx_is_terminated (e_transaction e))"
    "(e_timers e', sink) = absorb_outputs (e_target e) (e_timers e) raw"
  using assms by (auto simp: absorb_def Let_def split: prod.splits)

lemma entry_event_ok:
  assumes "entry_ok role pol k e"
  obtains e' raw sink tm where "entry_event e ev now = Some (e', raw, sink, tm)"
    "\<not> tm \<Longrightarrow> entry_ok role pol k e'" "tm \<longleftrightarrow> tx_is_terminated (e_transaction e')"
    "e_target e' = e_target e" "e_last_activity e' = now"
    "tx_process (e_transaction e) ev now = Some (e_transaction e', raw)"
    "(e_timers e', sink) = absorb_outputs (e_target e) (e_timers e) raw"
proof -
  obtain tx' raw where tx: "tx_process (e_transaction e) ev now = Some (tx', raw)" "wf_tx role tx'"
    "tx_request tx' = tx_request (e_transaction e)" "Complete \<in> set raw \<longrightarrow> tx_is_terminated tx'"
    using tx_process_ok assms unfolding entry_ok_def by blast
  obtain e' sink tm where ab: "absorb (e\<lparr>e_transaction := tx'\<rparr>) raw now = (e', sink, tm)"
    by (metis prod_cases3)
  note f = absorb_fields [OF ab]
  have "entry_event e ev now = Some (e', raw, sink, tm)"
    by (simp add: entry_event_def tx(1) ab)
  moreover have "tm \<longleftrightarrow> tx_is_terminated (e_transaction e')" using f tx(4) by auto
  moreover from this have "\<not> tm \<Longrightarrow> entry_ok role pol k e'"
    using f tx assms by (simp add: entry_ok_def)
  ultimately show ?thesis
    using f tx(1) by (intro that [of e' raw sink tm]) simp_all
qed

lemma entry_ok_timers [simp]: "entry_ok role pol k (e\<lparr>e_timers := ts\<rparr>) = entry_ok role pol k e"
  by (simp add: entry_ok_def)

lemma fire_timers_ok:
  assumes "entry_ok role pol k e"
  shows "\<exists>e' out tm. fire_timers now ks e = Some (e', out, tm) \<and> (\<not> tm \<longrightarrow> entry_ok role pol k e')"
  using assms
proof (induction ks arbitrary: e)
  case (Cons x ks)
  show ?case
  proof (cases "map_of (e_timers e) x = None")
    case True
    with Cons show ?thesis by simp
  next
    case False
    from Cons.prems have "entry_ok role pol k (e\<lparr>e_timers := AList.delete x (e_timers e)\<rparr>)" by simp
    then obtain e1 raw o1 tm where
      1: "entry_event (e\<lparr>e_timers := AList.delete x (e_timers e)\<rparr>) (EvTimer x) now = Some (e1, raw, o1, tm)"
      "\<not> tm \<Longrightarrow> entry_ok role pol k e1"
      by (rule entry_event_ok) blast
    show ?thesis
    proof (cases tm)
      case True
      with 1 False show ?thesis by auto
    next
      case tm: False
      with 1 Cons.IH obtain e2 o2 t2 where "fire_timers now ks e1 = Some (e2, o2, t2)"
        "\<not> t2 \<longrightarrow> entry_ok role pol k e2" by blast
      with 1 False tm show ?thesis by auto
    qed
  qed
qed (simp add: exI [of _ False])

lemma tick_entry_ok:
  assumes "entry_ok role pol k e"
  shows "\<exists>e' out rm. tick_entry ttl now e = Some (e', out, rm) \<and> (\<not> rm \<longrightarrow> entry_ok role pol k e')"
  using fire_timers_ok [OF assms, of now "due_timers e now"] by (fastforce simp: tick_entry_def)

lemma tick_map_ok:
  assumes "\<forall>p \<in> set t. entry_ok role pol (fst p) (snd p)" "wf_table t"
  shows "\<exists>t' out. tick_map ttl now t = Some (t', out) \<and> wf_table t' \<and> length t' \<le> length t
     \<and> (\<forall>p \<in> set t'. entry_ok role pol (fst p) (snd p)) \<and> fst ` set t' \<subseteq> fst ` set t"
  using assms
proof (induction t)
  case (Cons p t)
  obtain k e where p: "p = (k, e)" by (cases p)
  from Cons.prems p have "entry_ok role pol k e" by simp
  then obtain e' o1 rm where 1: "tick_entry ttl now e = Some (e', o1, rm)" "\<not> rm \<longrightarrow> entry_ok role pol k e'"
    using tick_entry_ok by metis
  from Cons obtain t' o2 where 2: "tick_map ttl now t = Some (t', o2)" "wf_table t'" "length t' \<le> length t"
    "\<forall>p \<in> set t'. entry_ok role pol (fst p) (snd p)" "fst ` set t' \<subseteq> fst ` set t" by auto
  from Cons.prems(2) p 2(5) have "k \<notin> fst ` set t'" by auto
  with 1 2 p show ?case by auto
qed simp

section \<open>Every operation keeps the invariant\<close>

lemma entries_ok_lookup:
  "entries_ok role cfg t \<Longrightarrow> map_of t k = Some e \<Longrightarrow> entry_ok role (mc_branch_policy cfg) k e"
  by (auto simp: entries_ok_def dest: map_of_SomeD)

lemma entries_ok_store_back:
  assumes "entries_ok role cfg t" "map_of t k = Some e0" "\<not> tm \<Longrightarrow> entry_ok role (mc_branch_policy cfg) k e"
  shows "entries_ok role cfg (store_back k e tm t)"
proof (cases tm)
  case True
  with assms show ?thesis
    using order_trans [OF length_delete_le' [of k t]]
    by (auto simp: entries_ok_def store_back_def table_simps)
next
  case False
  have "k \<in> fst ` set t" using assms(2) by (force dest: map_of_SomeD)
  with False assms show ?thesis
    by (auto simp: entries_ok_def store_back_def table_simps set_table_update_wf)
qed

lemma entries_ok_insert:
  assumes "entries_ok role cfg t" "entry_ok role (mc_branch_policy cfg) k e"
  shows "entries_ok role cfg (AList.update k e (ensure_capacity (mc_max_transactions cfg) t))"
  using assms tx_table.insert_wf [of t k e] tx_table.insert_length [of "mc_max_transactions cfg" t k e]
    tx_table.insert_all [of t "\<lambda>p. entry_ok role (mc_branch_policy cfg) (fst p) (snd p)" k e]
  by (auto simp: entries_ok_def)

lemma entry_new_server_ok:
  assumes "is_request msg" "key_for_message msg Uas pol = Some k"
    "absorb (entry_new (ServerTx (server_new msg c)) target now) [Deliver msg] now = (e, out, tm)"
  shows "\<not> tm \<and> entry_ok Uas pol k e \<and> out = [MDeliver msg] \<and> e_target e = target"
proof -
  have "\<not> server_is_terminated (server_new msg c)" "st_request (server_new msg c) = msg"
    by (simp_all add: server_is_terminated_def server_new_def Let_def)
  then show ?thesis
    using assms wf_server_new [OF assms(1), of c]
    by (auto simp: absorb_def entry_new_def entry_ok_def)
qed

definition start_timers :: "client_transaction \<Rightarrow> duration \<Rightarrow> (timer_kind, duration) table" where
  "start_timers t now =
     (if ct_is_invite t
      then [(TimerA, now + timer_a (ct_config t) 0), (TimerB, now + timer_b (ct_config t))]
      else [(TimerE, now + timer_e (ct_config t) 0), (TimerF, now + timer_f (ct_config t))])"

lemma entry_new_client_absorb:
  "absorb (entry_new (ClientTx t) target now) (snd (client_bootstrap t now)) now =
     (\<lparr>e_transaction = ClientTx t, e_target = target, e_timers = start_timers t now,
       e_last_activity = now\<rparr>, [MSend (ct_request t) target], client_is_terminated t)"
  by (auto simp: absorb_def entry_new_def client_bootstrap_def start_timers_def)

lemma handle_request_ok:
  assumes "wf_manager m"
  shows "\<exists>m' r. handle_request m msg target now = Some (m', r) \<and> wf_manager m' \<and> m_config m' = m_config m"
proof (cases "request_method msg")
  case None
  with assms show ?thesis by (simp add: handle_request_def)
next
  case meth: (Some meth)
  then have req: "is_request msg" by (cases msg) auto
  show ?thesis
  proof (cases "server_key m msg")
    case None
    with assms meth show ?thesis by (simp add: handle_request_def)
  next
    case key: (Some key)
    show ?thesis
    proof (cases "map_of (m_server m) key")
      case (Some e)
      have "entry_ok Uas (mc_branch_policy (m_config m)) key e"
        using Some assms entries_ok_lookup unfolding wf_manager_def by blast
      then obtain e' raw sink tm where ev: "entry_event e (EvRequest msg) now = Some (e', raw, sink, tm)"
        "\<not> tm \<Longrightarrow> entry_ok Uas (mc_branch_policy (m_config m)) key e'"
        by (rule entry_event_ok) blast
      with assms entries_ok_store_back [OF _ Some ev(2)] show ?thesis
        by (simp add: handle_request_def meth key Some wf_manager_def)
    next
      case None
      obtain e out tm where ab: "absorb (entry_new (ServerTx (server_new msg (mc_transaction (m_config m))))
          target now) [Deliver msg] now = (e, out, tm)" by (metis prod_cases3)
      from entry_new_server_ok [OF req _ ab] key
      have e: "\<not> tm" "entry_ok Uas (mc_branch_policy (m_config m)) key e"
        by (auto simp: server_key_def)
      have boot: "server_bootstrap (server_new msg c) = (server_new msg c, [Deliver msg])" for c
        by (simp add: server_bootstrap_def server_new_def Let_def)
      show ?thesis
        using assms e entries_ok_insert [of Uas "m_config m" "m_server m" key e]
        by (simp add: handle_request_def meth key None tx_new_server_def req boot ab wf_manager_def)
    qed
  qed
qed

lemma provide_response_ok:
  assumes "wf_manager m"
  shows "\<exists>m' out. provide_response m key resp now = Some (m', out) \<and> wf_manager m' \<and> m_config m' = m_config m"
proof (cases "map_of (m_server m) key")
  case None
  with assms show ?thesis by (simp add: provide_response_def)
next
  case (Some e)
  have "entry_ok Uas (mc_branch_policy (m_config m)) key e"
    using Some assms entries_ok_lookup unfolding wf_manager_def by blast
  then obtain e' raw sink tm where ev: "entry_event e (EvResponse resp) now = Some (e', raw, sink, tm)"
    "\<not> tm \<Longrightarrow> entry_ok Uas (mc_branch_policy (m_config m)) key e'"
    by (rule entry_event_ok) blast
  with assms entries_ok_store_back [OF _ Some ev(2)] show ?thesis
    by (simp add: provide_response_def Some wf_manager_def)
qed

lemma handle_response_ok:
  assumes "wf_manager m"
  shows "\<exists>m' out. handle_response m msg now = Some (m', out) \<and> wf_manager m' \<and> m_config m' = m_config m"
proof (cases "is_request msg \<or> client_key m msg = None \<or> map_of (m_client m) (the (client_key m msg)) = None")
  case True
  with assms show ?thesis by (auto simp: handle_response_def split: option.split)
next
  case False
  then obtain key e where key: "\<not> is_request msg" "client_key m msg = Some key" "map_of (m_client m) key = Some e"
    by auto
  have "entry_ok Uac (mc_branch_policy (m_config m)) key e"
    using key(3) assms entries_ok_lookup unfolding wf_manager_def by blast
  then obtain e' raw sink tm where ev: "entry_event e (EvResponse msg) now = Some (e', raw, sink, tm)"
    "\<not> tm \<Longrightarrow> entry_ok Uac (mc_branch_policy (m_config m)) key e'"
    by (rule entry_event_ok) blast
  with assms entries_ok_store_back [OF _ key(3) ev(2)] show ?thesis
    by (simp add: handle_response_def key wf_manager_def)
qed

definition started_entry :: "sip_message \<Rightarrow> transaction_config \<Rightarrow> 't \<Rightarrow> duration \<Rightarrow> 't entry" where
  "started_entry req c target now =
     \<lparr>e_transaction = ClientTx (client_new req c), e_target = target,
      e_timers = start_timers (client_new req c) now, e_last_activity = now\<rparr>"

lemma client_new_fields [simp]:
  "\<not> client_is_terminated (client_new req c)" "ct_request (client_new req c) = req"
  "ct_config (client_new req c) = c"
  "ct_is_invite (client_new req c) \<longleftrightarrow> request_method req = Some Invite"
  by (simp_all add: client_is_terminated_def client_new_def Let_def)

lemma start_client_eq:
  assumes "client_key m req = Some key" "is_request req"
  shows "start_client_transaction m req target now =
     (m\<lparr>m_client := AList.update key (started_entry req (mc_transaction (m_config m)) target now)
         (ensure_capacity (mc_max_transactions (m_config m)) (m_client m))\<rparr>, [MSend req target])"
proof -
  let ?t = "client_new req (mc_transaction (m_config m))"
  have "client_bootstrap ?t now = (?t, snd (client_bootstrap ?t now))"
    by (simp add: client_bootstrap_def)
  then show ?thesis
    using assms entry_new_client_absorb [of ?t target now]
    by (cases "client_bootstrap ?t now")
       (simp add: start_client_transaction_def tx_new_client_def started_entry_def)
qed

lemma start_client_ok:
  assumes "wf_manager m"
  shows "wf_manager (fst (start_client_transaction m req target now))
     \<and> m_config (fst (start_client_transaction m req target now)) = m_config m"
proof (cases "client_key m req = None \<or> \<not> is_request req")
  case True
  with assms show ?thesis
    by (auto simp: start_client_transaction_def tx_new_client_def split: option.split)
next
  case False
  then obtain key where key: "client_key m req = Some key" "is_request req" by auto
  let ?e = "started_entry req (mc_transaction (m_config m)) target now"
  have "entry_ok Uac (mc_branch_policy (m_config m)) key ?e"
    using key wf_client_new [OF key(2)] by (simp add: entry_ok_def client_key_def started_entry_def)
  then show ?thesis
    using assms entries_ok_insert [of Uac "m_config m" "m_client m" key ?e]
    by (simp add: start_client_eq [OF key] wf_manager_def)
qed

lemma tick_ok:
  assumes "wf_manager m"
  shows "\<exists>m' out. tick m now = Some (m', out) \<and> wf_manager m' \<and> m_config m' = m_config m"
proof -
  let ?pol = "mc_branch_policy (m_config m)" and ?ttl = "mc_ttl (m_config m)"
  obtain srv o1 where srv: "tick_map ?ttl now (m_server m) = Some (srv, o1)" "wf_table srv"
    "length srv \<le> length (m_server m)" "\<forall>p \<in> set srv. entry_ok Uas ?pol (fst p) (snd p)"
    using assms tick_map_ok [of "m_server m" Uas ?pol ?ttl now]
    by (auto simp: wf_manager_def entries_ok_def)
  obtain cl o2 where cl: "tick_map ?ttl now (m_client m) = Some (cl, o2)" "wf_table cl"
    "length cl \<le> length (m_client m)" "\<forall>p \<in> set cl. entry_ok Uac ?pol (fst p) (snd p)"
    using assms tick_map_ok [of "m_client m" Uac ?pol ?ttl now]
    by (auto simp: wf_manager_def entries_ok_def)
  from assms srv cl show ?thesis
    by (auto simp: tick_def wf_manager_def entries_ok_def)
qed

section \<open>Reachable states\<close>

text \<open>
  One call of a public operation, at any time and with any argument. A \<open>HashMap\<close> may list its
  entries in any order, which may change between calls: \<open>shuffle\<close> permutes the tables.
\<close>

inductive manager_step :: "'t manager \<Rightarrow> 't manager \<Rightarrow> bool" where
  request: "handle_request m msg target now = Some (m', r) \<Longrightarrow> manager_step m m'"
| tu_response: "provide_response m key resp now = Some (m', out) \<Longrightarrow> manager_step m m'"
| response: "handle_response m msg now = Some (m', out) \<Longrightarrow> manager_step m m'"
| start: "start_client_transaction m req target now = (m', out) \<Longrightarrow> manager_step m m'"
| ticked: "tick m now = Some (m', out) \<Longrightarrow> manager_step m m'"
| shuffle: "mset srv = mset (m_server m) \<Longrightarrow> mset cl = mset (m_client m) \<Longrightarrow>
     manager_step m (m\<lparr>m_server := srv, m_client := cl\<rparr>)"

lemma entries_ok_mset:
  assumes "entries_ok role cfg t" "mset t' = mset t"
  shows "entries_ok role cfg t'"
proof -
  have "mset (map fst t') = mset (map fst t)" using assms(2) by simp
  then have "wf_table t'" using assms(1) unfolding entries_ok_def
    by (metis mset_eq_imp_distinct_iff)
  with assms show ?thesis
    using mset_eq_setD [OF assms(2)] mset_eq_length [OF assms(2)] by (simp add: entries_ok_def)
qed

lemma manager_step_ok:
  "manager_step m m' \<Longrightarrow> wf_manager m \<Longrightarrow> wf_manager m' \<and> m_config m' = m_config m"
proof (induction rule: manager_step.induct)
  case (request m msg target now m' r)
  with handle_request_ok [of m msg target now] show ?case by auto
next
  case (tu_response m key resp now m' out)
  with provide_response_ok [of m key resp now] show ?case by auto
next
  case (response m msg now m' out)
  with handle_response_ok [of m msg now] show ?case by auto
next
  case (start m req target now m' out)
  with start_client_ok [of m req target now] show ?case by auto
next
  case (ticked m now m' out)
  with tick_ok [of m now] show ?case by auto
next
  case (shuffle srv m cl)
  then show ?case by (auto simp: wf_manager_def dest: entries_ok_mset)
qed

lemma manager_reachable_ok:
  "manager_step\<^sup>*\<^sup>* (manager_new cfg) m \<Longrightarrow> wf_manager m \<and> m_config m = cfg"
proof (induction rule: rtranclp_induct)
  case base
  then show ?case by (simp add: wf_manager_new) (simp add: manager_new_def)
next
  case (step m m')
  with manager_step_ok [OF step(2)] show ?case by simp
qed

section \<open>Properties\<close>



section \<open>One entry over time\<close>

lemma tick_map_keys:
  assumes "tick_map ttl now t = Some (t', out)"
  shows "fst ` set t' \<subseteq> fst ` set t"
  using assms
proof (induction t arbitrary: t' out)
  case (Cons p t)
  obtain k e where p: "p = (k, e)" by (cases p)
  then obtain e' oa rm ta ob where "tick_map ttl now t = Some (ta, ob)"
    "t' = (if rm then ta else (k, e') # ta)"
    using Cons.prems by (auto split: bind_splits prod.splits)
  with Cons.IH [of ta ob] p show ?case by auto
qed simp

lemma tick_map_lookup:
  assumes "tick_map ttl now t = Some (t', out)" "wf_table t" "map_of t k = Some e"
  shows "\<exists>e' o1 o2 o3 rm. tick_entry ttl now e = Some (e', o2, rm) \<and> out = o1 @ o2 @ o3
     \<and> map_of t' k = (if rm then None else Some e')"
  using assms
proof (induction t arbitrary: t' out)
  case (Cons p t)
  obtain k0 e0 where p: "p = (k0, e0)" by (cases p)
  obtain e0' oa ra ta ob where tick: "tick_entry ttl now e0 = Some (e0', oa, ra)"
    "tick_map ttl now t = Some (ta, ob)" "t' = (if ra then ta else (k0, e0') # ta)" "out = oa @ ob"
    using Cons.prems(1) p by (auto split: bind_splits prod.splits)
  show ?case
  proof (cases "k0 = k")
    case True
    then have "map_of ta k = None"
      using tick_map_keys [OF tick(2)] Cons.prems(2) p by (auto simp: map_of_eq_None_iff)
    with True Cons.prems(3) p tick show ?thesis
      by (intro exI [of _ e0'] exI [of _ "[]"] exI [of _ oa] exI [of _ ob] exI [of _ ra]) auto
  next
    case False
    with Cons.prems p have "map_of t k = Some e" "wf_table t" by auto
    from Cons.IH [OF tick(2) this(2,1)] obtain e' o1 o2 o3 rm where
      "tick_entry ttl now e = Some (e', o2, rm)" "ob = o1 @ o2 @ o3"
      "map_of ta k = (if rm then None else Some e')" by blast
    with False tick show ?thesis
      by (intro exI [of _ e'] exI [of _ "oa @ o1"] exI [of _ o2] exI [of _ o3] exI [of _ rm]) auto
  qed
qed simp

lemma tick_client_lookup:
  assumes "wf_manager m" "map_of (m_client m) k = Some e"
  obtains m' e' o1 o2 o3 rm where "tick m now = Some (m', o1 @ o2 @ o3)"
    "tick_entry (mc_ttl (m_config m)) now e = Some (e', o2, rm)"
    "map_of (m_client m') k = (if rm then None else Some e')" "wf_manager m'" "m_config m' = m_config m"
proof -
  obtain m' out where t: "tick m now = Some (m', out)" "wf_manager m'" "m_config m' = m_config m"
    using tick_ok [OF assms(1)] by blast
  then obtain oa cl ob where cl: "tick_map (mc_ttl (m_config m)) now (m_client m) = Some (cl, ob)"
    "m_client m' = cl" "out = oa @ ob"
    by (auto simp: tick_def split: bind_splits prod.splits)
  have "wf_table (m_client m)" using assms(1) by (simp add: wf_manager_def entries_ok_def)
  from tick_map_lookup [OF cl(1) this assms(2)] obtain e' o1 o2 o3 rm where
    "tick_entry (mc_ttl (m_config m)) now e = Some (e', o2, rm)" "ob = o1 @ o2 @ o3"
    "map_of cl k = (if rm then None else Some e')" by blast
  with t cl that [of m' "oa @ o1" o2 o3 e' rm] show ?thesis by simp
qed

text \<open>A client entry that no response has reached: only its retransmission timer moves.\<close>

definition retry_timer :: "bool \<Rightarrow> timer_kind" where
  "retry_timer iv = (if iv then TimerA else TimerE)"

definition limit_timer :: "bool \<Rightarrow> timer_kind" where
  "limit_timer iv = (if iv then TimerB else TimerF)"

definition waiting ::
    "sip_message \<Rightarrow> transaction_config \<Rightarrow> 't \<Rightarrow> duration \<Rightarrow> duration \<Rightarrow> 't entry \<Rightarrow> bool" where
  "waiting req c target start retry e \<longleftrightarrow>
     (let iv = (request_method req = Some Invite) in
      (\<exists>n. e_transaction e =
        ClientTx \<lparr>ct_config = c, ct_request = req, ct_is_invite = iv,
          ct_state = (if iv then C_Calling else C_Trying), ct_retransmit_count = n,
          ct_final_response = None\<rparr>)
      \<and> e_target e = target \<and> start \<le> e_last_activity e
      \<and> (e_timers e = [(retry_timer iv, retry), (limit_timer iv, start + timer_b c)]
          \<or> e_timers e = [(limit_timer iv, start + timer_b c), (retry_timer iv, retry)]))"

lemma waiting_started:
  "waiting req c target now (now + timer_a c 0) (started_entry req c target now)"
  by (simp add: waiting_def started_entry_def start_timers_def client_new_def Let_def retry_timer_def
      limit_timer_def timer_e_eq_a timer_b_def timer_f_def)

lemmas waiting_simps =
  waiting_def Let_def tick_entry_def due_timers_def entry_event_def absorb_def client_process_def
  on_invite_timer_a_def on_non_invite_timer_e_def client_is_terminated_def retry_timer_def
  limit_timer_def timer_e_eq_a

lemma waiting_retry:
  assumes "waiting req c target start retry e" "retry \<le> now" "now < start + timer_b c" "0 < ttl"
    "start \<le> now"
  shows "\<exists>e' n. tick_entry ttl now e = Some (e', [MSend req target], False)
     \<and> waiting req c target start (now + timer_a c n) e'"
  using assms by (auto simp: waiting_simps)

lemma waiting_idle:
  assumes "waiting req c target start retry e" "now < retry" "now < start + timer_b c" "timer_b c \<le> ttl"
    "0 < ttl"
  shows "tick_entry ttl now e = Some (e, [], False)"
proof -
  have "start \<le> e_last_activity e" using assms(1) by (simp add: waiting_def Let_def)
  with assms(3-5) have "now - e_last_activity e < ttl" by linarith
  with assms show ?thesis by (auto simp: waiting_simps)
qed

lemma waiting_expired:
  assumes "waiting req c target start retry e" "start + timer_b c \<le> now"
  shows "\<exists>e' out. tick_entry ttl now e = Some (e', out, True) \<and> MFailure TransactionTimeout \<in> set out"
  using assms
  by (cases "retry \<le> now")
     (auto simp: waiting_simps on_invite_timer_b_def on_non_invite_timer_f_def
        client_terminate_with_failure_def)

text \<open>Ticks at a list of times.\<close>

fun ticks :: "'t manager \<Rightarrow> duration list \<Rightarrow> ('t manager \<times> 't manager_output list) option" where
  "ticks m [] = Some (m, [])"
| "ticks m (now # nows) =
     do { (m1, o1) \<leftarrow> tick m now; (m2, o2) \<leftarrow> ticks m1 nows; Some (m2, o1 @ o2) }"

lemma waiting_ticks:
  assumes "wf_manager m" "map_of (m_client m) k = Some e" "waiting req c target start retry e"
    "\<forall>n \<in> set nows. start \<le> n \<and> n < start + timer_b c" "timer_b c \<le> mc_ttl (m_config m)"
  shows "\<exists>m' out e' retry'. ticks m nows = Some (m', out) \<and> wf_manager m' \<and>
     map_of (m_client m') k = Some e' \<and> waiting req c target start retry' e'"
  using assms
proof (induction nows arbitrary: m e retry)
  case Nil
  then show ?case by auto
next
  case (Cons now nows)
  obtain m1 e1 o1 o2 o3 rm where t: "tick m now = Some (m1, o1 @ o2 @ o3)"
    "tick_entry (mc_ttl (m_config m)) now e = Some (e1, o2, rm)"
    "map_of (m_client m1) k = (if rm then None else Some e1)" "wf_manager m1" "m_config m1 = m_config m"
    by (rule tick_client_lookup [OF Cons.prems(1,2)])
  have lt: "start \<le> now" "now < start + timer_b c" using Cons.prems(4) by auto
  then have ttl: "0 < mc_ttl (m_config m)" using Cons.prems(5) by simp
  obtain retry1 where 1: "\<not> rm" "waiting req c target start retry1 e1"
  proof (cases "retry \<le> now")
    case True
    with waiting_retry [OF Cons.prems(3) True lt(2) ttl lt(1)] t(2) that show ?thesis by auto
  next
    case False
    then have "now < retry" by simp
    with waiting_idle [OF Cons.prems(3) this lt(2) Cons.prems(5) ttl] t(2) Cons.prems(3) that
    show ?thesis by auto
  qed
  have "\<exists>m' out e' retry'. ticks m1 nows = Some (m', out) \<and> wf_manager m' \<and>
      map_of (m_client m') k = Some e' \<and> waiting req c target start retry' e'"
    using Cons.prems t(3-5) 1 by (intro Cons.IH [of m1 e1 retry1]) auto
  with t(1) show ?case by auto
qed

text \<open>
  C22. A request without an answer times out. After a client transaction starts at time \<open>start\<close> in a
  reachable manager, ticks before \<open>start + 64 * T1\<close> keep it, and the first tick at or after that
  time reports a transaction timeout and removes it, provided entries may stay that long
  (\<open>64 * T1\<close> is at most the time to live).
\<close>

theorem client_times_out:
  assumes "manager_step\<^sup>*\<^sup>* (manager_new cfg) m" "is_request req" "client_key m req = Some key"
    "start_client_transaction m req target start = (m1, out1)"
    "timer_b (mc_transaction cfg) \<le> mc_ttl cfg"
    "\<forall>n \<in> set nows. start \<le> n \<and> n < start + timer_b (mc_transaction cfg)"
    "start + timer_b (mc_transaction cfg) \<le> now"
  shows "\<exists>m2 out2 m3 out3. ticks m1 nows = Some (m2, out2) \<and> map_of (m_client m2) key \<noteq> None \<and>
     tick m2 now = Some (m3, out3) \<and> MFailure TransactionTimeout \<in> set out3 \<and>
     map_of (m_client m3) key = None"
proof -
  let ?c = "mc_transaction cfg"
  from manager_reachable_ok [OF assms(1)] have wf: "wf_manager m" "m_config m = cfg" by auto
  have m1: "wf_manager m1" "m_config m1 = cfg"
    "map_of (m_client m1) key = Some (started_entry req ?c target start)"
    using start_client_ok [OF wf(1), of req target start] start_client_eq [OF assms(3,2), of target start]
      assms(4) wf by (auto simp: map_of_table_update)
  obtain m2 out2 e2 retry where m2: "ticks m1 nows = Some (m2, out2)" "wf_manager m2"
    "map_of (m_client m2) key = Some e2" "waiting req ?c target start retry e2"
    using waiting_ticks [OF m1(1,3) waiting_started assms(6)] assms(5) m1(2) by auto
  obtain m3 e3 o1 o2 o3 rm where t: "tick m2 now = Some (m3, o1 @ o2 @ o3)"
    "tick_entry (mc_ttl (m_config m2)) now e2 = Some (e3, o2, rm)"
    "map_of (m_client m3) key = (if rm then None else Some e3)"
    by (rule tick_client_lookup [OF m2(2,3)])
  from waiting_expired [OF m2(4) assms(7), of "mc_ttl (m_config m2)"] t(2)
  have "rm" "MFailure TransactionTimeout \<in> set o2" by auto
  with t m2 show ?thesis by auto
qed

theorem client_times_out_witness:
  "\<exists>m1 out1 m2 out2 m3 out3.
     start_client_transaction (manager_new default_manager_config) (sample_request Bye 2 Bye) (0::nat) 1000
       = (m1, out1) \<and>
     ticks m1 [secs 1, secs 3] = Some (m2, out2) \<and>
     tick m2 (secs 33) = Some (m3, out3) \<and> MFailure TransactionTimeout \<in> set out3"
proof -
  let ?m = "manager_new default_manager_config :: nat manager"
  obtain m1 out1 where s: "start_client_transaction ?m (sample_request Bye 2 Bye) 0 1000 = (m1, out1)"
    by fastforce
  have key: "client_key ?m (sample_request Bye 2 Bye)
      = Some \<lparr>key_branch = ''z9hG4bK77'', key_cseq_method = Bye, key_call_id = ''c1'', key_role = Uac\<rparr>"
    unfolding client_key_def by (rule key_for_message_SomeI) (simp_all add: magic_cookie_def)
  have "timer_b (mc_transaction default_manager_config) = secs 32"
    by (simp add: default_manager_config_def default_config_def timer_b_def retry_cap_factor_def
        millis_def secs_def)
  with client_times_out [OF rtranclp.rtrancl_refl sample_is_request(1) key s, of "[secs 1, secs 3]" "secs 33"]
  show ?thesis
    using s by (fastforce simp: default_manager_config_def secs_def)
qed

text \<open>On a reliable transport every tick fires the retransmission timer.\<close>

lemma reliable_timer_a: "is_reliable (transport c) \<Longrightarrow> timer_a c n = 0"
  by (simp add: timer_a_def)

lemma reliable_ticks:
  assumes "wf_manager m" "map_of (m_client m) k = Some e" "waiting req c target start retry e"
    "\<forall>n \<in> set nows. start \<le> n \<and> n < start + timer_b c" "timer_b c \<le> mc_ttl (m_config m)"
    "is_reliable (transport c)" "sorted (retry # nows)"
  shows "\<exists>m' out. ticks m nows = Some (m', out) \<and> length nows \<le> count_list out (MSend req target)"
  using assms
proof (induction nows arbitrary: m e retry)
  case (Cons now nows)
  obtain m1 e1 o1 o2 o3 rm where t: "tick m now = Some (m1, o1 @ o2 @ o3)"
    "tick_entry (mc_ttl (m_config m)) now e = Some (e1, o2, rm)"
    "map_of (m_client m1) k = (if rm then None else Some e1)" "wf_manager m1" "m_config m1 = m_config m"
    by (rule tick_client_lookup [OF Cons.prems(1,2)])
  have lt: "start \<le> now" "now < start + timer_b c" "retry \<le> now" using Cons.prems(4,7) by auto
  then have ttl: "0 < mc_ttl (m_config m)" using Cons.prems(5) by simp
  from waiting_retry [OF Cons.prems(3) lt(3,2) ttl lt(1)] t(2) Cons.prems(6)
  have 1: "\<not> rm" "o2 = [MSend req target]" "waiting req c target start now e1"
    by (auto simp: reliable_timer_a)
  have "\<exists>m' out. ticks m1 nows = Some (m', out) \<and> length nows \<le> count_list out (MSend req target)"
    using Cons.prems t(3-5) 1 by (intro Cons.IH [of m1 e1 now]) auto
  with t(1) 1(2) show ?case by auto
qed simp

text \<open>
  Retransmission over a reliable transport. Timer A and timer E are zero there, but
  \<open>bootstrap\<close> arms them all the same and their handlers send the request again. A client transaction
  of a manager with a reliable transport therefore repeats its request at every tick until it is
  answered: over \<open>n\<close> ticks before the timeout, at least \<open>n\<close> more copies go out.
\<close>

theorem reliable_repeats_request:
  assumes "manager_step\<^sup>*\<^sup>* (manager_new cfg) m" "is_request req" "client_key m req = Some key"
    "is_reliable (transport (mc_transaction cfg))" "timer_b (mc_transaction cfg) \<le> mc_ttl cfg"
    "start_client_transaction m req target start = (m1, out1)"
    "sorted (start # nows)" "\<forall>n \<in> set nows. n < start + timer_b (mc_transaction cfg)"
  shows "\<exists>m2 out2. ticks m1 nows = Some (m2, out2) \<and>
     length nows \<le> count_list out2 (MSend req target)"
proof -
  from manager_reachable_ok [OF assms(1)] have wf: "wf_manager m" "m_config m = cfg" by auto
  have m1: "wf_manager m1" "m_config m1 = cfg"
    "map_of (m_client m1) key = Some (started_entry req (mc_transaction cfg) target start)"
    using start_client_ok [OF wf(1), of req target start] start_client_eq [OF assms(3,2), of target start]
      assms(6) wf by (auto simp: map_of_table_update)
  show ?thesis
    using m1 assms by (intro reliable_ticks [OF m1(1,3) waiting_started])
      (auto simp: reliable_timer_a)
qed

definition tcp_manager_config :: manager_config where
  "tcp_manager_config = default_manager_config\<lparr>mc_transaction := for_transport Reliable\<rparr>"

theorem reliable_repeats_request_witness:
  "\<exists>m1 out1 m2 out2.
     start_client_transaction (manager_new tcp_manager_config) (sample_request Invite 1 Invite) (0::nat) 1000
       = (m1, out1) \<and>
     ticks m1 [secs 1, secs 2, secs 3] = Some (m2, out2) \<and>
     3 \<le> count_list out2 (MSend (sample_request Invite 1 Invite) 0)"
proof -
  let ?m = "manager_new tcp_manager_config :: nat manager"
  obtain m1 out1 where s: "start_client_transaction ?m (sample_request Invite 1 Invite) 0 1000 = (m1, out1)"
    by fastforce
  have key: "client_key ?m (sample_request Invite 1 Invite)
      = Some \<lparr>key_branch = ''z9hG4bK77'', key_cseq_method = Invite, key_call_id = ''c1'', key_role = Uac\<rparr>"
    unfolding client_key_def by (rule key_for_message_SomeI) (simp_all add: magic_cookie_def)
  have c: "timer_b (mc_transaction tcp_manager_config) = secs 32" "mc_ttl tcp_manager_config = secs 64"
    "is_reliable (transport (mc_transaction tcp_manager_config))"
    by (simp_all add: tcp_manager_config_def default_manager_config_def for_transport_def default_config_def
        timer_b_def retry_cap_factor_def millis_def secs_def is_reliable_def)
  from reliable_repeats_request [OF rtranclp.rtrancl_refl sample_is_request(1) key c(3) _ s,
      of "[secs 1, secs 2, secs 3]"] c
  have "\<exists>m2 out2. ticks m1 [secs 1, secs 2, secs 3] = Some (m2, out2) \<and>
      length [secs 1, secs 2, secs 3] \<le> count_list out2 (MSend (sample_request Invite 1 Invite) 0)"
    by (simp add: secs_def)
  with s show ?thesis by auto
qed



section \<open>Server requests\<close>

lemma handle_request_new:
  assumes "request_method msg = Some meth" "meth \<noteq> Ack" "server_key m msg = Some key"
    "map_of (m_server m) key = None"
  shows "handle_request m msg target now =
    Some (m\<lparr>m_server := AList.update key
            \<lparr>e_transaction = ServerTx (server_new msg (mc_transaction (m_config m))), e_target = target,
             e_timers = [], e_last_activity = now\<rparr>
            (ensure_capacity (mc_max_transactions (m_config m)) (m_server m))\<rparr>,
          \<lparr>ro_key = Some key, ro_deliver = True, ro_outputs = []\<rparr>)"
proof -
  have req: "is_request msg" using assms(1) by (cases msg) auto
  have "server_bootstrap (server_new msg c) = (server_new msg c, [Deliver msg])"
    "\<not> server_is_terminated (server_new msg c)" for c
    by (simp_all add: server_bootstrap_def server_new_def Let_def server_is_terminated_def)
  then show ?thesis
    using assms req by (simp add: handle_request_def tx_new_server_def absorb_def entry_new_def)
qed

text \<open>A non-INVITE entry after its final response.\<close>

definition completed_entry ::
    "sip_message \<Rightarrow> sip_message \<Rightarrow> transaction_config \<Rightarrow> 't \<Rightarrow> (timer_kind, duration) table
       \<Rightarrow> duration \<Rightarrow> 't entry" where
  "completed_entry resp msg c target ts now =
     \<lparr>e_transaction = ServerTx ((server_new msg c)\<lparr>st_final_response := Some resp, st_state := S_Completed\<rparr>),
      e_target = target, e_timers = ts, e_last_activity = now\<rparr>"

lemma completed_entry_reached:
  assumes "request_method msg = Some meth" "meth \<noteq> Invite" "\<not> is_reliable (transport c)" "0 < t1 c"
    "is_final (code_or_zero resp)"
  shows "entry_event \<lparr>e_transaction = ServerTx (server_new msg c), e_target = target, e_timers = [],
      e_last_activity = n1\<rparr> (EvResponse resp) n2 =
    Some (completed_entry resp msg c target [(TimerJ, n2 + timer_j c)] n2,
      [SendMessage resp, SetTimer TimerJ (n2 + timer_j c)], [MSend resp target], False)"
proof -
  have "timer_j c \<noteq> 0" using assms by (simp add: timer_j_def timer_b_def retry_cap_factor_def)
  with assms show ?thesis
    by (simp add: entry_event_def completed_entry_def server_process_def server_new_def Let_def
        on_non_invite_tu_response_def absorb_def server_is_terminated_def)
qed

lemma completed_entry_replays:
  assumes "request_method msg = Some meth" "meth \<noteq> Invite" "request_method dup = Some meth"
  shows "entry_event (completed_entry resp msg c target ts n1) (EvRequest dup) n2 =
    Some (completed_entry resp msg c target ts n2, [SendMessage resp], [MSend resp target], False)"
  using assms
  by (simp add: entry_event_def completed_entry_def server_process_def server_new_def Let_def
      on_non_invite_request_completed_def absorb_def server_is_terminated_def)

lemma completed_entry_ignores:
  "entry_event (completed_entry resp msg c target ts n1) (EvResponse resp') n2 =
    Some (completed_entry resp msg c target ts n2, [], [], False)"
  by (simp add: entry_event_def completed_entry_def server_process_def server_new_def Let_def
      absorb_def server_is_terminated_def)



text \<open>
  A CANCEL without a matching transaction creates one. The documentation of \<open>handle_request\<close>
  says that it is delivered without creating a transaction; only ACK is treated that way.
\<close>

theorem orphan_cancel_is_tracked:
  assumes "request_method msg = Some Cancel" "server_key m msg = Some key" "map_of (m_server m) key = None"
  shows "\<exists>m'. handle_request m msg target now =
        Some (m', \<lparr>ro_key = Some key, ro_deliver = True, ro_outputs = []\<rparr>) \<and>
      map_of (m_server m') key \<noteq> None"
  using handle_request_new [OF assms(1) _ assms(2,3)] by (simp add: map_of_table_update)

theorem orphan_cancel_is_tracked_witness:
  "\<exists>key m'. handle_request (manager_new default_manager_config) (sample_request Cancel 1 Cancel) (0::nat) 5 =
        Some (m', \<lparr>ro_key = Some key, ro_deliver = True, ro_outputs = []\<rparr>) \<and>
      map_of (m_server m') key \<noteq> None"
proof -
  have "server_key (manager_new default_manager_config :: nat manager) (sample_request Cancel 1 Cancel)
      = Some \<lparr>key_branch = ''z9hG4bK77'', key_cseq_method = Cancel, key_call_id = ''c1'', key_role = Uas\<rparr>"
    unfolding server_key_def by (rule key_for_message_SomeI) (simp_all add: magic_cookie_def)
  from orphan_cancel_is_tracked [OF _ this, of 0 5] show ?thesis
    by (force simp: sample_request_def request_line_new_def manager_new_def)
qed

text \<open>
  The ACK of the code's own client does not reach the INVITE transaction. The key of a message
  holds the method of \<open>CSeq\<close>, which \<open>build_ack\<close> sets to ACK as RFC 3261 asks. So the server key of
  the ACK differs from the key of its INVITE; the manager treats it as an orphan: it delivers it
  and leaves every transaction as it was, in particular a completed INVITE transaction that waits
  for this ACK.
\<close>

theorem ack_misses_invite_transaction:
  assumes "wf_headers (msg_headers invite)" "is_request invite" "server_key m invite = Some key"
    "key_cseq_method key = Invite" "build_ack invite resp = Some ack"
    "map_of (m_server m) (key\<lparr>key_cseq_method := Ack\<rparr>) = None"
  shows "server_key m ack = Some (key\<lparr>key_cseq_method := Ack\<rparr>) \<and> server_key m ack \<noteq> Some key \<and>
    handle_request m ack target now = Some (m, \<lparr>ro_key = None, ro_deliver = True, ro_outputs = []\<rparr>)"
proof -
  note f = build_ack_fields [OF assms(1,2,5)]
  note k = key_for_message_SomeD [OF assms(3) [unfolded server_key_def]]
  have ack: "is_request ack" using f(2) by (cases ack) auto
  have "key_branch key \<noteq> []" "mc_branch_policy (m_config m) = Strict \<Longrightarrow> prefix magic_cookie (key_branch key)"
    using k(5) [OF assms(2)] by (auto simp: validate_branch_def split: if_splits)
  then have key: "server_key m ack = Some (key\<lparr>key_cseq_method := Ack\<rparr>)"
    using k f key_for_message_SomeI [of ack "key_branch key" "mc_branch_policy (m_config m)" "key_call_id key"]
    by (simp add: server_key_def)
  moreover have "key\<lparr>key_cseq_method := Ack\<rparr> \<noteq> key"
    using assms(4) by (cases key) simp
  moreover have "handle_request m ack target now = Some (m, \<lparr>ro_key = None, ro_deliver = True, ro_outputs = []\<rparr>)"
    using f(2) key assms(6) by (simp add: handle_request_def)
  ultimately show ?thesis by simp
qed

theorem ack_misses_invite_transaction_witness:
  "\<exists>m key ack r1. handle_request (manager_new default_manager_config) (sample_request Invite 1 Invite) (0::nat) 5
       = Some (m, r1) \<and> map_of (m_server m) key \<noteq> None \<and>
     build_ack (sample_request Invite 1 Invite) (sample_response 486 1 Invite) = Some ack \<and>
     handle_request m ack 0 9 = Some (m, \<lparr>ro_key = None, ro_deliver = True, ro_outputs = []\<rparr>)"
proof -
  let ?key = "\<lparr>key_branch = ''z9hG4bK77'', key_cseq_method = Invite, key_call_id = ''c1'', key_role = Uas\<rparr>"
  let ?m0 = "manager_new default_manager_config :: nat manager"
  have k0: "server_key ?m0 (sample_request Invite 1 Invite) = Some ?key"
    unfolding server_key_def by (rule key_for_message_SomeI) (simp_all add: magic_cookie_def)
  have "request_method (sample_request Invite 1 Invite) = Some Invite"
    by (simp add: sample_request_def request_line_new_def)
  from handle_request_new [OF this _ k0, of 0 5] obtain m r1 where
    m: "handle_request ?m0 (sample_request Invite 1 Invite) 0 5 = Some (m, r1)"
      "map_of (m_server m) ?key \<noteq> None" "map_of (m_server m) (?key\<lparr>key_cseq_method := Ack\<rparr>) = None"
      "m_config m = m_config ?m0"
    by (auto simp: manager_new_def map_of_table_update ensure_capacity_def default_manager_config_def)
  have k1: "server_key m (sample_request Invite 1 Invite) = Some ?key"
    using k0 m(4) by (simp add: server_key_def)
  obtain ack where ack: "build_ack (sample_request Invite 1 Invite) (sample_response 486 1 Invite) = Some ack"
    using build_ack_Some [OF sample_is_request(1)] by blast
  from ack_misses_invite_transaction [OF sample_wf(1) sample_is_request(1) k1 _ ack m(3), of 0 9] m ack
  show ?thesis by auto
qed

end
