(* ===== verification/Dialog.thy ===== *)
theory Dialog
  imports SipMessage
begin

text \<open>
  Dialogs: \<open>sip/dialog.rs\<close> of \<open>cheetah-gb28181-core\<close>. A \<open>Result\<close> is a sum with the error kind on the
  left. Local sequence numbers are \<open>u32\<close> words. The lemmas give the order of the delivered
  requests and the duality of the two sides of a call.
\<close>

section \<open>State\<close>

record dialog_id =
  did_call_id :: string
  did_local_tag :: string
  did_remote_tag :: string

datatype dialog_role = DUac | DUas

datatype dialog_state = DEarly | DConfirmed | DTerminated

datatype dialog_event = DRequest sip_message | DResponse sip_message | DTimer

datatype dialog_output = DDeliver sip_message | DComplete | DFailure sip_error_kind

record dialog =
  dlg_id :: dialog_id
  dlg_role :: dialog_role
  dlg_state :: dialog_state
  dlg_route_set :: "sip_uri list"
  dlg_remote_target :: sip_uri
  dlg_local_cseq :: u32
  dlg_remote_cseq :: "u32 option"

section \<open>Reading headers\<close>

definition require_header :: "sip_message \<Rightarrow> header_name \<Rightarrow> sip_error_kind + string" where
  "require_header msg name =
     (case hdr_get name (msg_headers msg) of
        None \<Rightarrow> Inl MissingRequiredHeader
      | Some v \<Rightarrow> Inr v)"

definition cseq_number :: "sip_message \<Rightarrow> sip_error_kind + u32" where
  "cseq_number msg = (case cseq msg of Inl e \<Rightarrow> Inl e | Inr (n, _) \<Rightarrow> Inr n)"

text \<open>The text up to the first \<open>;\<close> or white space character.\<close>

fun until_delim :: "string \<Rightarrow> string" where
  "until_delim [] = []"
| "until_delim (c # cs) =
     (if c = CHR '';'' \<or> leading whitespace_seqs (c # cs) \<noteq> None then [] else c # until_delim cs)"

text \<open>The loop over the windows of the value, as a walk along its suffixes.\<close>

fun find_tag :: "string \<Rightarrow> string option" where
  "find_tag [] = None"
| "find_tag (c # cs) =
     (if eq_ignore_ascii_case (take 5 (c # cs)) '';tag=''
      then Some (trim_matches DQ (until_delim (drop 5 (c # cs))))
      else find_tag cs)"

definition extract_tag :: "string \<Rightarrow> string option" where
  "extract_tag val = find_tag (trim val)"

text \<open>
  \<open>split_route_entries\<close> character by character: \<open>cur\<close> is the entry being read, reversed. After a
  backslash in quotes the next character is skipped.
\<close>

fun split_routes :: "bool \<Rightarrow> bool \<Rightarrow> string \<Rightarrow> string \<Rightarrow> string list" where
  "split_routes in_quotes in_angle cur [] = [rev cur]"
| "split_routes in_quotes in_angle cur (c # cs) =
     (if c = CHR 0x5C \<and> in_quotes then
        (case cs of
           [] \<Rightarrow> [rev (c # cur)]
         | d # ds \<Rightarrow> split_routes in_quotes in_angle (d # c # cur) ds)
      else if c = DQ \<and> \<not> in_angle then split_routes (\<not> in_quotes) in_angle (c # cur) cs
      else if c = CHR ''<'' \<and> \<not> in_quotes then split_routes in_quotes True (c # cur) cs
      else if c = CHR ''>'' \<and> \<not> in_quotes \<and> in_angle then split_routes in_quotes False (c # cur) cs
      else if c = CHR '','' \<and> \<not> in_quotes \<and> \<not> in_angle
        then rev cur # split_routes in_quotes in_angle [] cs
      else split_routes in_quotes in_angle (c # cur) cs)"

definition split_route_entries :: "string \<Rightarrow> string list" where
  "split_route_entries val = split_routes False False [] val"

text \<open>The text before the first \<open>;\<close> outside quotes.\<close>

fun until_semicolon :: "bool \<Rightarrow> string \<Rightarrow> string" where
  "until_semicolon quoted [] = []"
| "until_semicolon quoted (c # cs) =
     (if c = DQ then c # until_semicolon (\<not> quoted) cs
      else if c = CHR '';'' \<and> \<not> quoted then []
      else c # until_semicolon quoted cs)"

fun first_bare_uri :: "string list \<Rightarrow> sip_uri option" where
  "first_bare_uri [] = None"
| "first_bare_uri (t # ts) =
     (let token = trim t in
      if prefix ''sip:'' token \<or> prefix ''sips:'' token
      then (case uri_parse (until_semicolon False token) of Inl _ \<Rightarrow> None | Inr u \<Rightarrow> Some u)
      else first_bare_uri ts)"

text \<open>The contents of the first \<open><\<close> and the first \<open>>\<close> after it.\<close>

definition angle_part :: "string \<Rightarrow> string option" where
  "angle_part val =
     (case split_once (CHR ''<'') val of
        None \<Rightarrow> None
      | Some (_, rest) \<Rightarrow> map_option fst (split_once (CHR ''>'') rest))"

definition extract_first_uri :: "string \<Rightarrow> sip_uri option" where
  "extract_first_uri val0 =
     (let val = trim val0 in
      case angle_part val of
        Some uri_text \<Rightarrow> (case uri_parse uri_text of Inl _ \<Rightarrow> None | Inr u \<Rightarrow> Some u)
      | None \<Rightarrow> first_bare_uri (split_route_entries val))"

fun collect_routes :: "string list \<Rightarrow> sip_error_kind + sip_uri list" where
  "collect_routes [] = Inr []"
| "collect_routes (t # ts) =
     (let token = trim t in
      if token = [] then collect_routes ts
      else case extract_first_uri token of
             None \<Rightarrow> Inl InvalidHeader
           | Some u \<Rightarrow> (case collect_routes ts of Inl e \<Rightarrow> Inl e | Inr us \<Rightarrow> Inr (u # us)))"

definition extract_route_set :: "sip_message \<Rightarrow> bool \<Rightarrow> sip_error_kind + sip_uri list" where
  "extract_route_set msg reverse =
     (case collect_routes (concat (map split_route_entries (hdr_get_all RecordRoute (msg_headers msg)))) of
        Inl e \<Rightarrow> Inl e
      | Inr uris \<Rightarrow> Inr (if reverse then rev uris else uris))"

text \<open>\<open>ok_or_else\<close> with a missing header.\<close>

definition or_missing :: "'a option \<Rightarrow> sip_error_kind + 'a" where
  "or_missing x = (case x of None \<Rightarrow> Inl MissingRequiredHeader | Some v \<Rightarrow> Inr v)"

text \<open>The operator \<open>?\<close> on a result.\<close>

definition bind_res :: "'e + 'a \<Rightarrow> ('a \<Rightarrow> 'e + 'b) \<Rightarrow> 'e + 'b" where
  "bind_res r f = (case r of Inl e \<Rightarrow> Inl e | Inr a \<Rightarrow> f a)"

section \<open>Operations\<close>

definition new_uac :: "sip_message \<Rightarrow> sip_message \<Rightarrow> sip_error_kind + dialog" where
  "new_uac invite final_response =
     bind_res (require_header invite CallId) (\<lambda>cid.
     bind_res (require_header invite From) (\<lambda>from.
     bind_res (or_missing (extract_tag from)) (\<lambda>local_tag.
     bind_res (require_header final_response To) (\<lambda>to.
     bind_res (or_missing (extract_tag to)) (\<lambda>remote_tag.
     bind_res (cseq_number invite) (\<lambda>local_cseq.
     bind_res (require_header final_response Contact) (\<lambda>contact.
     bind_res (or_missing (extract_first_uri contact)) (\<lambda>remote_target.
     bind_res (extract_route_set final_response True) (\<lambda>route_set.
       Inr \<lparr>dlg_id = \<lparr>did_call_id = cid, did_local_tag = local_tag, did_remote_tag = remote_tag\<rparr>,
            dlg_role = DUac, dlg_state = DConfirmed, dlg_route_set = route_set,
            dlg_remote_target = remote_target, dlg_local_cseq = local_cseq,
            dlg_remote_cseq = None\<rparr>)))))))))"

definition new_uas :: "sip_message \<Rightarrow> string \<Rightarrow> sip_error_kind + dialog" where
  "new_uas invite local_tag =
     bind_res (require_header invite CallId) (\<lambda>cid.
     bind_res (require_header invite From) (\<lambda>from.
     bind_res (or_missing (extract_tag from)) (\<lambda>remote_tag.
     bind_res (cseq_number invite) (\<lambda>remote_cseq.
     bind_res (require_header invite Contact) (\<lambda>contact.
     bind_res (or_missing (extract_first_uri contact)) (\<lambda>remote_target.
     bind_res (extract_route_set invite False) (\<lambda>route_set.
       Inr \<lparr>dlg_id = \<lparr>did_call_id = cid, did_local_tag = local_tag, did_remote_tag = remote_tag\<rparr>,
            dlg_role = DUas, dlg_state = DConfirmed, dlg_route_set = route_set,
            dlg_remote_target = remote_target, dlg_local_cseq = 0,
            dlg_remote_cseq = Some remote_cseq\<rparr>)))))))"

definition dialog_is_terminated :: "dialog \<Rightarrow> bool" where
  "dialog_is_terminated d \<longleftrightarrow> dlg_state d = DTerminated"

definition next_local_cseq :: "dialog \<Rightarrow> dialog \<times> u32" where
  "next_local_cseq d =
     (let d' = d\<lparr>dlg_local_cseq := dlg_local_cseq d + 1\<rparr> in (d', dlg_local_cseq d'))"

definition dialog_terminate :: "dialog \<Rightarrow> dialog \<times> dialog_output list" where
  "dialog_terminate d = (d\<lparr>dlg_state := DTerminated\<rparr>, [DComplete])"

text \<open>\<open>self.remote_cseq.is_some() && cseq <= remote_cseq\<close>.\<close>

definition stale_cseq :: "dialog \<Rightarrow> u32 \<Rightarrow> bool" where
  "stale_cseq d n = (case dlg_remote_cseq d of None \<Rightarrow> False | Some r \<Rightarrow> n \<le> r)"

definition dialog_on_request :: "dialog \<Rightarrow> sip_message \<Rightarrow> dialog \<times> dialog_output list" where
  "dialog_on_request d req =
     (case req of
        Response _ _ _ \<Rightarrow> (d, [])
      | Request line headers _ \<Rightarrow>
     (case cseq req of
        Inl e \<Rightarrow> (d, [DFailure e])
      | Inr (n, _) \<Rightarrow>
     (case rl_method line of
        Bye \<Rightarrow>
          if stale_cseq d n then (d, [])
          else (d\<lparr>dlg_remote_cseq := Some n, dlg_state := DTerminated\<rparr>, [DDeliver req, DComplete])
      | Ack \<Rightarrow> (d, [DDeliver req])
      | Cancel \<Rightarrow> (d, [DDeliver req])
      | Invite \<Rightarrow>
          if stale_cseq d n then (d, [])
          else (let d' = d\<lparr>dlg_remote_cseq := Some n\<rparr> in
                case Option.bind (hdr_get Contact headers) extract_first_uri of
                  Some uri \<Rightarrow> (d'\<lparr>dlg_remote_target := uri\<rparr>, [DDeliver req])
                | None \<Rightarrow> (d', [DDeliver req]))
      | _ \<Rightarrow>
          if stale_cseq d n then (d, [])
          else (d\<lparr>dlg_remote_cseq := Some n\<rparr>, [DDeliver req]))))"

definition dialog_on_response :: "dialog \<Rightarrow> sip_message \<Rightarrow> dialog \<times> dialog_output list" where
  "dialog_on_response d resp =
     (case resp of
        Request _ _ _ \<Rightarrow> (d, [])
      | Response line _ _ \<Rightarrow>
     (case cseq resp of
        Inl e \<Rightarrow> (d, [DFailure e])
      | Inr (n, m) \<Rightarrow>
          if m = Bye \<and> 200 \<le> sl_code line \<and> sl_code line < 300
          then (d\<lparr>dlg_state := DTerminated\<rparr>, [DDeliver resp, DComplete])
          else ((if dlg_local_cseq d < n then d\<lparr>dlg_local_cseq := n\<rparr> else d), [DDeliver resp])))"

definition dialog_process :: "dialog \<Rightarrow> dialog_event \<Rightarrow> dialog \<times> dialog_output list" where
  "dialog_process d event =
     (if dialog_is_terminated d then (d, [])
      else case event of
             DRequest req \<Rightarrow> dialog_on_request d req
           | DResponse resp \<Rightarrow> dialog_on_response d resp
           | DTimer \<Rightarrow> dialog_terminate d)"

fun dialog_run :: "dialog \<Rightarrow> dialog_event list \<Rightarrow> dialog \<times> dialog_output list" where
  "dialog_run d [] = (d, [])"
| "dialog_run d (ev # evs) =
     (let (d1, o1) = dialog_process d ev; (d2, o2) = dialog_run d1 evs in (d2, o1 @ o2))"

section \<open>Order of delivery\<close>

text \<open>The sequence number of a delivered request that takes part in the ordering.\<close>

definition ordered_seq :: "dialog_output \<Rightarrow> u32 option" where
  "ordered_seq x =
     (case x of
        DDeliver (Request line h b) \<Rightarrow>
          if rl_method line = Ack \<or> rl_method line = Cancel then None
          else (case cseq (Request line h b) of Inl _ \<Rightarrow> None | Inr (n, _) \<Rightarrow> Some n)
      | _ \<Rightarrow> None)"

definition delivered_seqs :: "dialog_output list \<Rightarrow> u32 list" where
  "delivered_seqs out = List.map_filter ordered_seq out"

lemma delivered_seqs_simps [simp]:
  "delivered_seqs [] = []"
  "delivered_seqs (x # xs) = (case ordered_seq x of None \<Rightarrow> [] | Some n \<Rightarrow> [n]) @ delivered_seqs xs"
  "delivered_seqs (xs @ ys) = delivered_seqs xs @ delivered_seqs ys"
  by (simp_all add: delivered_seqs_def map_filter_def split: option.split)

lemma ordered_seq_simps [simp]:
  "ordered_seq DComplete = None" "ordered_seq (DFailure e) = None"
  "ordered_seq (DDeliver (Response l h b)) = None"
  by (simp_all add: ordered_seq_def)

definition dialog_step_ok :: "dialog \<Rightarrow> dialog \<times> dialog_output list \<Rightarrow> bool" where
  "dialog_step_ok d r \<longleftrightarrow>
     (case r of (d', out) \<Rightarrow>
        dlg_id d' = dlg_id d
        \<and> (delivered_seqs out = [] \<and> dlg_remote_cseq d' = dlg_remote_cseq d
            \<or> (\<exists>n. delivered_seqs out = [n] \<and> \<not> stale_cseq d n \<and> dlg_remote_cseq d' = Some n))
        \<and> (dialog_is_terminated d \<longrightarrow> d' = d \<and> out = [])
        \<and> (dialog_is_terminated d' \<longrightarrow> dialog_is_terminated d \<or> DComplete \<in> set out)
        \<and> (\<forall>xs ys. out = xs @ DComplete # ys \<longrightarrow> ys = [] \<and> dialog_is_terminated d'))"

lemma ends_with_complete:
  "[] \<noteq> xs @ DComplete # ys" "[DDeliver m] \<noteq> xs @ DComplete # ys" "[DFailure e] \<noteq> xs @ DComplete # ys"
  "[DDeliver m, DComplete] = xs @ DComplete # ys \<longleftrightarrow> xs = [DDeliver m] \<and> ys = []"
  "[DComplete] = xs @ DComplete # ys \<longleftrightarrow> xs = [] \<and> ys = []"
  by (auto simp: Cons_eq_append_conv)

lemmas dialog_step_simps = dialog_step_ok_def dialog_is_terminated_def ends_with_complete

lemma dialog_on_request_ok:
  assumes "\<not> dialog_is_terminated d"
  shows "dialog_step_ok d (dialog_on_request d req)"
proof (cases req)
  case (Response l h b)
  then show ?thesis using assms by (simp add: dialog_on_request_def dialog_step_simps)
next
  case (Request line h b)
  show ?thesis
  proof (cases "cseq req")
    case (Inl e)
    with Request assms show ?thesis
      by (simp add: dialog_on_request_def dialog_step_simps)
  next
    case (Inr p)
    then obtain n m where n: "cseq (Request line h b) = Inr (n, m)" using Request by (cases p) auto
    then have seq: "ordered_seq (DDeliver (Request line h b)) =
        (if rl_method line = Ack \<or> rl_method line = Cancel then None else Some n)"
      by (simp add: ordered_seq_def)
    show ?thesis
      using assms seq
      by (cases "rl_method line")
         (auto simp: dialog_on_request_def Request n Let_def dialog_step_simps
           split: option.split)
  qed
qed

lemma dialog_on_response_ok:
  assumes "\<not> dialog_is_terminated d"
  shows "dialog_step_ok d (dialog_on_response d resp)"
  using assms
  by (auto simp: dialog_on_response_def dialog_step_simps split: sip_message.split sum.split)

lemma dialog_process_ok: "dialog_step_ok d (dialog_process d ev)"
proof (cases "dialog_is_terminated d")
  case True
  then show ?thesis by (simp add: dialog_process_def dialog_step_simps)
next
  case False
  then show ?thesis
    by (cases ev)
       (simp_all add: dialog_process_def dialog_on_request_ok dialog_on_response_ok,
        simp add: dialog_terminate_def dialog_step_simps)
qed

lemma dialog_run_terminated: "dialog_is_terminated d \<Longrightarrow> dialog_run d evs = (d, [])"
  by (induction evs) (simp_all add: dialog_process_def)

lemma dialog_run_complete:
  "snd (dialog_run d evs) = xs @ DComplete # ys \<Longrightarrow> ys = []"
proof (induction evs arbitrary: d xs)
  case (Cons ev evs)
  obtain d1 o1 where 1: "dialog_process d ev = (d1, o1)" by fastforce
  obtain d2 o2 where 2: "dialog_run d1 evs = (d2, o2)" by fastforce
  have step: "dialog_step_ok d (d1, o1)" using dialog_process_ok [of d ev] 1 by simp
  from Cons.prems 1 2 have out: "o1 @ o2 = xs @ DComplete # ys" by simp
  then consider us where "o1 = xs @ us" "us @ o2 = DComplete # ys" "us \<noteq> []"
    | us where "xs = o1 @ us" "o2 = us @ DComplete # ys"
    by (auto simp: append_eq_append_conv2) (metis append_Nil append_Nil2)
  then show ?case
  proof cases
    case (1 us)
    then obtain vs where vs: "us = DComplete # vs" "ys = vs @ o2" by (cases us) auto
    with 1 step have "vs = []" "dialog_is_terminated d1" by (auto simp: dialog_step_ok_def)
    with vs 2 dialog_run_terminated [of d1 evs] show ?thesis by simp
  next
    case (2 us)
    with Cons.IH [of d1 us] \<open>dialog_run d1 evs = (d2, o2)\<close> show ?thesis by simp
  qed
qed simp

lemma dialog_run_sorted:
  "sorted_wrt (<) (delivered_seqs (snd (dialog_run d evs))) \<and>
   (\<forall>n \<in> set (delivered_seqs (snd (dialog_run d evs))). \<not> stale_cseq d n)"
proof (induction evs arbitrary: d)
  case (Cons ev evs)
  obtain d1 o1 where 1: "dialog_process d ev = (d1, o1)" by fastforce
  obtain d2 o2 where 2: "dialog_run d1 evs = (d2, o2)" by fastforce
  have step: "dialog_step_ok d (d1, o1)" using dialog_process_ok [of d ev] 1 by simp
  have IH: "sorted_wrt (<) (delivered_seqs o2)" "\<forall>n \<in> set (delivered_seqs o2). \<not> stale_cseq d1 n"
    using Cons.IH [of d1] 2 by auto
  consider "delivered_seqs o1 = []" "dlg_remote_cseq d1 = dlg_remote_cseq d"
    | n where "delivered_seqs o1 = [n]" "\<not> stale_cseq d n" "dlg_remote_cseq d1 = Some n"
    using step by (auto simp: dialog_step_ok_def)
  then show ?case
  proof cases
    case 1
    then have "stale_cseq d1 = stale_cseq d" by (intro ext) (simp add: stale_cseq_def)
    with 1 IH \<open>dialog_process d ev = (d1, o1)\<close> 2 show ?thesis by simp
  next
    case (2 n)
    then have "\<forall>k \<in> set (delivered_seqs o2). n < k"
      using IH(2) by (auto simp: stale_cseq_def)
    moreover have "\<not> stale_cseq d k" if "n < k" for k
      using 2(2) that by (auto simp: stale_cseq_def split: option.splits)
    ultimately show ?thesis
      using 2 IH \<open>dialog_process d ev = (d1, o1)\<close> \<open>dialog_run d1 evs = (d2, o2)\<close> by auto
  qed
qed simp

section \<open>Both sides of a call\<close>

lemma bind_res_Inr: "bind_res r f = Inr b \<longleftrightarrow> (\<exists>a. r = Inr a \<and> f a = Inr b)"
  by (cases r) (simp_all add: bind_res_def)

lemma or_missing_Inr: "or_missing x = Inr v \<longleftrightarrow> x = Some v"
  by (simp add: or_missing_def split: option.split)

lemma require_header_Inr: "require_header m h = Inr v \<longleftrightarrow> hdr_get h (msg_headers m) = Some v"
  by (simp add: require_header_def split: option.split)

lemmas result_simps = bind_res_Inr or_missing_Inr require_header_Inr

definition mirror :: "dialog_id \<Rightarrow> dialog_id" where
  "mirror i = \<lparr>did_call_id = did_call_id i, did_local_tag = did_remote_tag i,
     did_remote_tag = did_local_tag i\<rparr>"

text \<open>An INVITE and its answer with the headers that a dialog needs.\<close>

definition sample_call_invite :: sip_message where
  "sample_call_invite =
     Request (request_line_new Invite sample_uri)
       (hdr_of_lines
         [(Via, ''SIP/2.0/UDP 192.168.1.1:5060;branch=z9hG4bK77''),
          (RecordRoute, ''<sip:p1>,<sip:p2>''),
          (From, ''<sip:3401@192.168.1.1>;tag=a1''),
          (To, ''<sip:3402@192.168.1.64>''),
          (CallId, ''c1''), (CSeq, cseq_value 7 Invite),
          (Contact, ''<sip:3401@192.168.1.1>'')]) []"

definition sample_call_ok :: sip_message where
  "sample_call_ok =
     Response (status_line_new 200 ''OK'')
       (hdr_of_lines
         [(Via, ''SIP/2.0/UDP 192.168.1.1:5060;branch=z9hG4bK77''),
          (RecordRoute, ''<sip:p1>,<sip:p2>''),
          (From, ''<sip:3401@192.168.1.1>;tag=a1''),
          (To, ''<sip:3402@192.168.1.64>;tag=b2''),
          (CallId, ''c1''), (CSeq, cseq_value 7 Invite),
          (Contact, ''<sip:3402@192.168.1.64>'')]) []"

lemma sample_call_fields:
  "hdr_get CallId (msg_headers sample_call_invite) = Some ''c1''"
  "hdr_get From (msg_headers sample_call_invite) = Some ''<sip:3401@192.168.1.1>;tag=a1''"
  "hdr_get Contact (msg_headers sample_call_invite) = Some ''<sip:3401@192.168.1.1>''"
  "hdr_get_all RecordRoute (msg_headers sample_call_invite) = [''<sip:p1>,<sip:p2>'']"
  "cseq sample_call_invite = Inr (7, Invite)"
  "hdr_get To (msg_headers sample_call_ok) = Some ''<sip:3402@192.168.1.64>;tag=b2''"
  "hdr_get Contact (msg_headers sample_call_ok) = Some ''<sip:3402@192.168.1.64>''"
  "hdr_get_all RecordRoute (msg_headers sample_call_ok) = [''<sip:p1>,<sip:p2>'']"
  unfolding sample_call_invite_def sample_call_ok_def cseq_def
  by (simp_all add: hdr_get_all_scan hdr_get_scan hdr_of_lines_props header_name_eq_def)

lemma sample_tags:
  "extract_tag ''<sip:3401@192.168.1.1>;tag=a1'' = Some ''a1''"
  "extract_tag ''<sip:3402@192.168.1.64>;tag=b2'' = Some ''b2''"
  by code_simp+

definition plain_uri :: "string option \<Rightarrow> string \<Rightarrow> sip_uri" where
  "plain_uri user host = \<lparr>uri_scheme = Sip, uri_user = user, uri_password = None, uri_host = host,
     uri_port = None, uri_parameters = []\<rparr>"

lemma sample_contacts:
  "extract_first_uri ''<sip:3401@192.168.1.1>'' = Some (plain_uri (Some ''3401'') ''192.168.1.1'')"
  "extract_first_uri ''<sip:3402@192.168.1.64>'' = Some (plain_uri (Some ''3402'') ''192.168.1.64'')"
  "collect_routes (split_route_entries ''<sip:p1>,<sip:p2>'')
     = Inr [plain_uri None ''p1'', plain_uri None ''p2'']"
  by code_simp+

lemma sample_dialogs:
  "new_uas sample_call_invite ''b2'' =
     Inr \<lparr>dlg_id = \<lparr>did_call_id = ''c1'', did_local_tag = ''b2'', did_remote_tag = ''a1''\<rparr>,
          dlg_role = DUas, dlg_state = DConfirmed,
          dlg_route_set = [plain_uri None ''p1'', plain_uri None ''p2''],
          dlg_remote_target = plain_uri (Some ''3401'') ''192.168.1.1'', dlg_local_cseq = 0,
          dlg_remote_cseq = Some 7\<rparr>"
  "new_uac sample_call_invite sample_call_ok =
     Inr \<lparr>dlg_id = \<lparr>did_call_id = ''c1'', did_local_tag = ''a1'', did_remote_tag = ''b2''\<rparr>,
          dlg_role = DUac, dlg_state = DConfirmed,
          dlg_route_set = [plain_uri None ''p2'', plain_uri None ''p1''],
          dlg_remote_target = plain_uri (Some ''3402'') ''192.168.1.64'', dlg_local_cseq = 7,
          dlg_remote_cseq = None\<rparr>"
  by (simp_all add: new_uas_def new_uac_def bind_res_def or_missing_def require_header_def cseq_number_def
      extract_route_set_def sample_call_fields sample_tags sample_contacts)

section \<open>Properties\<close>


definition sample_dialog :: dialog where
  "sample_dialog =
     \<lparr>dlg_id = \<lparr>did_call_id = ''c1'', did_local_tag = ''b2'', did_remote_tag = ''a1''\<rparr>,
      dlg_role = DUas, dlg_state = DConfirmed, dlg_route_set = [],
      dlg_remote_target = sample_uri, dlg_local_cseq = 0, dlg_remote_cseq = Some 7\<rparr>"


text \<open>
  The two sides of a call agree. If the caller makes its dialog from an INVITE and a final
  response, and the callee makes its own from that INVITE with the tag that it put into the \<open>To\<close> of
  the response, then each identifier is the mirror image of the other, the callee expects numbers
  above the one that the caller used, and if the response repeats the \<open>Record-Route\<close> headers, the
  route sets are the reverse of each other.
\<close>

theorem dialog_sides_agree:
  assumes "new_uac invite resp = Inr a" "new_uas invite tag = Inr b"
    "\<exists>to. hdr_get To (msg_headers resp) = Some to \<and> extract_tag to = Some tag"
  shows "dlg_id a = mirror (dlg_id b) \<and> dlg_remote_cseq b = Some (dlg_local_cseq a) \<and>
    (hdr_get_all RecordRoute (msg_headers resp) = hdr_get_all RecordRoute (msg_headers invite) \<longrightarrow>
       dlg_route_set a = rev (dlg_route_set b))"
  using assms
  by (auto simp: new_uac_def new_uas_def result_simps mirror_def extract_route_set_def split: sum.splits)

theorem dialog_sides_agree_witness:
  "\<exists>a b. new_uac sample_call_invite sample_call_ok = Inr a \<and> new_uas sample_call_invite ''b2'' = Inr b \<and>
     dlg_id a = mirror (dlg_id b) \<and> dlg_remote_cseq b = Some (dlg_local_cseq a) \<and>
     dlg_route_set a = rev (dlg_route_set b)"
  using dialog_sides_agree [OF sample_dialogs(2,1)] sample_dialogs sample_call_fields sample_tags
  by auto

end
