(* ===== verification/DialogManager.thy ===== *)
theory DialogManager
  imports Dialog BoundedTable
begin

text \<open>
  The dialog manager: \<open>sip/dialog_manager.rs\<close> of \<open>cheetah-gb28181-core\<close>. It keys dialogs by their
  identifier, routes messages to them and removes them when they complete or have been idle.
\<close>

section \<open>State\<close>

record dialog_manager_config =
  dmc_max_dialogs :: nat
  dmc_ttl :: duration

definition default_dialog_manager_config :: dialog_manager_config where
  "default_dialog_manager_config = \<lparr>dmc_max_dialogs = 4096, dmc_ttl = 1800 * 1000000000\<rparr>"

datatype dialog_routing =
    RDeliver sip_message
  | RTerminated sip_message
  | RAbsorbed
  | RNoDialog sip_message
  | RFailure sip_error_kind

record dialog_entry =
  de_dialog :: dialog
  de_last_activity :: duration

record dialog_manager =
  dm_config :: dialog_manager_config
  dm_dialogs :: "(dialog_id, dialog_entry) table"

section \<open>Operations\<close>

definition dm_new :: "dialog_manager_config \<Rightarrow> dialog_manager" where
  "dm_new config = \<lparr>dm_config = config, dm_dialogs = []\<rparr>"

definition dm_len :: "dialog_manager \<Rightarrow> nat" where
  "dm_len m = length (dm_dialogs m)"

definition dm_contains :: "dialog_manager \<Rightarrow> dialog_id \<Rightarrow> bool" where
  "dm_contains m i \<longleftrightarrow> map_of (dm_dialogs m) i \<noteq> None"

definition dm_ensure_capacity ::
    "nat \<Rightarrow> (dialog_id, dialog_entry) table \<Rightarrow> (dialog_id, dialog_entry) table" where
  "dm_ensure_capacity mx t =
     (if mx = 0 \<or> length t < mx then t
      else case find (\<lambda>(_, e). dialog_is_terminated (de_dialog e)) t of
             Some (k, _) \<Rightarrow> AList.delete k t
           | None \<Rightarrow>
               (case min_by_key (\<lambda>(_, e). de_last_activity e) t of
                  Some (k, _) \<Rightarrow> AList.delete k t
                | None \<Rightarrow> t))"

definition dm_insert :: "dialog_manager \<Rightarrow> dialog \<Rightarrow> duration \<Rightarrow> dialog_manager \<times> dialog_id" where
  "dm_insert m d now =
     (m\<lparr>dm_dialogs := AList.update (dlg_id d) \<lparr>de_dialog = d, de_last_activity = now\<rparr>
          (dm_ensure_capacity (dmc_max_dialogs (dm_config m)) (dm_dialogs m))\<rparr>, dlg_id d)"

definition establish_uas ::
    "dialog_manager \<Rightarrow> sip_message \<Rightarrow> string \<Rightarrow> duration \<Rightarrow> dialog_manager \<times> (sip_error_kind + dialog_id)" where
  "establish_uas m invite local_tag now =
     (case new_uas invite local_tag of
        Inl e \<Rightarrow> (m, Inl e)
      | Inr d \<Rightarrow> (case dm_insert m d now of (m', i) \<Rightarrow> (m', Inr i)))"

definition establish_uac ::
    "dialog_manager \<Rightarrow> sip_message \<Rightarrow> sip_message \<Rightarrow> duration
       \<Rightarrow> dialog_manager \<times> (sip_error_kind + dialog_id)" where
  "establish_uac m invite final_response now =
     (case new_uac invite final_response of
        Inl e \<Rightarrow> (m, Inl e)
      | Inr d \<Rightarrow> (case dm_insert m d now of (m', i) \<Rightarrow> (m', Inr i)))"

definition match_id :: "sip_message \<Rightarrow> dialog_id option" where
  "match_id message =
     (case call_id message of
        None \<Rightarrow> None
      | Some cid \<Rightarrow>
     (case Option.bind (hdr_get From (msg_headers message)) extract_tag of
        None \<Rightarrow> None
      | Some from_tag \<Rightarrow>
     (case Option.bind (hdr_get To (msg_headers message)) extract_tag of
        None \<Rightarrow> None
      | Some to_tag \<Rightarrow>
          Some (if is_request message
                then \<lparr>did_call_id = cid, did_local_tag = to_tag, did_remote_tag = from_tag\<rparr>
                else \<lparr>did_call_id = cid, did_local_tag = from_tag, did_remote_tag = to_tag\<rparr>))))"

text \<open>The loop over the outputs: the last delivered message, the last failure, completion.\<close>

fun fold_outputs ::
    "sip_error_kind option \<times> sip_message option \<times> bool \<Rightarrow> dialog_output list
       \<Rightarrow> sip_error_kind option \<times> sip_message option \<times> bool" where
  "fold_outputs acc [] = acc"
| "fold_outputs (f, d, c) (DDeliver m # xs) = fold_outputs (f, Some m, c) xs"
| "fold_outputs (f, d, c) (DComplete # xs) = fold_outputs (f, d, True) xs"
| "fold_outputs (f, d, c) (DFailure k # xs) = fold_outputs (Some k, d, c) xs"

fun routing_of :: "sip_error_kind option \<times> sip_message option \<times> bool \<Rightarrow> dialog_routing" where
  "routing_of (Some k, _, _) = RFailure k"
| "routing_of (None, Some m, True) = RTerminated m"
| "routing_of (None, Some m, False) = RDeliver m"
| "routing_of (None, None, _) = RAbsorbed"

definition dm_route ::
    "dialog_manager \<Rightarrow> sip_message \<Rightarrow> duration \<Rightarrow> (sip_message \<Rightarrow> dialog_event)
       \<Rightarrow> dialog_manager \<times> dialog_routing" where
  "dm_route m message now to_event =
     (case match_id message of
        None \<Rightarrow> (m, RNoDialog message)
      | Some i \<Rightarrow>
     (case map_of (dm_dialogs m) i of
        None \<Rightarrow> (m, RNoDialog message)
      | Some e \<Rightarrow>
          (let (d, outputs) = dialog_process (de_dialog e) (to_event message);
               (failure, delivered, completed) = fold_outputs (None, None, False) outputs;
               t = AList.update i \<lparr>de_dialog = d, de_last_activity = now\<rparr> (dm_dialogs m)
           in (m\<lparr>dm_dialogs := (if completed then AList.delete i t else t)\<rparr>,
               routing_of (failure, delivered, completed)))))"

definition dm_handle_request ::
    "dialog_manager \<Rightarrow> sip_message \<Rightarrow> duration \<Rightarrow> dialog_manager \<times> dialog_routing" where
  "dm_handle_request m message now = dm_route m message now DRequest"

definition dm_handle_response ::
    "dialog_manager \<Rightarrow> sip_message \<Rightarrow> duration \<Rightarrow> dialog_manager \<times> dialog_routing" where
  "dm_handle_response m message now = dm_route m message now DResponse"

definition dm_tick :: "dialog_manager \<Rightarrow> duration \<Rightarrow> dialog_manager" where
  "dm_tick m now =
     m\<lparr>dm_dialogs := filter (\<lambda>(_, e). \<not> dialog_is_terminated (de_dialog e)
          \<and> now - de_last_activity e < dmc_ttl (dm_config m)) (dm_dialogs m)\<rparr>"

section \<open>The invariant\<close>

lemma dm_ensure_capacity_eq:
  "dm_ensure_capacity = evict_oldest (\<lambda>e. dialog_is_terminated (de_dialog e)) de_last_activity"
  by (intro ext) (simp add: dm_ensure_capacity_def evict_oldest_def)

interpretation dlg_table: lru_table dm_ensure_capacity de_last_activity
    "\<lambda>e. \<not> dialog_is_terminated (de_dialog e)"
  unfolding dm_ensure_capacity_eq by (rule evict_oldest_lru)

definition wf_dialogs :: "dialog_manager \<Rightarrow> bool" where
  "wf_dialogs m \<longleftrightarrow>
     wf_table (dm_dialogs m)
     \<and> (\<forall>p \<in> set (dm_dialogs m). dlg_id (de_dialog (snd p)) = fst p
          \<and> \<not> dialog_is_terminated (de_dialog (snd p)))
     \<and> (0 < dmc_max_dialogs (dm_config m) \<longrightarrow> dm_len m \<le> dmc_max_dialogs (dm_config m))"

lemma wf_dialogs_new: "wf_dialogs (dm_new cfg)"
  by (simp add: wf_dialogs_def dm_new_def dm_len_def)

lemma wf_dialogs_insert:
  assumes "wf_dialogs m" "\<not> dialog_is_terminated d"
  shows "wf_dialogs (fst (dm_insert m d now))"
proof -
  let ?mx = "dmc_max_dialogs (dm_config m)"
  let ?e = "\<lparr>de_dialog = d, de_last_activity = now\<rparr>"
  let ?P = "\<lambda>p. dlg_id (de_dialog (snd p)) = fst p \<and> \<not> dialog_is_terminated (de_dialog (snd p))"
  have "\<forall>p \<in> set (AList.update (dlg_id d) ?e (dm_ensure_capacity ?mx (dm_dialogs m))). ?P p"
    using assms by (intro dlg_table.insert_all) (auto simp: wf_dialogs_def)
  with assms dlg_table.insert_wf [of "dm_dialogs m" "dlg_id d" ?e ?mx]
    dlg_table.insert_length [of ?mx "dm_dialogs m" "dlg_id d" ?e]
  show ?thesis by (simp add: wf_dialogs_def dm_insert_def dm_len_def)
qed

lemma new_dialog_live:
  "new_uas invite tag = Inr d \<Longrightarrow> \<not> dialog_is_terminated d"
  "new_uac invite resp = Inr d \<Longrightarrow> \<not> dialog_is_terminated d"
  by (auto simp: new_uas_def new_uac_def result_simps dialog_is_terminated_def)

lemma wf_dialogs_establish:
  assumes "wf_dialogs m"
  shows "wf_dialogs (fst (establish_uas m invite tag now))"
    "wf_dialogs (fst (establish_uac m invite resp now))"
  using assms wf_dialogs_insert [of m _ now] new_dialog_live
  by (auto simp: establish_uas_def establish_uac_def split: sum.splits prod.splits)
     (metis fst_conv)+

lemma fold_outputs_complete:
  "snd (snd (fold_outputs acc xs)) \<longleftrightarrow> snd (snd acc) \<or> DComplete \<in> set xs"
  by (induction acc xs rule: fold_outputs.induct) auto

lemma wf_dialogs_route:
  assumes "wf_dialogs m"
  shows "wf_dialogs (fst (dm_route m msg now to_ev))"
proof (cases "match_id msg")
  case None
  with assms show ?thesis by (simp add: dm_route_def)
next
  case (Some i)
  show ?thesis
  proof (cases "map_of (dm_dialogs m) i")
    case None
    with assms Some show ?thesis by (simp add: dm_route_def)
  next
    case e: (Some e)
    obtain d out where d: "dialog_process (de_dialog e) (to_ev msg) = (d, out)" by fastforce
    obtain f dl c where fo: "fold_outputs (None, None, False) out = (f, dl, c)" by (metis prod_cases3)
    have old: "dlg_id (de_dialog e) = i" "\<not> dialog_is_terminated (de_dialog e)" "i \<in> fst ` set (dm_dialogs m)"
      using assms e by (force simp: wf_dialogs_def dest: map_of_SomeD)+
    have c: "c \<longleftrightarrow> DComplete \<in> set out"
      using fold_outputs_complete [of "(None, None, False)" out] fo by simp
    have new: "dlg_id d = i" "dialog_is_terminated d \<Longrightarrow> c"
      using dialog_process_ok [of "de_dialog e" "to_ev msg"] d old c by (auto simp: dialog_step_ok_def)
    let ?t = "AList.update i \<lparr>de_dialog = d, de_last_activity = now\<rparr> (dm_dialogs m)"
    have "length (AList.delete i ?t) \<le> length (dm_dialogs m)"
      using length_delete_le' [of i ?t] old(3) by (simp add: length_update_le)
    moreover have "fst (dm_route m msg now to_ev) = m\<lparr>dm_dialogs := (if c then AList.delete i ?t else ?t)\<rparr>"
      by (simp add: dm_route_def Some e d fo Let_def)
    ultimately show ?thesis
      using assms old new
      by (auto simp: wf_dialogs_def dm_len_def table_simps set_table_update_wf)
  qed
qed

lemma wf_dialogs_tick:
  assumes "wf_dialogs m"
  shows "wf_dialogs (dm_tick m now)"
  using assms unfolding wf_dialogs_def dm_tick_def dm_len_def
  by (auto intro: order_trans [OF length_filter_le])

section \<open>Reachable states\<close>

text \<open>One public operation, or another iteration order of the table.\<close>

inductive dialogs_step :: "dialog_manager \<Rightarrow> dialog_manager \<Rightarrow> bool" where
  uas: "dialogs_step m (fst (establish_uas m invite tag now))"
| uac: "dialogs_step m (fst (establish_uac m invite resp now))"
| request: "dialogs_step m (fst (dm_handle_request m msg now))"
| response: "dialogs_step m (fst (dm_handle_response m msg now))"
| ticked: "dialogs_step m (dm_tick m now)"
| shuffle: "mset t = mset (dm_dialogs m) \<Longrightarrow> dialogs_step m (m\<lparr>dm_dialogs := t\<rparr>)"

lemma dm_config_keep [simp]:
  "dm_config (fst (establish_uas m invite tag now)) = dm_config m"
  "dm_config (fst (establish_uac m invite resp now)) = dm_config m"
  "dm_config (fst (dm_route m msg now to_ev)) = dm_config m"
  "dm_config (dm_tick m now) = dm_config m"
  by (auto simp: establish_uas_def establish_uac_def dm_insert_def dm_route_def dm_tick_def Let_def
      split: sum.split option.split prod.split)

lemma wf_dialogs_mset:
  assumes "wf_dialogs m" "mset t = mset (dm_dialogs m)"
  shows "wf_dialogs (m\<lparr>dm_dialogs := t\<rparr>)"
proof -
  have "mset (map fst t) = mset (map fst (dm_dialogs m))" using assms(2) by simp
  then have "wf_table t" using assms(1) mset_eq_imp_distinct_iff unfolding wf_dialogs_def by blast
  with assms mset_eq_setD [OF assms(2)] mset_eq_length [OF assms(2)] show ?thesis
    by (simp add: wf_dialogs_def dm_len_def)
qed

lemma dialogs_step_ok:
  "dialogs_step m m' \<Longrightarrow> wf_dialogs m \<Longrightarrow> wf_dialogs m' \<and> dm_config m' = dm_config m"
  by (induction rule: dialogs_step.induct)
     (auto simp: wf_dialogs_establish wf_dialogs_route wf_dialogs_tick wf_dialogs_mset
        dm_handle_request_def dm_handle_response_def)

lemma dialogs_reachable_ok:
  assumes "dialogs_step\<^sup>*\<^sup>* (dm_new cfg) m"
  shows "wf_dialogs m \<and> dm_config m = cfg"
  using assms
proof (induction rule: rtranclp_induct)
  case base
  then show ?case by (simp add: wf_dialogs_new) (simp add: dm_new_def)
next
  case (step m m')
  with dialogs_step_ok [OF step(2)] show ?case by simp
qed

section \<open>Properties\<close>

text \<open>
  C35. The dialog table is bounded and consistent. In every reachable state it holds at most the
  configured maximum of dialogs, each under its own identifier and none of them terminated.
\<close>

theorem dialogs_bounded:
  assumes "dialogs_step\<^sup>*\<^sup>* (dm_new cfg) m" "0 < dmc_max_dialogs cfg"
  shows "dm_len m \<le> dmc_max_dialogs cfg \<and>
    (\<forall>i e. map_of (dm_dialogs m) i = Some e \<longrightarrow>
       dlg_id (de_dialog e) = i \<and> \<not> dialog_is_terminated (de_dialog e))"
  using dialogs_reachable_ok [OF assms(1)] assms(2)
  by (fastforce simp: wf_dialogs_def dest: map_of_SomeD)

theorem dialogs_bounded_witness:
  "\<exists>m. dialogs_step\<^sup>*\<^sup>* (dm_new (default_dialog_manager_config\<lparr>dmc_max_dialogs := 1\<rparr>)) m \<and>
     dm_len m = 1 \<and> dm_len m \<le> 1"
proof -
  let ?cfg = "default_dialog_manager_config\<lparr>dmc_max_dialogs := 1\<rparr>"
  let ?m = "fst (establish_uas (dm_new ?cfg) sample_call_invite ''b2'' 5)"
  have reach: "dialogs_step\<^sup>*\<^sup>* (dm_new ?cfg) ?m"
    by (rule r_into_rtranclp) (rule dialogs_step.uas)
  have "dm_len ?m = 1"
    by (simp add: establish_uas_def sample_dialogs dm_insert_def dm_new_def dm_len_def dm_ensure_capacity_def)
  with dialogs_bounded [OF reach] reach show ?thesis by auto
qed

text \<open>
  A BYE ends its dialog. After a dialog is established on an INVITE with number \<open>k\<close>, a BYE that
  matches it is absorbed if its number is at most \<open>k\<close>; otherwise it is delivered as terminating,
  the dialog is gone, and any later message that would match it is out of dialog.
\<close>

theorem bye_ends_dialog:
  assumes "establish_uas m invite tag n1 = (m1, Inr i)" "cseq invite = Inr (k, m')"
    "bye = Request line h b" "rl_method line = Bye" "match_id bye = Some i" "cseq bye = Inr (n, m'')"
  shows "if n \<le> k then snd (dm_handle_request m1 bye n2) = RAbsorbed
     else snd (dm_handle_request m1 bye n2) = RTerminated bye \<and>
       \<not> dm_contains (fst (dm_handle_request m1 bye n2)) i \<and>
       (\<forall>msg n3. match_id msg = Some i \<longrightarrow>
          snd (dm_handle_request (fst (dm_handle_request m1 bye n2)) msg n3) = RNoDialog msg)"
proof -
  obtain d where d: "new_uas invite tag = Inr d" "i = dlg_id d" "m1 = fst (dm_insert m d n1)"
    using assms(1) by (auto simp: establish_uas_def dm_insert_def split: sum.splits)
  have look: "map_of (dm_dialogs m1) i = Some \<lparr>de_dialog = d, de_last_activity = n1\<rparr>"
    using d by (simp add: dm_insert_def map_of_table_update)
  have st: "dlg_remote_cseq d = Some k" "\<not> dialog_is_terminated d"
    using d(1) assms(2) new_dialog_live(1) [OF d(1)]
    by (auto simp: new_uas_def result_simps cseq_number_def)
  note bye = assms(3,4)
  have proc: "dialog_process d (DRequest bye) =
      (if n \<le> k then (d, [])
       else (d\<lparr>dlg_remote_cseq := Some n, dlg_state := DTerminated\<rparr>, [DDeliver bye, DComplete]))"
    using st bye assms(6) by (simp add: dialog_process_def dialog_on_request_def stale_cseq_def)
  show ?thesis
    using assms(5) look proc
    by (simp add: dm_handle_request_def dm_route_def dm_contains_def table_simps)
qed

text \<open>A BYE of the caller in the dialog of the sample call.\<close>

definition sample_call_bye :: "u32 \<Rightarrow> sip_message" where
  "sample_call_bye n =
     Request (request_line_new Bye sample_uri)
       (hdr_of_lines
         [(Via, ''SIP/2.0/UDP 192.168.1.1:5060;branch=z9hG4bK78''),
          (From, ''<sip:3401@192.168.1.1>;tag=a1''),
          (To, ''<sip:3402@192.168.1.64>;tag=b2''),
          (CallId, ''c1''), (CSeq, cseq_value n Bye)]) []"

theorem bye_ends_dialog_witness:
  "\<exists>m1 i. establish_uas (dm_new default_dialog_manager_config) sample_call_invite ''b2'' 5 = (m1, Inr i) \<and>
     dm_contains m1 i \<and>
     snd (dm_handle_request m1 (sample_call_bye 8) 9) = RTerminated (sample_call_bye 8) \<and>
     \<not> dm_contains (fst (dm_handle_request m1 (sample_call_bye 8) 9)) i"
proof -
  let ?m = "dm_new default_dialog_manager_config"
  let ?i = "\<lparr>did_call_id = ''c1'', did_local_tag = ''b2'', did_remote_tag = ''a1''\<rparr>"
  obtain m1 where e: "establish_uas ?m sample_call_invite ''b2'' 5 = (m1, Inr ?i)" "dm_contains m1 ?i"
    by (simp add: establish_uas_def sample_dialogs dm_insert_def dm_contains_def map_of_table_update)
  have f: "cseq (sample_call_bye 8) = Inr (8, Bye)" "match_id (sample_call_bye 8) = Some ?i"
    unfolding sample_call_bye_def cseq_def match_id_def call_id_def
    by (simp_all add: hdr_get_scan hdr_of_lines_props header_name_eq_def sample_tags request_line_new_def)
  have "rl_method (request_line_new Bye sample_uri) = Bye" by (simp add: request_line_new_def)
  from bye_ends_dialog [OF e(1) sample_call_fields(5) sample_call_bye_def this f(2,1), of 9] e
  show ?thesis by auto
qed

end
