(* ===== verification/Driver.thy ===== *)
theory Driver
  imports SipWire TransactionManager DialogManager
begin

text \<open>
  The transport driver: \<open>shared.rs\<close>, \<open>udp.rs\<close> and \<open>tcp.rs\<close> of \<open>cheetah-gb28181-driver-tokio\<close>, with
  \<open>routing.rs\<close> and \<open>access.rs\<close> of \<open>cheetah-gb28181-core\<close>. It composes the parser, the transaction
  managers of the two transports, the dialog manager and an access machine. As in the code, the
  access machine is a parameter: any implementation of the trait \<open>GbAccessMachine\<close>. The clock
  readings of one call are one argument. A panic is \<open>None\<close>; a lock is poisoned only after a panic,
  so the error for a poisoned lock has no branch of its own.
\<close>

section \<open>The access machine\<close>

type_synonym ip_addr = "nat list"
type_synonym socket_addr = "ip_addr \<times> nat"

record access_input =
  ai_source :: socket_addr
  ai_now :: nat
  ai_message :: sip_message

datatype 'e access_output =
    SendResponse sip_message
  | SendMessageTo socket_addr sip_message
  | EmitEvent 'e

text \<open>The trait: \<open>'m\<close> is the machine, \<open>'e\<close> its events, \<open>'c\<close> its commands and \<open>'x\<close> its errors.\<close>

record ('m, 'e, 'c, 'x) access_machine =
  am_process :: "'m \<Rightarrow> access_input \<Rightarrow> 'm \<times> ('x + 'e access_output list)"
  am_process_command :: "'m \<Rightarrow> 'c \<Rightarrow> 'm \<times> ('x + 'e access_output list)"
  am_tick :: "'m \<Rightarrow> nat \<Rightarrow> 'm \<times> ('x + 'e access_output list)"

section \<open>Routing by method\<close>

datatype request_route =
    Route_Register | Route_Message | Route_Options | Route_Invite | Route_Ack | Route_Cancel
  | Route_Bye | Route_Info | Route_Subscribe | Route_Notify | Route_Unsupported

fun from_method :: "sip_method \<Rightarrow> request_route" where
  "from_method Register = Route_Register"
| "from_method Message = Route_Message"
| "from_method Options = Route_Options"
| "from_method Invite = Route_Invite"
| "from_method Ack = Route_Ack"
| "from_method Cancel = Route_Cancel"
| "from_method Bye = Route_Bye"
| "from_method Info = Route_Info"
| "from_method Subscribe = Route_Subscribe"
| "from_method Notify = Route_Notify"
| "from_method (OtherMethod _) = Route_Unsupported"

definition delivers_to_tu :: "request_route \<Rightarrow> bool" where
  "delivers_to_tu r \<longleftrightarrow> r \<noteq> Route_Ack"

definition is_dialog :: "request_route \<Rightarrow> bool" where
  "is_dialog r \<longleftrightarrow> r \<in> {Route_Invite, Route_Ack, Route_Bye, Route_Info}"

definition creates_server_transaction :: "request_route \<Rightarrow> bool" where
  "creates_server_transaction r \<longleftrightarrow> r \<noteq> Route_Ack"

fun route_request :: "sip_message \<Rightarrow> request_route option" where
  "route_request (Request line _ _) = Some (from_method (rl_method line))"
| "route_request (Response _ _ _) = None"

section \<open>Shared state\<close>

datatype 'e driver_action =
    SendTo sip_message socket_addr
  | Emit 'e

record 'm shared =
  sh_access :: 'm
  sh_parser_config :: sip_parser_config
  sh_normalize :: bool
  sh_max_datagram_size :: nat
  sh_max_per_source :: nat
  sh_conn_permits :: nat
  sh_per_source :: "(ip_addr, nat) table"
  sh_udp_txns :: "socket_addr manager"
  sh_tcp_txns :: "socket_addr manager"
  sh_dialogs :: dialog_manager

definition shared_new ::
    "'m \<Rightarrow> sip_parser_config \<Rightarrow> bool \<Rightarrow> nat \<Rightarrow> nat \<Rightarrow> nat \<Rightarrow> manager_config \<Rightarrow> 'm shared" where
  "shared_new access parser_config nrm max_datagram_size max_connections max_per_source cfg =
     (let udp_config = cfg\<lparr>mc_transaction := (mc_transaction cfg)\<lparr>transport := Unreliable\<rparr>\<rparr>;
          tcp_config = cfg\<lparr>mc_transaction := (mc_transaction cfg)\<lparr>transport := Reliable\<rparr>\<rparr>
      in \<lparr>sh_access = access, sh_parser_config = parser_config, sh_normalize = nrm,
          sh_max_datagram_size = max_datagram_size, sh_max_per_source = max_per_source,
          sh_conn_permits = max_connections, sh_per_source = [],
          sh_udp_txns = manager_new udp_config, sh_tcp_txns = manager_new tcp_config,
          sh_dialogs = dm_new (default_dialog_manager_config\<lparr>dmc_max_dialogs := mc_max_transactions cfg\<rparr>)\<rparr>)"

definition txns :: "bool \<Rightarrow> 'm shared \<Rightarrow> socket_addr manager" where
  "txns reliable sh = (if reliable then sh_tcp_txns sh else sh_udp_txns sh)"

definition set_txns :: "bool \<Rightarrow> socket_addr manager \<Rightarrow> 'm shared \<Rightarrow> 'm shared" where
  "set_txns reliable m sh = (if reliable then sh\<lparr>sh_tcp_txns := m\<rparr> else sh\<lparr>sh_udp_txns := m\<rparr>)"

text \<open>The sends among the outputs of a transaction manager.\<close>

fun sends_of :: "socket_addr manager_output list \<Rightarrow> 'e driver_action list" where
  "sends_of [] = []"
| "sends_of (MSend m t # out) = SendTo m t # sends_of out"
| "sends_of (MDeliver _ # out) = sends_of out"
| "sends_of (MFailure _ # out) = sends_of out"

section \<open>Incoming messages\<close>

fun access_action :: "socket_addr \<Rightarrow> 'e access_output \<Rightarrow> 'e driver_action" where
  "access_action source (SendResponse m) = SendTo m source"
| "access_action source (SendMessageTo t m) = SendTo m t"
| "access_action source (EmitEvent e) = Emit e"

definition process_access ::
    "('m, 'e, 'c, 'x) access_machine \<Rightarrow> 'm shared \<Rightarrow> socket_addr \<Rightarrow> sip_message \<Rightarrow> duration
       \<Rightarrow> 'm shared \<times> ('x + 'e driver_action list)" where
  "process_access am sh source message now =
     (case am_process am (sh_access sh)
             \<lparr>ai_source = source, ai_now = now div 1000000000, ai_message = message\<rparr> of
        (acc, Inl e) \<Rightarrow> (sh\<lparr>sh_access := acc\<rparr>, Inl e)
      | (acc, Inr outputs) \<Rightarrow> (sh\<lparr>sh_access := acc\<rparr>, Inr (map (access_action source) outputs)))"

text \<open>The loop over the outputs for a response; an error of the access machine ends it.\<close>

fun response_actions ::
    "('m, 'e, 'c, 'x) access_machine \<Rightarrow> socket_addr \<Rightarrow> duration \<Rightarrow> socket_addr manager_output list
       \<Rightarrow> 'm shared \<Rightarrow> 'm shared \<times> ('x + 'e driver_action list)" where
  "response_actions am source now [] sh = (sh, Inr [])"
| "response_actions am source now (MSend m t # out) sh =
     (case response_actions am source now out sh of
        (sh', Inl e) \<Rightarrow> (sh', Inl e)
      | (sh', Inr acts) \<Rightarrow> (sh', Inr (SendTo m t # acts)))"
| "response_actions am source now (MDeliver m # out) sh =
     (case process_access am sh source m now of
        (sh1, Inl e) \<Rightarrow> (sh1, Inl e)
      | (sh1, Inr acts) \<Rightarrow>
          (case response_actions am source now out sh1 of
             (sh', Inl e) \<Rightarrow> (sh', Inl e)
           | (sh', Inr acts') \<Rightarrow> (sh', Inr (acts @ acts'))))"
| "response_actions am source now (MFailure _ # out) sh = response_actions am source now out sh"

type_synonym ('m, 'e, 'x) incoming = "('m shared \<times> ('x + 'e driver_action list)) option"

definition handle_incoming_response ::
    "('m, 'e, 'c, 'x) access_machine \<Rightarrow> 'm shared \<Rightarrow> socket_addr \<Rightarrow> sip_message \<Rightarrow> bool \<Rightarrow> duration
       \<Rightarrow> ('m, 'e, 'x) incoming" where
  "handle_incoming_response am sh source message reliable now =
     do { (txs, out) \<leftarrow> handle_response (txns reliable sh) message now;
          Some (response_actions am source now out (set_txns reliable txs sh)) }"

text \<open>The dialog layer: the request that is still to be delivered.\<close>

definition route_in_dialog ::
    "'m shared \<Rightarrow> request_route option \<Rightarrow> sip_message \<Rightarrow> duration \<Rightarrow> 'm shared \<times> sip_message option" where
  "route_in_dialog sh route req now =
     (if (case route of None \<Rightarrow> False | Some r \<Rightarrow> is_dialog r) then
        (case dm_handle_request (sh_dialogs sh) req now of
           (dm, routing) \<Rightarrow>
             (sh\<lparr>sh_dialogs := dm\<rparr>,
              case routing of
                RNoDialog msg \<Rightarrow> Some msg
              | RDeliver msg \<Rightarrow> Some msg
              | RTerminated msg \<Rightarrow> Some msg
              | RAbsorbed \<Rightarrow> None
              | RFailure _ \<Rightarrow> None))
      else (sh, Some req))"

fun is_success_response :: "sip_message \<Rightarrow> bool" where
  "is_success_response (Response line _ _) \<longleftrightarrow> 200 \<le> sl_code line \<and> sl_code line < 300"
| "is_success_response (Request _ _ _) \<longleftrightarrow> False"

definition response_to_tag :: "sip_message \<Rightarrow> string option" where
  "response_to_tag message = Option.bind (hdr_get To (msg_headers message)) extract_tag"

text \<open>One action of the access machine in answer to a request.\<close>

fun answer_action ::
    "socket_addr \<Rightarrow> bool \<Rightarrow> transaction_key option \<Rightarrow> sip_message option \<Rightarrow> duration \<Rightarrow> 'm shared
       \<Rightarrow> 'e driver_action \<Rightarrow> ('m shared \<times> 'e driver_action list) option" where
  "answer_action source reliable key establish_invite now sh (SendTo m t) =
     (if t \<noteq> source \<or> is_request m then Some (sh, [SendTo m t])
      else
        (let sh1 =
               (case (establish_invite, response_to_tag m) of
                  (Some invite, Some tag) \<Rightarrow>
                    if is_success_response m
                    then sh\<lparr>sh_dialogs := fst (establish_uas (sh_dialogs sh) invite tag now)\<rparr> else sh
                | _ \<Rightarrow> sh)
         in case key of
              Some k \<Rightarrow>
                do { (txs, out) \<leftarrow> provide_response (txns reliable sh1) k m now;
                     Some (set_txns reliable txs sh1, sends_of out) }
            | None \<Rightarrow> Some (sh1, [SendTo m t])))"
| "answer_action source reliable key establish_invite now sh (Emit e) = Some (sh, [Emit e])"

fun answer_actions ::
    "socket_addr \<Rightarrow> bool \<Rightarrow> transaction_key option \<Rightarrow> sip_message option \<Rightarrow> duration
       \<Rightarrow> 'e driver_action list \<Rightarrow> 'm shared \<Rightarrow> ('m shared \<times> 'e driver_action list) option" where
  "answer_actions source reliable key invite now [] sh = Some (sh, [])"
| "answer_actions source reliable key invite now (a # as) sh =
     do { (sh1, acts) \<leftarrow> answer_action source reliable key invite now sh a;
          (sh2, acts') \<leftarrow> answer_actions source reliable key invite now as sh1;
          Some (sh2, acts @ acts') }"

definition handle_incoming_request ::
    "('m, 'e, 'c, 'x) access_machine \<Rightarrow> 'm shared \<Rightarrow> socket_addr \<Rightarrow> sip_message \<Rightarrow> bool \<Rightarrow> duration
       \<Rightarrow> ('m, 'e, 'x) incoming" where
  "handle_incoming_request am sh source message reliable now =
     (let route = route_request message in
      do { (txs, ro) \<leftarrow> handle_request (txns reliable sh) message source now;
           let sh1 = set_txns reliable txs sh;
           let actions = sends_of (ro_outputs ro);
           let (sh2, deliver) =
             (if ro_deliver ro \<and> (case route of None \<Rightarrow> True | Some r \<Rightarrow> delivers_to_tu r)
              then route_in_dialog sh1 route message now else (sh1, None));
           case deliver of
             None \<Rightarrow> Some (sh2, Inr actions)
           | Some req \<Rightarrow>
               (case process_access am sh2 source req now of
                  (sh3, Inl e) \<Rightarrow> Some (sh3, Inl e)
                | (sh3, Inr outputs) \<Rightarrow>
                    do { (sh4, acts) \<leftarrow>
                           answer_actions source reliable (ro_key ro)
                             (if route = Some Route_Invite then Some req else None) now outputs sh3;
                         Some (sh4, Inr (actions @ acts)) }) })"

fun handle_incoming ::
    "('m, 'e, 'c, 'x) access_machine \<Rightarrow> 'm shared \<Rightarrow> socket_addr \<Rightarrow> sip_message \<Rightarrow> bool \<Rightarrow> duration
       \<Rightarrow> ('m, 'e, 'x) incoming" where
  "handle_incoming am sh source (Response line h b) reliable now =
     handle_incoming_response am sh source (Response line h b) reliable now"
| "handle_incoming am sh source (Request line h b) reliable now =
     handle_incoming_request am sh source (Request line h b) reliable now"

section \<open>Commands and ticks\<close>

fun command_actions ::
    "duration \<Rightarrow> 'e access_output list \<Rightarrow> 'm shared \<Rightarrow> 'm shared \<times> 'e driver_action list" where
  "command_actions now [] sh = (sh, [])"
| "command_actions now (SendMessageTo t m # outs) sh =
     (case start_client_transaction (sh_udp_txns sh) m t now of
        (txs, out) \<Rightarrow>
          (case command_actions now outs (sh\<lparr>sh_udp_txns := txs\<rparr>) of
             (sh', acts) \<Rightarrow> (sh', sends_of out @ acts)))"
| "command_actions now (SendResponse _ # outs) sh = command_actions now outs sh"
| "command_actions now (EmitEvent e # outs) sh =
     (case command_actions now outs sh of (sh', acts) \<Rightarrow> (sh', Emit e # acts))"

definition handle_command ::
    "('m, 'e, 'c, 'x) access_machine \<Rightarrow> 'm shared \<Rightarrow> 'c \<Rightarrow> duration
       \<Rightarrow> 'm shared \<times> ('x + 'e driver_action list)" where
  "handle_command am sh cmd now =
     (case am_process_command am (sh_access sh) cmd of
        (acc, Inl e) \<Rightarrow> (sh\<lparr>sh_access := acc\<rparr>, Inl e)
      | (acc, Inr outputs) \<Rightarrow>
          (case command_actions now outputs (sh\<lparr>sh_access := acc\<rparr>) of (sh', acts) \<Rightarrow> (sh', Inr acts)))"

fun events_of :: "'e access_output list \<Rightarrow> 'e driver_action list" where
  "events_of [] = []"
| "events_of (EmitEvent e # outs) = Emit e # events_of outs"
| "events_of (_ # outs) = events_of outs"

definition tick_access ::
    "('m, 'e, 'c, 'x) access_machine \<Rightarrow> 'm shared \<Rightarrow> nat \<Rightarrow> 'm shared \<times> ('x + 'e driver_action list)" where
  "tick_access am sh now =
     (case am_tick am (sh_access sh) now of
        (acc, Inl e) \<Rightarrow> (sh\<lparr>sh_access := acc\<rparr>, Inl e)
      | (acc, Inr outputs) \<Rightarrow> (sh\<lparr>sh_access := acc\<rparr>, Inr (events_of outputs)))"

definition tick_transactions ::
    "'m shared \<Rightarrow> duration \<Rightarrow> ('m shared \<times> 'e driver_action list) option" where
  "tick_transactions sh now =
     do { (udp, o1) \<leftarrow> tick (sh_udp_txns sh) now;
          (tcp, o2) \<leftarrow> tick (sh_tcp_txns sh) now;
          Some (sh\<lparr>sh_dialogs := dm_tick (sh_dialogs sh) now, sh_udp_txns := udp, sh_tcp_txns := tcp\<rparr>,
                sends_of o1 @ sends_of o2) }"

section \<open>Connection slots\<close>

definition acquire_source :: "'m shared \<Rightarrow> ip_addr \<Rightarrow> 'm shared \<times> bool" where
  "acquire_source sh ip =
     (let t = (case map_of (sh_per_source sh) ip of
                 None \<Rightarrow> AList.update ip 0 (sh_per_source sh) | Some _ \<Rightarrow> sh_per_source sh);
          n = (case map_of t ip of None \<Rightarrow> 0 | Some k \<Rightarrow> k)
      in if sh_max_per_source sh \<le> n
         then (sh\<lparr>sh_per_source := (if n = 0 then AList.delete ip t else t)\<rparr>, False)
         else (sh\<lparr>sh_per_source := AList.update ip (n + 1) t\<rparr>, True))"

definition release_source :: "'m shared \<Rightarrow> ip_addr \<Rightarrow> 'm shared" where
  "release_source sh ip =
     (case map_of (sh_per_source sh) ip of
        None \<Rightarrow> sh
      | Some n \<Rightarrow>
          (let t = AList.update ip (n - 1) (sh_per_source sh)
           in sh\<lparr>sh_per_source := (if n - 1 = 0 then AList.delete ip t else t)\<rparr>))"

text \<open>The accept loop for one connection, and the end of its task.\<close>

definition accept_connection :: "'m shared \<Rightarrow> socket_addr \<Rightarrow> 'm shared \<times> bool" where
  "accept_connection sh peer =
     (if sh_conn_permits sh = 0 then (sh, False)
      else
        (let sh1 = sh\<lparr>sh_conn_permits := sh_conn_permits sh - 1\<rparr> in
         case acquire_source sh1 (fst peer) of
           (sh2, True) \<Rightarrow> (sh2, True)
         | (sh2, False) \<Rightarrow> (sh2\<lparr>sh_conn_permits := sh_conn_permits sh2 + 1\<rparr>, False)))"

definition close_connection :: "'m shared \<Rightarrow> socket_addr \<Rightarrow> 'm shared" where
  "close_connection sh peer =
     (let sh1 = release_source sh (fst peer) in sh1\<lparr>sh_conn_permits := sh_conn_permits sh1 + 1\<rparr>)"

section \<open>UDP\<close>

text \<open>What leaves the driver: the bytes that are written and the events for the sink.\<close>

fun udp_perform :: "'e driver_action list \<Rightarrow> (string \<times> socket_addr) list \<times> 'e list" where
  "udp_perform [] = ([], [])"
| "udp_perform (SendTo m t # as) = (case udp_perform as of (w, es) \<Rightarrow> ((encode_message m, t) # w, es))"
| "udp_perform (Emit e # as) = (case udp_perform as of (w, es) \<Rightarrow> (w, e # es))"

definition handle_datagram ::
    "('m, 'e, 'c, 'x) access_machine \<Rightarrow> 'm shared \<Rightarrow> string \<Rightarrow> socket_addr \<Rightarrow> duration
       \<Rightarrow> ('m shared \<times> (string \<times> socket_addr) list \<times> 'e list) option" where
  "handle_datagram am sh data source now =
     (case parse_datagram data (sh_parser_config sh) (sh_normalize sh) of
        Inl _ \<Rightarrow> Some (sh, [], [])
      | Inr message \<Rightarrow>
          do { (sh', r) \<leftarrow> handle_incoming am sh source message False now;
               Some (sh', case r of Inl _ \<Rightarrow> ([], []) | Inr actions \<Rightarrow> udp_perform actions) })"

definition recv_datagram ::
    "('m, 'e, 'c, 'x) access_machine \<Rightarrow> 'm shared \<Rightarrow> string \<Rightarrow> socket_addr \<Rightarrow> duration
       \<Rightarrow> ('m shared \<times> (string \<times> socket_addr) list \<times> 'e list) option" where
  "recv_datagram am sh data source now =
     (if sh_max_datagram_size sh < length data then Some (sh, [], [])
      else handle_datagram am sh data source now)"

section \<open>TCP\<close>

text \<open>
  The state of a connection is what it has written and the events it has emitted. Whether the
  next write fails is up to the environment: \<open>broken\<close> is a function of what was written before.
\<close>

record 'e conn_io =
  io_written :: "string list"
  io_events :: "'e list"

fun tcp_perform ::
    "(string list \<Rightarrow> bool) \<Rightarrow> 'e driver_action list \<Rightarrow> 'e conn_io \<Rightarrow> 'e conn_io \<times> bool" where
  "tcp_perform broken [] io = (io, True)"
| "tcp_perform broken (SendTo m _ # as) io =
     (if broken (io_written io) then (io, False)
      else tcp_perform broken as (io\<lparr>io_written := io_written io @ [encode_message m]\<rparr>))"
| "tcp_perform broken (Emit e # as) io = tcp_perform broken as (io\<lparr>io_events := io_events io @ [e]\<rparr>)"

text \<open>
  \<open>drain_messages\<close>: the parser is \<open>None\<close> when the connection must be closed.
\<close>

function drain_messages ::
    "('m, 'e, 'c, 'x) access_machine \<Rightarrow> (string list \<Rightarrow> bool) \<Rightarrow> socket_addr \<Rightarrow> duration
       \<Rightarrow> 'm shared \<Rightarrow> sip_parser \<Rightarrow> 'e conn_io \<Rightarrow> ('m shared \<times> 'e conn_io \<times> sip_parser option) option" where
  "drain_messages am broken peer now sh p io =
     (case pop_message p of
        (p', None) \<Rightarrow> Some (sh, io, Some p')
      | (p', Some (Inl _)) \<Rightarrow> Some (sh, io, None)
      | (p', Some (Inr message)) \<Rightarrow>
          (case handle_incoming am sh peer message True now of
             None \<Rightarrow> None
           | Some (sh', Inl _) \<Rightarrow> Some (sh', io, None)
           | Some (sh', Inr actions) \<Rightarrow>
               (case tcp_perform broken actions io of
                  (io', True) \<Rightarrow> drain_messages am broken peer now sh' p' io'
                | (io', False) \<Rightarrow> Some (sh', io', None))))"
  by pat_completeness auto
termination
  by (relation "measure (\<lambda>(am, broken, peer, now, sh, p, io). pop_weight p)")
     (auto dest: pop_message_weight [OF sym])

declare drain_messages.simps [simp del]

definition serve_chunk ::
    "('m, 'e, 'c, 'x) access_machine \<Rightarrow> (string list \<Rightarrow> bool) \<Rightarrow> socket_addr \<Rightarrow> duration
       \<Rightarrow> 'm shared \<Rightarrow> sip_parser \<Rightarrow> 'e conn_io \<Rightarrow> string \<Rightarrow> ('m shared \<times> 'e conn_io \<times> sip_parser option) option" where
  "serve_chunk am broken peer now sh p io chunk =
     (case parser_feed p chunk of
        (p', Inl _) \<Rightarrow> Some (sh, io, None)
      | (p', Inr _) \<Rightarrow> drain_messages am broken peer now sh p' io)"

text \<open>
  The loop of \<open>handle_connection\<close> over the chunks that arrive, each with the time of its arrival.
  A read of no bytes, an idle timeout, an error and cancellation all end the list.
\<close>

fun serve_chunks ::
    "('m, 'e, 'c, 'x) access_machine \<Rightarrow> (string list \<Rightarrow> bool) \<Rightarrow> socket_addr
       \<Rightarrow> (string \<times> duration) list \<Rightarrow> 'm shared \<Rightarrow> sip_parser \<Rightarrow> 'e conn_io \<Rightarrow> ('m shared \<times> 'e conn_io) option" where
  "serve_chunks am broken peer [] sh p io = Some (sh, io)"
| "serve_chunks am broken peer ((chunk, now) # rest) sh p io =
     (case serve_chunk am broken peer now sh p io chunk of
        None \<Rightarrow> None
      | Some (sh', io', None) \<Rightarrow> Some (sh', io')
      | Some (sh', io', Some p') \<Rightarrow> serve_chunks am broken peer rest sh' p' io')"

definition handle_connection ::
    "('m, 'e, 'c, 'x) access_machine \<Rightarrow> (string list \<Rightarrow> bool) \<Rightarrow> socket_addr
       \<Rightarrow> (string \<times> duration) list \<Rightarrow> 'm shared \<Rightarrow> ('m shared \<times> 'e conn_io) option" where
  "handle_connection am broken peer chunks sh =
     serve_chunks am broken peer chunks sh (parser_new (sh_parser_config sh) (sh_normalize sh))
       \<lparr>io_written = [], io_events = []\<rparr>"

section \<open>What every operation keeps\<close>

definition shared_ok :: "'m shared \<Rightarrow> bool" where
  "shared_ok sh \<longleftrightarrow>
     wf_manager (sh_udp_txns sh) \<and> wf_manager (sh_tcp_txns sh) \<and> wf_dialogs (sh_dialogs sh)"

text \<open>The limits and the connection slots, which the handling of messages does not touch.\<close>

definition limits ::
    "'m shared \<Rightarrow> (sip_parser_config \<times> bool \<times> nat \<times> nat) \<times> (manager_config \<times> manager_config \<times> dialog_manager_config)" where
  "limits sh =
     ((sh_parser_config sh, sh_normalize sh, sh_max_datagram_size sh, sh_max_per_source sh),
      (m_config (sh_udp_txns sh), m_config (sh_tcp_txns sh), dm_config (sh_dialogs sh)))"

definition slots :: "'m shared \<Rightarrow> nat \<times> (ip_addr, nat) table" where
  "slots sh = (sh_conn_permits sh, sh_per_source sh)"

definition keeps :: "'m shared \<Rightarrow> 'm shared \<Rightarrow> bool" where
  "keeps sh sh' \<longleftrightarrow> shared_ok sh' \<and> limits sh' = limits sh \<and> slots sh' = slots sh"

lemma keeps_refl: "shared_ok sh \<Longrightarrow> keeps sh sh"
  by (simp add: keeps_def)

lemma keeps_trans [trans]: "keeps a b \<Longrightarrow> keeps b c \<Longrightarrow> keeps a c"
  by (simp add: keeps_def)

lemma keeps_ok: "keeps sh sh' \<Longrightarrow> shared_ok sh'"
  by (simp add: keeps_def)

lemmas keeps_simps = keeps_def shared_ok_def limits_def slots_def

lemma txns_ok: "shared_ok sh \<Longrightarrow> wf_manager (txns reliable sh)"
  by (simp add: shared_ok_def txns_def)

lemma keeps_set_txns:
  "shared_ok sh \<Longrightarrow> wf_manager m \<Longrightarrow> m_config m = m_config (txns reliable sh) \<Longrightarrow> keeps sh (set_txns reliable m sh)"
  by (cases reliable) (auto simp: keeps_simps set_txns_def txns_def)

lemma keeps_access: "shared_ok sh \<Longrightarrow> keeps sh (sh\<lparr>sh_access := a\<rparr>)"
  by (simp add: keeps_simps)

lemma keeps_dialogs:
  "shared_ok sh \<Longrightarrow> wf_dialogs dm \<Longrightarrow> dm_config dm = dm_config (sh_dialogs sh) \<Longrightarrow> keeps sh (sh\<lparr>sh_dialogs := dm\<rparr>)"
  by (simp add: keeps_simps)

lemma process_access_keeps: "shared_ok sh \<Longrightarrow> keeps sh (fst (process_access am sh source m now))"
  by (auto simp: process_access_def keeps_access split: prod.split sum.split)

lemma response_actions_keeps:
  "shared_ok sh \<Longrightarrow> keeps sh (fst (response_actions am source now out sh))"
proof (induction am source now out sh rule: response_actions.induct)
  case (3 am source now m out sh)
  obtain sh1 r where r: "process_access am sh source m now = (sh1, r)" by fastforce
  have k: "keeps sh sh1" using process_access_keeps [OF 3(2), of am source m now] r by simp
  show ?case
  proof (cases r)
    case (Inr acts)
    have "keeps sh1 (fst (response_actions am source now out sh1))"
      using 3(1) [OF r [symmetric] Inr keeps_ok [OF k]] .
    then have "keeps sh (fst (response_actions am source now out sh1))"
      by (rule keeps_trans [OF k])
    then show ?thesis using r Inr by (auto split: prod.split sum.split)
  qed (use r k in simp)
qed (auto simp: keeps_refl split: prod.split sum.split)

lemma handle_incoming_response_keeps:
  assumes "shared_ok sh"
  shows "\<exists>sh' r. handle_incoming_response am sh source m reliable now = Some (sh', r) \<and> keeps sh sh'"
proof -
  obtain txs out where h: "handle_response (txns reliable sh) m now = Some (txs, out)" "wf_manager txs"
    "m_config txs = m_config (txns reliable sh)"
    using handle_response_ok [OF txns_ok [OF assms]] by blast
  then have "keeps sh (set_txns reliable txs sh)" using assms by (simp add: keeps_set_txns)
  moreover from this have "keeps (set_txns reliable txs sh)
      (fst (response_actions am source now out (set_txns reliable txs sh)))"
    by (intro response_actions_keeps) (rule keeps_ok)
  ultimately have "keeps sh (fst (response_actions am source now out (set_txns reliable txs sh)))"
    by (rule keeps_trans)
  then show ?thesis
    by (cases "response_actions am source now out (set_txns reliable txs sh)")
       (simp add: handle_incoming_response_def h)
qed

lemma route_in_dialog_keeps: "shared_ok sh \<Longrightarrow> keeps sh (fst (route_in_dialog sh route m now))"
proof -
  assume ok: "shared_ok sh"
  then have "keeps sh (sh\<lparr>sh_dialogs := fst (dm_handle_request (sh_dialogs sh) m now)\<rparr>)"
    by (intro keeps_dialogs) (simp_all add: shared_ok_def dm_handle_request_def wf_dialogs_route)
  with ok show ?thesis
    by (auto simp: route_in_dialog_def keeps_refl split: prod.split)
qed

lemma answer_action_keeps:
  assumes "shared_ok sh"
  shows "\<exists>sh' acts. answer_action source reliable key invite now sh a = Some (sh', acts) \<and> keeps sh sh'"
proof (cases a)
  case (SendTo m t)
  let ?sh1 = "case (invite, response_to_tag m) of
      (Some invite, Some tag) \<Rightarrow>
        if is_success_response m
        then sh\<lparr>sh_dialogs := fst (establish_uas (sh_dialogs sh) invite tag now)\<rparr> else sh
    | _ \<Rightarrow> sh"
  have k1: "keeps sh ?sh1"
    using assms
    by (auto simp: keeps_refl split: option.split intro!: keeps_dialogs wf_dialogs_establish)
       (simp_all add: shared_ok_def)
  show ?thesis
  proof (cases "t \<noteq> source \<or> is_request m")
    case True
    with SendTo assms show ?thesis by (simp add: keeps_refl)
  next
    case False
    show ?thesis
    proof (cases key)
      case None
      with False SendTo k1 show ?thesis by (simp add: Let_def)
    next
      case (Some k)
      obtain txs out where p: "provide_response (txns reliable ?sh1) k m now = Some (txs, out)"
        "wf_manager txs" "m_config txs = m_config (txns reliable ?sh1)"
        using provide_response_ok [OF txns_ok [OF keeps_ok [OF k1]]] by blast
      have "keeps sh (set_txns reliable txs ?sh1)"
        by (rule keeps_trans [OF k1]) (rule keeps_set_txns [OF keeps_ok [OF k1] p(2,3)])
      with False Some SendTo p(1) show ?thesis by (simp add: Let_def)
    qed
  qed
next
  case (Emit e)
  with assms show ?thesis by (simp add: keeps_refl)
qed

lemma answer_actions_keeps:
  assumes "shared_ok sh"
  shows "\<exists>sh' acts. answer_actions source reliable key invite now as sh = Some (sh', acts) \<and> keeps sh sh'"
  using assms
proof (induction as arbitrary: sh)
  case Nil
  then show ?case by (simp add: keeps_refl)
next
  case (Cons a as)
  obtain sh1 acts1 where 1: "answer_action source reliable key invite now sh a = Some (sh1, acts1)" "keeps sh sh1"
    using answer_action_keeps [OF Cons.prems] by blast
  from Cons.IH [OF keeps_ok [OF 1(2)]] obtain sh2 acts2 where
    2: "answer_actions source reliable key invite now as sh1 = Some (sh2, acts2)" "keeps sh1 sh2" by blast
  from 1 2 show ?case by (auto intro: keeps_trans)
qed

lemma handle_incoming_request_keeps:
  assumes "shared_ok sh"
  shows "\<exists>sh' r. handle_incoming_request am sh source m reliable now = Some (sh', r) \<and> keeps sh sh'"
proof -
  obtain txs ro where h: "handle_request (txns reliable sh) m source now = Some (txs, ro)" "wf_manager txs"
    "m_config txs = m_config (txns reliable sh)"
    using handle_request_ok [OF txns_ok [OF assms]] by blast
  let ?sh1 = "set_txns reliable txs sh" and ?route = "route_request m"
  have k1: "keeps sh ?sh1" using assms h by (simp add: keeps_set_txns)
  obtain sh2 deliver where 2: "(if ro_deliver ro \<and> (case ?route of None \<Rightarrow> True | Some r \<Rightarrow> delivers_to_tu r)
      then route_in_dialog ?sh1 ?route m now else (?sh1, None)) = (sh2, deliver)" (is "?s2 = _") by fastforce
  have "keeps ?sh1 (fst ?s2)"
    using route_in_dialog_keeps [OF keeps_ok [OF k1]] keeps_refl [OF keeps_ok [OF k1]] by simp
  with k1 2 have k2: "keeps sh sh2" by (auto intro: keeps_trans)
  show ?thesis
  proof (cases deliver)
    case None
    with h 2 k2 show ?thesis by (simp add: handle_incoming_request_def)
  next
    case (Some req)
    obtain sh3 r where 3: "process_access am sh2 source req now = (sh3, r)" by fastforce
    have k3: "keeps sh sh3"
      using process_access_keeps [OF keeps_ok [OF k2], of am source req now] k2 3 by (auto intro: keeps_trans)
    show ?thesis
    proof (cases r)
      case (Inl e)
      with h 2 Some 3 k3 show ?thesis by (simp add: handle_incoming_request_def)
    next
      case (Inr outputs)
      let ?inv = "if ?route = Some Route_Invite then Some req else None"
      obtain sh4 acts where 4: "answer_actions source reliable (ro_key ro) ?inv now outputs sh3 = Some (sh4, acts)"
        "keeps sh3 sh4" using answer_actions_keeps [OF keeps_ok [OF k3]] by blast
      with h 2 Some 3 Inr have "handle_incoming_request am sh source m reliable now
          = Some (sh4, Inr (sends_of (ro_outputs ro) @ acts))"
        by (simp add: handle_incoming_request_def)
      with k3 4(2) show ?thesis by (blast intro: keeps_trans)
    qed
  qed
qed

lemma handle_incoming_keeps:
  "shared_ok sh \<Longrightarrow> \<exists>sh' r. handle_incoming am sh source m reliable now = Some (sh', r) \<and> keeps sh sh'"
  using handle_incoming_request_keeps [of sh am source m] handle_incoming_response_keeps [of sh am source m]
  by (cases m) simp_all

lemma command_actions_keeps: "shared_ok sh \<Longrightarrow> keeps sh (fst (command_actions now outs sh))"
proof (induction now outs sh rule: command_actions.induct)
  case (2 now t m outs sh)
  obtain txs out where s: "start_client_transaction (sh_udp_txns sh) m t now = (txs, out)" by fastforce
  have "wf_manager txs" "m_config txs = m_config (sh_udp_txns sh)"
    using start_client_ok [of "sh_udp_txns sh" m t now] 2(2) s by (auto simp: shared_ok_def)
  then have "keeps sh (sh\<lparr>sh_udp_txns := txs\<rparr>)" using 2(2) by (simp add: keeps_simps)
  with 2(1) [OF s [symmetric]] s show ?case
    by (auto simp: keeps_ok split: prod.split dest: keeps_trans)
qed (auto simp: keeps_refl split: prod.split)

lemma handle_command_keeps:
  fixes am :: "('m, 'e, 'c, 'x) access_machine"
  assumes ok: "shared_ok sh"
  shows "keeps sh (fst (handle_command am sh cmd now))"
proof -
  have "keeps sh (fst (command_actions now outs (sh\<lparr>sh_access := a\<rparr>)))"
    for a and outs :: "'e access_output list"
    by (rule keeps_trans [OF keeps_access [OF ok]], rule command_actions_keeps, rule keeps_ok, rule keeps_access [OF ok])
  then show ?thesis
    using keeps_access [OF ok] by (simp add: handle_command_def case_prod_beta split: sum.split)
qed

lemma tick_access_keeps: "shared_ok sh \<Longrightarrow> keeps sh (fst (tick_access am sh now))"
  by (auto simp: tick_access_def keeps_access split: prod.split sum.split)

lemma tick_transactions_keeps:
  assumes "shared_ok sh"
  shows "tick_transactions sh now \<noteq> None"
    "tick_transactions sh now = Some (sh', acts) \<Longrightarrow> keeps sh sh'"
proof -
  obtain udp o1 where 1: "tick (sh_udp_txns sh) now = Some (udp, o1)" "wf_manager udp"
    "m_config udp = m_config (sh_udp_txns sh)" using tick_ok assms unfolding shared_ok_def by blast
  obtain tcp o2 where 2: "tick (sh_tcp_txns sh) now = Some (tcp, o2)" "wf_manager tcp"
    "m_config tcp = m_config (sh_tcp_txns sh)" using tick_ok assms unfolding shared_ok_def by blast
  from 1 2 show "tick_transactions sh now \<noteq> None" by (simp add: tick_transactions_def)
  from 1 2 assms show "keeps sh sh'" if "tick_transactions sh now = Some (sh', acts)"
    using that by (auto simp: tick_transactions_def keeps_simps wf_dialogs_tick)
qed

lemma recv_datagram_keeps:
  assumes "shared_ok sh"
  shows "\<exists>sh' out. recv_datagram am sh data source now = Some (sh', out) \<and> keeps sh sh'"
proof (cases "parse_datagram data (sh_parser_config sh) (sh_normalize sh)")
  case (Inr m)
  obtain sh' r where "handle_incoming am sh source m False now = Some (sh', r)" "keeps sh sh'"
    using handle_incoming_keeps [OF assms] by blast
  with Inr assms show ?thesis
    by (simp add: recv_datagram_def handle_datagram_def keeps_refl)
qed (simp add: recv_datagram_def handle_datagram_def keeps_refl assms)

lemma drain_messages_keeps:
  assumes "shared_ok sh" "parser_reach cfg nrm p"
  shows "\<exists>sh' io' r. drain_messages am broken peer now sh p io = Some (sh', io', r) \<and> keeps sh sh'
    \<and> (\<forall>p'. r = Some p' \<longrightarrow> parser_reach cfg nrm p')"
  using assms
proof (induction am broken peer now sh p io rule: drain_messages.induct)
  case (1 am broken peer now sh p io)
  obtain p1 x where pop: "pop_message p = (p1, x)" by fastforce
  have reach: "parser_reach cfg nrm p1" using parser_reach.pop [OF 1(3)] pop by simp
  note D = drain_messages.simps [of am broken peer now sh p io]
  consider "x = None" | e where "x = Some (Inl e)" | m where "x = Some (Inr m)"
    by (metis option.exhaust sumE)
  then show ?case
  proof cases
    case (3 m)
    obtain sh1 r where h: "handle_incoming am sh peer m True now = Some (sh1, r)" "keeps sh sh1"
      using handle_incoming_keeps [OF \<open>shared_ok sh\<close>] by blast
    show ?thesis
    proof (cases r)
      case (Inr acts)
      obtain io1 ok where t: "tcp_perform broken acts io = (io1, ok)" by fastforce
      show ?thesis
      proof (cases ok)
        case True
        from True 1(1) [OF pop [symmetric] 3 refl h(1) refl Inr t [symmetric] _ keeps_ok [OF h(2)] reach]
        obtain sh' io' r' where "drain_messages am broken peer now sh1 p1 io1 = Some (sh', io', r')"
          "keeps sh1 sh'" "\<forall>p'. r' = Some p' \<longrightarrow> parser_reach cfg nrm p'" by blast
        with pop 3 h Inr t True show ?thesis by (auto simp: D intro: keeps_trans)
      qed (use pop 3 h Inr t in \<open>simp add: D\<close>)
    qed (use pop 3 h in \<open>simp add: D\<close>)
  qed (use pop reach \<open>shared_ok sh\<close> in \<open>simp_all add: D keeps_refl\<close>)
qed

lemma serve_chunk_keeps:
  assumes "shared_ok sh" "parser_reach cfg nrm p"
  shows "\<exists>sh' io' r. serve_chunk am broken peer now sh p io chunk = Some (sh', io', r) \<and> keeps sh sh'
    \<and> (\<forall>p'. r = Some p' \<longrightarrow> parser_reach cfg nrm p')"
proof -
  obtain p1 r where f: "parser_feed p chunk = (p1, r)" by fastforce
  have "parser_reach cfg nrm p1" using parser_reach.feed [OF assms(2), of chunk] f by simp
  from drain_messages_keeps [OF assms(1) this] f show ?thesis
    by (cases r) (simp_all add: serve_chunk_def keeps_refl assms(1))
qed

section \<open>Connection slots\<close>

text \<open>The table of connections per source holds the number of open connections, if there are any.\<close>

definition slots_ok :: "nat \<Rightarrow> socket_addr list \<Rightarrow> 'm shared \<Rightarrow> bool" where
  "slots_ok mx peers sh \<longleftrightarrow>
     wf_table (sh_per_source sh) \<and> sh_conn_permits sh + length peers = mx
     \<and> (\<forall>ip. map_of (sh_per_source sh) ip =
          (let n = count_list (map fst peers) ip in if n = 0 then None else Some n))
     \<and> (\<forall>ip. count_list (map fst peers) ip \<le> sh_max_per_source sh)"

lemma slots_ok_slots:
  "slots sh' = slots sh \<Longrightarrow> sh_max_per_source sh' = sh_max_per_source sh \<Longrightarrow> slots_ok mx peers sh' = slots_ok mx peers sh"
  by (simp add: slots_ok_def slots_def)

lemma acquire_source_eq:
  assumes "map_of (sh_per_source sh) ip = (if n = 0 then None else Some n)"
  shows "acquire_source sh ip =
    (if sh_max_per_source sh \<le> n then (sh, False)
     else (sh\<lparr>sh_per_source := AList.update ip (n + 1) (sh_per_source sh)\<rparr>, True))"
proof (cases "n = 0")
  case True
  with assms have "ip \<notin> fst ` set (sh_per_source sh)" by (simp add: map_of_eq_None_iff)
  then have "AList.delete ip (sh_per_source sh) = sh_per_source sh" by (rule delete_id)
  with True assms show ?thesis
    by (simp add: acquire_source_def Let_def map_of_table_update delete_update_same update_last)
qed (use assms in \<open>simp add: acquire_source_def\<close>)

lemma slots_ok_accept:
  assumes "slots_ok mx peers sh" "accept_connection sh peer = (sh', ok)"
  shows "slots_ok mx (if ok then peers @ [peer] else peers) sh'"
proof -
  let ?sh = "sh\<lparr>sh_conn_permits := sh_conn_permits sh - 1\<rparr>"
  let ?n = "count_list (map fst peers) (fst peer)"
  have "map_of (sh_per_source ?sh) (fst peer) = (if ?n = 0 then None else Some ?n)"
    using assms(1) by (simp add: slots_ok_def Let_def)
  note acq = acquire_source_eq [OF this]
  show ?thesis
  proof (cases "sh_conn_permits sh = 0 \<or> sh_max_per_source sh \<le> ?n")
    case True
    with assms acq have "sh' = sh" "\<not> ok" by (auto simp: accept_connection_def split: if_splits)
    with assms show ?thesis by simp
  next
    case False
    with assms(2) acq have "ok" "sh_max_per_source sh' = sh_max_per_source sh"
      "sh_per_source sh' = AList.update (fst peer) (?n + 1) (sh_per_source sh)"
      "sh_conn_permits sh' = sh_conn_permits sh - 1" by (auto simp: accept_connection_def)
    with assms(1) False show ?thesis
      by (auto simp: slots_ok_def Let_def map_of_table_update wf_table_update)
  qed
qed

lemma slots_ok_close:
  assumes "slots_ok mx peers sh" "mset peers = add_mset peer (mset peers')"
  shows "slots_ok mx peers' (close_connection sh peer)"
proof -
  have c: "count_list (map fst peers) ip = count_list (map fst peers') ip + (if fst peer = ip then 1 else 0)" for ip
  proof -
    have "mset (map fst peers) = add_mset (fst peer) (mset (map fst peers'))" using assms(2) by simp
    from arg_cong [OF this, of "\<lambda>M. count M ip"] show ?thesis
      by (simp add: count_mset del: mset_map)
  qed
  have len: "length peers = Suc (length peers')"
    using arg_cong [OF assms(2), of size] by simp
  let ?n = "count_list (map fst peers') (fst peer)"
  have m: "map_of (sh_per_source sh) (fst peer) = Some (Suc ?n)"
    using assms(1) c by (simp add: slots_ok_def Let_def)
  have le: "count_list (map fst peers') ip \<le> sh_max_per_source sh" for ip
    using assms(1) c [of ip] unfolding slots_ok_def by (metis le_add1 order_trans)
  show ?thesis
    using assms(1) m len c le
    by (auto simp: slots_ok_def close_connection_def release_source_def Let_def table_simps split: if_splits)
qed

section \<open>The running driver\<close>

text \<open>
  A driver is its shared state and its open connections. Its tasks interleave: one step is one
  datagram, one chunk of one connection, one command, one half of a tick, or the begin or the end of
  a connection, at any time. A hash map may change its iteration order at any time.
\<close>

record ('m, 'e) driver =
  dr_shared :: "'m shared"
  dr_conns :: "(socket_addr \<times> sip_parser \<times> 'e conn_io) list"

definition peers :: "('m, 'e) driver \<Rightarrow> socket_addr list" where
  "peers d = map fst (dr_conns d)"

definition reordering :: "'m shared \<Rightarrow> 'm shared \<Rightarrow> bool" where
  "reordering sh sh' \<longleftrightarrow>
     (\<exists>us uc ts tc ds ps.
        mset us = mset (m_server (sh_udp_txns sh)) \<and> mset uc = mset (m_client (sh_udp_txns sh))
        \<and> mset ts = mset (m_server (sh_tcp_txns sh)) \<and> mset tc = mset (m_client (sh_tcp_txns sh))
        \<and> mset ds = mset (dm_dialogs (sh_dialogs sh)) \<and> mset ps = mset (sh_per_source sh)
        \<and> sh' = sh\<lparr>sh_udp_txns := (sh_udp_txns sh)\<lparr>m_server := us, m_client := uc\<rparr>,
                  sh_tcp_txns := (sh_tcp_txns sh)\<lparr>m_server := ts, m_client := tc\<rparr>,
                  sh_dialogs := (sh_dialogs sh)\<lparr>dm_dialogs := ds\<rparr>, sh_per_source := ps\<rparr>)"

inductive driver_step ::
    "('m, 'e, 'c, 'x) access_machine \<Rightarrow> ('m, 'e) driver \<Rightarrow> ('m, 'e) driver \<Rightarrow> bool" for am where
  datagram: "recv_datagram am (dr_shared d) data source now = Some (sh, out) \<Longrightarrow>
    driver_step am d (d\<lparr>dr_shared := sh\<rparr>)"
| accepted: "accept_connection (dr_shared d) peer = (sh, True) \<Longrightarrow>
    driver_step am d \<lparr>dr_shared = sh, dr_conns = dr_conns d @
      [(peer, parser_new (sh_parser_config sh) (sh_normalize sh), \<lparr>io_written = [], io_events = []\<rparr>)]\<rparr>"
| refused: "accept_connection (dr_shared d) peer = (sh, False) \<Longrightarrow>
    driver_step am d (d\<lparr>dr_shared := sh\<rparr>)"
| served: "dr_conns d = cs1 @ (peer, p, io) # cs2 \<Longrightarrow>
    serve_chunk am broken peer now (dr_shared d) p io chunk = Some (sh, io', Some p') \<Longrightarrow>
    driver_step am d \<lparr>dr_shared = sh, dr_conns = cs1 @ (peer, p', io') # cs2\<rparr>"
| closed: "dr_conns d = cs1 @ (peer, p, io) # cs2 \<Longrightarrow>
    serve_chunk am broken peer now (dr_shared d) p io chunk = Some (sh, io', None) \<Longrightarrow>
    driver_step am d \<lparr>dr_shared = close_connection sh peer, dr_conns = cs1 @ cs2\<rparr>"
| ended: "dr_conns d = cs1 @ (peer, p, io) # cs2 \<Longrightarrow>
    driver_step am d \<lparr>dr_shared = close_connection (dr_shared d) peer, dr_conns = cs1 @ cs2\<rparr>"
| command: "driver_step am d (d\<lparr>dr_shared := fst (handle_command am (dr_shared d) cmd now)\<rparr>)"
| ticked_access: "driver_step am d (d\<lparr>dr_shared := fst (tick_access am (dr_shared d) s)\<rparr>)"
| ticked_transactions: "tick_transactions (dr_shared d) now = Some (sh, out :: 'e driver_action list) \<Longrightarrow>
    driver_step am d (d\<lparr>dr_shared := sh\<rparr>)"
| reordered: "reordering (dr_shared d) sh \<Longrightarrow> driver_step am d (d\<lparr>dr_shared := sh\<rparr>)"

definition driver_new :: "'m shared \<Rightarrow> ('m, 'e) driver" where
  "driver_new sh = \<lparr>dr_shared = sh, dr_conns = []\<rparr>"

text \<open>The invariant of the running driver, for the limits \<open>lim\<close> and \<open>mx\<close> connections.\<close>

definition driver_ok ::
    "nat \<Rightarrow> (sip_parser_config \<times> bool \<times> nat \<times> nat) \<times> (manager_config \<times> manager_config \<times> dialog_manager_config)
       \<Rightarrow> ('m, 'e) driver \<Rightarrow> bool" where
  "driver_ok mx lim d \<longleftrightarrow>
     shared_ok (dr_shared d) \<and> limits (dr_shared d) = lim \<and> slots_ok mx (peers d) (dr_shared d)
     \<and> (\<forall>(peer, p, io) \<in> set (dr_conns d). parser_reach (fst (fst lim)) (fst (snd (fst lim))) p)"

lemma limits_eqD:
  assumes "limits sh = lim"
  shows "sh_parser_config sh = fst (fst lim)" "sh_normalize sh = fst (snd (fst lim))"
    "sh_max_per_source sh = snd (snd (snd (fst lim)))"
  using assms by (auto simp: limits_def)

lemma driver_ok_shared:
  "driver_ok mx lim d \<Longrightarrow> keeps (dr_shared d) sh \<Longrightarrow> driver_ok mx lim (d\<lparr>dr_shared := sh\<rparr>)"
  by (auto simp: driver_ok_def keeps_def peers_def slots_ok_slots [of sh "dr_shared d"] limits_def)

lemma accept_limits:
  "accept_connection sh peer = (sh', ok) \<Longrightarrow> shared_ok sh' = shared_ok sh \<and> limits sh' = limits sh"
  by (auto simp: accept_connection_def acquire_source_def Let_def shared_ok_def limits_def
      split: if_splits option.splits)

lemma close_limits:
  "shared_ok (close_connection sh peer) = shared_ok sh" "limits (close_connection sh peer) = limits sh"
  by (auto simp: close_connection_def release_source_def Let_def shared_ok_def limits_def
      split: option.splits)

lemma reordering_ok:
  assumes "reordering sh sh'" "shared_ok sh" "slots_ok mx ps sh"
  shows "shared_ok sh'" "limits sh' = limits sh" "slots_ok mx ps sh'"
proof -
  have *: "wf_manager (m\<lparr>m_server := s, m_client := c\<rparr>)"
    if "wf_manager m" "mset s = mset (m_server m)" "mset c = mset (m_client m)" for m s c
    using that by (auto simp: wf_manager_def dest: entries_ok_mset)
  show "shared_ok sh'" "limits sh' = limits sh"
    using assms(1,2) * wf_dialogs_mset by (auto simp: reordering_def shared_ok_def limits_def)
  obtain t where t: "mset t = mset (sh_per_source sh)" "sh_per_source sh' = t"
    "sh_conn_permits sh' = sh_conn_permits sh" "sh_max_per_source sh' = sh_max_per_source sh"
    using assms(1) by (auto simp: reordering_def)
  have wf: "wf_table (sh_per_source sh)" using assms(3) by (simp add: slots_ok_def)
  have "mset (map fst t) = mset (map fst (sh_per_source sh))" using t(1) by simp
  then have wf': "wf_table t" using wf mset_eq_imp_distinct_iff by blast
  have "map_of t = map_of (sh_per_source sh)"
    using map_of_inject_set [OF wf' wf] mset_eq_setD [OF t(1)] by simp
  with t wf' assms(3) show "slots_ok mx ps sh'" by (simp add: slots_ok_def)
qed

lemma driver_step_ok:
  assumes "driver_step am d d'" "driver_ok mx lim d"
  shows "driver_ok mx lim d'"
proof -
  have ok: "shared_ok (dr_shared d)" and lim: "limits (dr_shared d) = lim"
    and sl: "slots_ok mx (peers d) (dr_shared d)"
    and ps: "\<And>peer p io. (peer, p, io) \<in> set (dr_conns d) \<Longrightarrow>
        parser_reach (fst (fst lim)) (fst (snd (fst lim))) p"
    using assms(2) by (auto simp: driver_ok_def)
  have max: "sh_max_per_source sh = sh_max_per_source (dr_shared d)" if "keeps (dr_shared d) sh" for sh
    using that by (simp add: keeps_def limits_def)
  show ?thesis
    using assms(1)
  proof cases
    case (datagram data source now sh out)
    with recv_datagram_keeps [OF ok, of am data source now] assms(2) show ?thesis
      by (auto intro: driver_ok_shared)
  next
    case (accepted peer sh)
    note a = accept_limits [OF accepted(2)]
    have "slots_ok mx (peers d') sh"
      using slots_ok_accept [OF sl accepted(2)] accepted(1) by (simp add: peers_def)
    with a ok lim ps accepted(1) show ?thesis
      by (auto simp: driver_ok_def limits_eqD [of sh lim] intro: parser_reach.new)
  next
    case (refused peer sh)
    note a = accept_limits [OF refused(2)]
    have "slots_ok mx (peers d') sh"
      using slots_ok_accept [OF sl refused(2)] refused(1) by (simp add: peers_def)
    with a ok lim ps refused(1) show ?thesis by (auto simp: driver_ok_def)
  next
    case (served cs1 peer p io cs2 broken now chunk sh io' p')
    have "parser_reach (fst (fst lim)) (fst (snd (fst lim))) p" using ps [of peer p io] served(2) by simp
    from serve_chunk_keeps [OF ok this, of am broken peer now io chunk] served(3)
    have k: "keeps (dr_shared d) sh" "parser_reach (fst (fst lim)) (fst (snd (fst lim))) p'" by auto
    have "slots_ok mx (peers d') sh"
      using sl k(1) served(1,2) slots_ok_slots [of sh "dr_shared d"] max [OF k(1)]
      by (simp add: peers_def keeps_def)
    with k lim ps served(1,2) show ?thesis by (auto simp: driver_ok_def keeps_def)
  next
    case (closed cs1 peer p io cs2 broken now chunk sh io')
    have "parser_reach (fst (fst lim)) (fst (snd (fst lim))) p" using ps [of peer p io] closed(2) by simp
    from serve_chunk_keeps [OF ok this, of am broken peer now io chunk] closed(3)
    have k: "keeps (dr_shared d) sh" by auto
    have "slots_ok mx (peers d) sh"
      using sl k slots_ok_slots [of sh "dr_shared d"] max [OF k] by (simp add: keeps_def)
    then have "slots_ok mx (peers d') (close_connection sh peer)"
      by (rule slots_ok_close) (simp add: peers_def closed)
    with k lim ps closed(1,2) show ?thesis by (auto simp: driver_ok_def keeps_def close_limits)
  next
    case (ended cs1 peer p io cs2)
    have "slots_ok mx (peers d') (close_connection (dr_shared d) peer)"
      using sl by (rule slots_ok_close) (simp add: peers_def ended)
    with ok lim ps ended show ?thesis by (auto simp: driver_ok_def close_limits)
  next
    case (command cmd now)
    with handle_command_keeps [OF ok, of am cmd now] assms(2) show ?thesis by (auto intro: driver_ok_shared)
  next
    case (ticked_access s)
    with tick_access_keeps [OF ok, of am s] assms(2) show ?thesis by (auto intro: driver_ok_shared)
  next
    case (ticked_transactions now sh out)
    with tick_transactions_keeps(2) [OF ok ticked_transactions(2)] assms(2) show ?thesis
      by (auto intro: driver_ok_shared)
  next
    case (reordered sh)
    with reordering_ok [OF reordered(2) ok sl] lim ps show ?thesis
      by (auto simp: driver_ok_def peers_def)
  qed
qed

lemma driver_new_ok:
  "driver_ok mx (limits (shared_new access pc nrm md mx ms cfg)) (driver_new (shared_new access pc nrm md mx ms cfg))"
  by (simp add: driver_ok_def driver_new_def shared_new_def shared_ok_def slots_ok_def peers_def Let_def
      wf_manager_new wf_dialogs_new)

lemma driver_reach_ok:
  assumes "(driver_step am)\<^sup>*\<^sup>* (driver_new (shared_new access pc nrm md mx ms cfg)) d"
  shows "driver_ok mx (limits (shared_new access pc nrm md mx ms cfg)) d"
  using assms by (induction rule: rtranclp_induct) (auto intro: driver_new_ok driver_step_ok)

section \<open>An access machine that follows a script\<close>

text \<open>The machine counts the messages and answers the \<open>n\<close>-th one with the \<open>n\<close>-th entry of its script.\<close>

definition scripted_machine ::
    "('x + 'e access_output list) list \<Rightarrow> (nat, 'e, 'c, 'x) access_machine" where
  "scripted_machine script =
     \<lparr>am_process = (\<lambda>n i. (Suc n, if n < length script then script ! n else Inr [])),
      am_process_command = (\<lambda>n c. (n, Inr [])), am_tick = (\<lambda>n t. (n, Inr []))\<rparr>"

definition sample_shared :: "nat shared" where
  "sample_shared = shared_new 0 default_parser_config False 65535 2 1 default_manager_config"

abbreviation sample_peer :: socket_addr where
  "sample_peer \<equiv> ([192, 168, 1, 1], 5060)"

lemma sample_shared_ok: "shared_ok sample_shared"
  by (simp add: sample_shared_def shared_new_def shared_ok_def wf_manager_new wf_dialogs_new Let_def)

lemma sample_shared_simps [simp]:
  "m_server (txns r sample_shared) = []" "sh_access sample_shared = 0"
  "mc_branch_policy (m_config (txns r sample_shared)) = Strict"
  "sh_parser_config sample_shared = default_parser_config" "\<not> sh_normalize sample_shared"
  by (simp_all add: sample_shared_def shared_new_def txns_def manager_new_def default_manager_config_def Let_def)

lemma sample_request_method: "request_method (sample_request meth n c) = Some meth"
  by (simp add: sample_request_def request_line_new_def)

lemma sample_server_key:
  "wf_method meth \<Longrightarrow> server_key (txns r sample_shared) (sample_request meth n meth) =
     Some \<lparr>key_branch = ''z9hG4bK77'', key_cseq_method = meth, key_call_id = ''c1'', key_role = Uas\<rparr>"
  unfolding server_key_def by (rule key_for_message_SomeI) (simp_all add: magic_cookie_def)

section \<open>Properties\<close>



section \<open>Retransmissions\<close>

lemma sends_of_targets: "a \<in> set (sends_of out) \<Longrightarrow> \<exists>m t. a = SendTo m t \<and> MSend m t \<in> set out"
  by (induction out rule: sends_of.induct) auto

lemma absorb_outputs_sends:
  "absorb_outputs tgt ts raw = (ts', out) \<Longrightarrow> MSend m t \<in> set out \<Longrightarrow> t = tgt \<and> SendMessage m \<in> set raw"
proof (induction raw arbitrary: ts ts' out)
  case (Cons x raw)
  obtain ts1 o1 where 1: "absorb_output tgt ts x = (ts1, o1)" by fastforce
  obtain ts2 o2 where 2: "absorb_outputs tgt ts1 raw = (ts2, o2)" by fastforce
  have "MSend m t \<in> set o1 \<or> MSend m t \<in> set o2" using Cons.prems 1 2 by auto
  then show ?case
  proof
    assume "MSend m t \<in> set o1"
    with 1 show ?thesis by (cases x) auto
  qed (use Cons.IH [OF 2] in simp)
qed simp

text \<open>A request that its transaction does not deliver stops at the transaction layer.\<close>

lemma undelivered_request:
  assumes "handle_request (txns reliable sh) m source now = Some (txs, ro)" "\<not> ro_deliver ro"
  shows "handle_incoming_request am sh source m reliable now
    = Some (set_txns reliable txs sh, Inr (sends_of (ro_outputs ro)))"
  using assms by (simp add: handle_incoming_request_def)

lemma set_txns_frame [simp]:
  "sh_access (set_txns reliable txs sh) = sh_access sh" "sh_dialogs (set_txns reliable txs sh) = sh_dialogs sh"
  "txns reliable (set_txns reliable txs sh) = txs"
  by (simp_all add: set_txns_def txns_def)

lemma new_request_delivered:
  assumes "request_method msg = Some meth" "meth \<noteq> Ack" "server_key (txns reliable sh) msg = Some key"
    "map_of (m_server (txns reliable sh)) key = None" "\<not> is_dialog (from_method meth) \<or> match_id msg = None"
  shows "\<exists>txs. handle_request (txns reliable sh) msg source now
      = Some (txs, \<lparr>ro_key = Some key, ro_deliver = True, ro_outputs = []\<rparr>)
    \<and> map_of (m_server txs) key = Some \<lparr>e_transaction = ServerTx (server_new msg (mc_transaction (m_config (txns reliable sh)))),
        e_target = source, e_timers = [], e_last_activity = now\<rparr>
    \<and> m_config txs = m_config (txns reliable sh)
    \<and> handle_incoming am sh source msg reliable now =
       (case process_access am (set_txns reliable txs sh) source msg now of
          (sh3, Inl e) \<Rightarrow> Some (sh3, Inl e)
        | (sh3, Inr outputs) \<Rightarrow>
            do { (sh4, acts) \<leftarrow> answer_actions source reliable (Some key)
                   (if meth = Invite then Some msg else None) now outputs sh3;
                 Some (sh4, Inr acts) })"
proof -
  note h = handle_request_new [OF assms(1-4), of source now]
  obtain line hs b where msg: "msg = Request line hs b" "rl_method line = meth"
    using assms(1) by (cases msg) auto
  have inv: "from_method meth = Route_Invite \<longleftrightarrow> meth = Invite" by (cases meth) auto
  have "from_method meth \<noteq> Route_Ack" using assms(2) by (cases meth) auto
  moreover have "route_in_dialog s (Some (from_method meth)) msg now = (s, Some msg)" for s :: "'a shared"
    using assms(5) by (cases s) (auto simp: route_in_dialog_def dm_handle_request_def dm_route_def)
  ultimately show ?thesis
    using h msg inv
    by (simp add: map_of_table_update handle_incoming_request_def delivers_to_tu_def)
qed

lemma retransmission_outcome:
  assumes "wf_manager m" "is_request msg" "server_key m msg = Some key" "map_of (m_server m) key = Some e"
    "request_method (tx_request (e_transaction e)) = request_method msg"
  shows "\<exists>m' out. handle_request m msg target now = Some (m', \<lparr>ro_key = Some key, ro_deliver = False, ro_outputs = out\<rparr>)
    \<and> (\<forall>r t. MSend r t \<in> set out \<longrightarrow> t = e_target e \<and> (\<exists>tx. e_transaction e = ServerTx tx \<and> r \<in> cached tx))"
proof -
  have ok: "entry_ok Uas (mc_branch_policy (m_config m)) key e"
    using assms(1,4) by (auto simp: wf_manager_def entries_ok_def dest!: map_of_SomeD)
  then obtain tx where tx: "e_transaction e = ServerTx tx" "wf_server tx"
    by (cases "e_transaction e") (auto simp: entry_ok_def)
  obtain e' raw out tm where ev: "entry_event e (EvRequest msg) now = Some (e', raw, out, tm)"
    "tx_process (e_transaction e) (EvRequest msg) now = Some (e_transaction e', raw)"
    "(e_timers e', out) = absorb_outputs (e_target e) (e_timers e) raw"
    by (rule entry_event_ok [OF ok, of "EvRequest msg" now]) blast
  have "retransmission_of (st_request tx) (EvRequest msg)"
    using assms(5) tx(1) by (simp add: retransmission_of_def)
  from server_process_no_deliver [OF tx(2) this, of now] ev(2) tx(1)
  have "\<not> list_ex is_deliver raw" by (auto split: prod.splits)
  moreover have "sends raw \<subseteq> cached tx"
    using server_process_ok [OF tx(2), of "EvRequest msg" now] ev(2) tx(1)
    by (auto simp: server_step_ok_def event_responses_def split: prod.splits)
  then have "t = e_target e \<and> r \<in> cached tx" if "MSend r t \<in> set out" for r t
    using absorb_outputs_sends [OF ev(3) [symmetric] that] by (auto simp: sends_def)
  moreover obtain y where "request_method msg = Some y" using assms(2) by (cases msg) auto
  ultimately show ?thesis
    using assms(3,4) ev(1) tx(1) by (auto simp: handle_request_def)
qed



text \<open>
  An ACK reaches neither the access machine nor a dialog. Whatever transaction it matches, both
  are as before. The documentation of \<open>RequestRoute\<close> and the comment in \<open>handle_incoming_request\<close>
  say that an ACK is delivered to the dialog layer.
\<close>

theorem ack_reaches_no_dialog:
  assumes "shared_ok sh" "rl_method line = Ack"
  shows "\<exists>sh' acts. handle_incoming am sh source (Request line h b) reliable now = Some (sh', Inr acts)
    \<and> sh_access sh' = sh_access sh \<and> sh_dialogs sh' = sh_dialogs sh"
proof -
  obtain txs ro where h: "handle_request (txns reliable sh) (Request line h b) source now = Some (txs, ro)"
    using handle_request_ok [OF txns_ok [OF assms(1)]] by blast
  have "handle_incoming am sh source (Request line h b) reliable now
      = Some (set_txns reliable txs sh, Inr (sends_of (ro_outputs ro)))"
    using assms(2) h by (simp add: handle_incoming_request_def delivers_to_tu_def)
  then show ?thesis by (simp del: split_paired_Ex)
qed

theorem ack_reaches_no_dialog_witness:
  "\<exists>sh' acts. handle_incoming (scripted_machine [] :: (nat, string, unit, string) access_machine) sample_shared
      sample_peer (sample_request Ack 1 Ack) True 5 = Some (sh', Inr acts) \<and> sh_access sh' = 0"
proof -
  have "rl_method (request_line_new Ack sample_uri) = Ack" by (simp add: request_line_new_def)
  from ack_reaches_no_dialog [OF sample_shared_ok this]
  show ?thesis unfolding sample_request_def by (metis sample_shared_simps(2))
qed

text \<open>
  C38. A request that the access machine rejects is never answered. Take a new request outside a
  dialog whose transaction is not yet known, and suppose that the access machine fails on it. The
  driver reports the error and sends nothing, and the transaction stays. A retransmission of the
  request is then absorbed without an answer and without another call of the access machine.
\<close>

theorem rejected_request_is_absorbed:
  fixes am :: "('m, 'e, 'c, 'x) access_machine"
  assumes "shared_ok sh" "request_method msg = Some meth" "meth \<noteq> Ack"
    "server_key (txns reliable sh) msg = Some key" "map_of (m_server (txns reliable sh)) key = None"
    "\<not> is_dialog (from_method meth) \<or> match_id msg = None"
    "am_process am (sh_access sh) \<lparr>ai_source = source, ai_now = n1 div 1000000000, ai_message = msg\<rparr> = (acc, Inl x)"
  shows "\<exists>sh1 sh2. handle_incoming am sh source msg reliable n1 = Some (sh1, Inl x)
    \<and> handle_incoming am sh1 source msg reliable n2 = Some (sh2, Inr [])
    \<and> sh_access sh1 = acc \<and> sh_access sh2 = acc"
proof -
  obtain txs where t: "map_of (m_server txs) key = Some \<lparr>e_transaction = ServerTx (server_new msg (mc_transaction (m_config (txns reliable sh)))),
        e_target = source, e_timers = [], e_last_activity = n1\<rparr>" (is "_ = Some ?e")
    "m_config txs = m_config (txns reliable sh)"
    "handle_incoming am sh source msg reliable n1 =
       Some ((set_txns reliable txs sh)\<lparr>sh_access := acc\<rparr>, Inl x)" (is "_ = Some (?sh1, _)")
    using new_request_delivered [OF assms(2-6), of source n1 am] assms(7)
    by (auto simp: process_access_def)
  have ok: "shared_ok ?sh1"
    using handle_incoming_keeps [OF assms(1), of am source msg reliable n1] t(3) by (auto simp: keeps_def)
  have tx: "txns reliable ?sh1 = txs" by (simp add: txns_def set_txns_def)
  have req: "is_request msg" using assms(2) by (cases msg) auto
  have key: "server_key (txns reliable ?sh1) msg = Some key" "map_of (m_server (txns reliable ?sh1)) key = Some ?e"
    using assms(4) t(1,2) tx by (simp_all add: server_key_def)
  have meth: "request_method (tx_request (e_transaction ?e)) = request_method msg"
    by (simp add: server_new_def Let_def)
  have none: "cached (server_new msg c) = {}" for c by (simp add: cached_def server_new_def Let_def)
  obtain m' out where o: "handle_request (txns reliable ?sh1) msg source n2
      = Some (m', \<lparr>ro_key = Some key, ro_deliver = False, ro_outputs = out\<rparr>)"
    "\<forall>r t. MSend r t \<in> set out \<longrightarrow> t = e_target ?e \<and> (\<exists>tx. e_transaction ?e = ServerTx tx \<and> r \<in> cached tx)"
    using retransmission_outcome [OF txns_ok [OF ok] req key meth, of source n2] by blast
  have "MSend r t \<notin> set out" for r t using o(2) none by (cases t) auto
  then have "(sends_of out :: 'e driver_action list) = []" by (induction out rule: sends_of.induct) auto
  then have "handle_incoming am ?sh1 source msg reliable n2 = Some (set_txns reliable m' ?sh1, Inr [])"
    using undelivered_request [OF o(1), of am] req by (cases msg) simp_all
  with t(3) show ?thesis by (simp add: set_txns_def)
qed

theorem rejected_request_is_absorbed_witness:
  "\<exists>sh1 sh2. handle_incoming (scripted_machine [Inl ''busy''] :: (nat, string, unit, string) access_machine)
        sample_shared sample_peer (sample_request Register 1 Register) False 5 = Some (sh1, Inl ''busy'') \<and>
     handle_incoming (scripted_machine [Inl ''busy''] :: (nat, string, unit, string) access_machine)
        sh1 sample_peer (sample_request Register 1 Register) False 9 = Some (sh2, Inr []) \<and> sh_access sh2 = 1"
proof -
  let ?am = "scripted_machine [Inl ''busy''] :: (nat, string, unit, string) access_machine"
  have p: "am_process ?am (sh_access sample_shared) i = (1, Inl ''busy'')" for i
    by (simp add: scripted_machine_def)
  from rejected_request_is_absorbed [OF sample_shared_ok sample_request_method _ sample_server_key [of Register False 1]
      _ _ p, of sample_peer 5 9]
  show ?thesis by (auto simp: is_dialog_def)
qed

lemma success_ends_invite:
  assumes "request_method msg = Some Invite" "is_success (code_or_zero resp)"
  shows "entry_event \<lparr>e_transaction = ServerTx (server_new msg c), e_target = target, e_timers = ts,
      e_last_activity = n1\<rparr> (EvResponse resp) n2 =
    Some (\<lparr>e_transaction = ServerTx ((server_new msg c)\<lparr>st_state := S_Terminated\<rparr>), e_target = target, e_timers = ts,
      e_last_activity = n2\<rparr>, [SendMessage resp, Complete], [MSend resp target], True)"
proof -
  have "\<not> is_provisional (code_or_zero resp)" using assms(2) by (simp add: is_success_def is_provisional_def)
  with assms show ?thesis
    by (simp add: entry_event_def server_process_def server_new_def Let_def
        on_invite_tu_response_def absorb_def)
qed

text \<open>
  C37. A successful INVITE opens a dialog and forgets its transaction. Take a new INVITE outside a
  dialog that the access machine answers with one 2xx response with a tag. The response is sent and
  the dialog of the tag is in the table. But the transaction is gone, so when the response is lost
  and the INVITE is sent again, the access machine processes it a second time.
\<close>

theorem invite_opens_dialog_once_per_copy:
  assumes "request_method msg = Some Invite" "server_key (txns reliable sh) msg = Some key"
    "map_of (m_server (txns reliable sh)) key = None" "match_id msg = None"
    "am_process am (sh_access sh) \<lparr>ai_source = source, ai_now = n1 div 1000000000, ai_message = msg\<rparr>
       = (acc, Inr [SendResponse resp])"
    "is_success_response resp" "response_to_tag resp = Some tag" "new_uas msg tag = Inr dlg"
    "am_process am acc \<lparr>ai_source = source, ai_now = n2 div 1000000000, ai_message = msg\<rparr> = (acc', Inr [])"
  shows "\<exists>sh1 sh2. handle_incoming am sh source msg reliable n1 = Some (sh1, Inr [SendTo resp source])
    \<and> dm_contains (sh_dialogs sh1) (dlg_id dlg) \<and> map_of (m_server (txns reliable sh1)) key = None
    \<and> sh_access sh1 = acc
    \<and> handle_incoming am sh1 source msg reliable n2 = Some (sh2, Inr []) \<and> sh_access sh2 = acc'"
proof -
  obtain txs where t: "map_of (m_server txs) key = Some \<lparr>e_transaction = ServerTx (server_new msg (mc_transaction (m_config (txns reliable sh)))),
        e_target = source, e_timers = [], e_last_activity = n1\<rparr>"
    "m_config txs = m_config (txns reliable sh)"
    "handle_incoming am sh source msg reliable n1 =
       (case process_access am (set_txns reliable txs sh) source msg n1 of
          (sh3, Inl e) \<Rightarrow> Some (sh3, Inl e)
        | (sh3, Inr outputs) \<Rightarrow>
            do { (sh4, acts) \<leftarrow> answer_actions source reliable (Some key) (Some msg) n1 outputs sh3;
                 Some (sh4, Inr acts) })"
    using new_request_delivered [OF assms(1) _ assms(2,3), of source n1 am] assms(4) by auto
  let ?sh3 = "(set_txns reliable txs sh)\<lparr>sh_access := acc\<rparr>"
  let ?dm = "fst (establish_uas (sh_dialogs sh) msg tag n1)"
  let ?txs = "txs\<lparr>m_server := AList.delete key (m_server txs)\<rparr>"
  let ?sh1 = "set_txns reliable ?txs (?sh3\<lparr>sh_dialogs := ?dm\<rparr>)"
  have resp: "\<not> is_request resp" "is_success (code_or_zero resp)"
    using assms(6) by (cases resp; auto simp: is_success_def code_or_zero_def)+
  have tx: "txns reliable (?sh3\<lparr>sh_dialogs := ?dm\<rparr>) = txs" by (simp add: txns_def set_txns_def)
  have "provide_response txs key resp n1 = Some (?txs, [MSend resp source])"
    using t(1) by (simp add: provide_response_def store_back_def success_ends_invite [OF assms(1) resp(2)])
  then have 1: "handle_incoming am sh source msg reliable n1 = Some (?sh1, Inr [SendTo resp source])"
    using assms(5-7) resp tx t(3) by (simp add: process_access_def)
  have dlg: "dm_contains ?dm (dlg_id dlg)"
    using assms(8) by (simp add: establish_uas_def dm_insert_def dm_contains_def map_of_table_update)
  have key: "server_key (txns reliable ?sh1) msg = Some key" "map_of (m_server (txns reliable ?sh1)) key = None"
    using assms(2) t(2) by (simp_all add: server_key_def map_of_table_delete)
  have acc: "sh_access ?sh1 = acc" by simp
  obtain txs2 where "handle_incoming am ?sh1 source msg reliable n2 =
       (case process_access am (set_txns reliable txs2 ?sh1) source msg n2 of
          (sh3, Inl e) \<Rightarrow> Some (sh3, Inl e)
        | (sh3, Inr outputs) \<Rightarrow>
            do { (sh4, acts) \<leftarrow> answer_actions source reliable (Some key) (Some msg) n2 outputs sh3;
                 Some (sh4, Inr acts) })"
    using new_request_delivered [OF assms(1) _ key, of source n2 am] assms(4) by auto
  then have 2: "handle_incoming am ?sh1 source msg reliable n2
      = Some ((set_txns reliable txs2 ?sh1)\<lparr>sh_access := acc'\<rparr>, Inr [])"
    using assms(9) by (simp add: process_access_def)
  from 1 2 dlg key(2) acc show ?thesis by (simp del: split_paired_Ex)
qed

theorem invite_opens_dialog_once_per_copy_witness:
  "\<exists>sh1 sh2. handle_incoming
        (scripted_machine [Inr [SendResponse sample_call_ok]] :: (nat, string, unit, string) access_machine)
        sample_shared sample_peer sample_call_invite False 5 = Some (sh1, Inr [SendTo sample_call_ok sample_peer]) \<and>
     dm_contains (sh_dialogs sh1) \<lparr>did_call_id = ''c1'', did_local_tag = ''b2'', did_remote_tag = ''a1''\<rparr> \<and>
     handle_incoming
        (scripted_machine [Inr [SendResponse sample_call_ok]] :: (nat, string, unit, string) access_machine)
        sh1 sample_peer sample_call_invite False 9 = Some (sh2, Inr []) \<and> sh_access sh2 = 2"
proof -
  let ?am = "scripted_machine [Inr [SendResponse sample_call_ok]] :: (nat, string, unit, string) access_machine"
  let ?key = "\<lparr>key_branch = ''z9hG4bK77'', key_cseq_method = Invite, key_call_id = ''c1'', key_role = Uas\<rparr>"
  have f: "top_branch sample_call_invite = Some ''z9hG4bK77''" "hdr_get To (msg_headers sample_call_invite) = Some ''<sip:3402@192.168.1.64>''"
    "request_method sample_call_invite = Some Invite" "is_success_response sample_call_ok"
    unfolding sample_call_invite_def sample_call_ok_def top_branch_def
    by (simp_all add: hdr_get_scan hdr_get_all_scan hdr_of_lines_props header_name_eq_def sample_branch_value
        request_line_new_def status_line_new_def)
  have "extract_tag ''<sip:3402@192.168.1.64>'' = None" by code_simp
  then have m: "match_id sample_call_invite = None"
    by (simp add: match_id_def call_id_def f sample_call_fields sample_tags split: option.split)
  have k: "server_key (txns False sample_shared) sample_call_invite = Some ?key"
    unfolding server_key_def
    by (rule key_for_message_SomeI) (simp_all add: magic_cookie_def f call_id_def sample_call_fields)
  have tag: "response_to_tag sample_call_ok = Some ''b2''"
    by (simp add: response_to_tag_def sample_call_fields sample_tags)
  have p: "am_process ?am (sh_access sample_shared) i = (1, Inr [SendResponse sample_call_ok])"
    "am_process ?am 1 i = (2, Inr [])" for i by (simp_all add: scripted_machine_def)
  from invite_opens_dialog_once_per_copy [where source = sample_peer and ?n1.0 = 5 and ?n2.0 = 9,
      OF f(3) k _ m p(1) f(4) tag sample_dialogs(1) p(2)]
  show ?thesis by simp blast
qed

section \<open>Messages over TCP\<close>

text \<open>What the driver does with a list of messages of one connection, each with its time.\<close>

fun serve_messages ::
    "('m, 'e, 'c, 'x) access_machine \<Rightarrow> (string list \<Rightarrow> bool) \<Rightarrow> socket_addr
       \<Rightarrow> (sip_message \<times> duration) list \<Rightarrow> 'm shared \<Rightarrow> 'e conn_io \<Rightarrow> ('m shared \<times> 'e conn_io \<times> bool) option" where
  "serve_messages am broken peer [] sh io = Some (sh, io, True)"
| "serve_messages am broken peer ((m, now) # rest) sh io =
     (case handle_incoming am sh peer m True now of
        None \<Rightarrow> None
      | Some (sh', Inl _) \<Rightarrow> Some (sh', io, False)
      | Some (sh', Inr actions) \<Rightarrow>
          (case tcp_perform broken actions io of
             (io', True) \<Rightarrow> serve_messages am broken peer rest sh' io'
           | (io', False) \<Rightarrow> Some (sh', io', False)))"

lemma serve_messages_append:
  "serve_messages am broken peer (xs @ ys) sh io =
     (case serve_messages am broken peer xs sh io of
        None \<Rightarrow> None
      | Some (sh', io', ok) \<Rightarrow> if ok then serve_messages am broken peer ys sh' io' else Some (sh', io', False))"
  by (induction am broken peer xs sh io rule: serve_messages.induct)
     (auto split: option.split prod.split sum.split bool.split)

lemma drain_messages_serves:
  assumes "pop_all p = (q, ms, err)"
  shows "drain_messages am broken peer now sh p io =
    (case serve_messages am broken peer (map (\<lambda>m. (m, now)) ms) sh io of
       None \<Rightarrow> None
     | Some (sh', io', ok) \<Rightarrow> Some (sh', io', if ok \<and> err = None then Some q else None))"
  using assms
proof (induction am broken peer now sh p io arbitrary: ms rule: drain_messages.induct)
  case (1 am broken peer now sh p io)
  obtain p1 x where pop: "pop_message p = (p1, x)" by fastforce
  note D = drain_messages.simps [of am broken peer now sh p io] and P = pop_all.simps [of p]
  consider "x = None" | e where "x = Some (Inl e)" | m where "x = Some (Inr m)"
    by (metis option.exhaust sumE)
  then show ?case
  proof cases
    case (3 m)
    obtain ms' where ms: "ms = m # ms'" "pop_all p1 = (q, ms', err)"
      using 1(2) pop 3 by (auto simp: P split: prod.splits)
    show ?thesis
    proof (cases "handle_incoming am sh peer m True now")
      case None
      with pop 3 ms show ?thesis by (simp add: D)
    next
      case (Some s)
      obtain sh1 r where s: "s = (sh1, r)" by (cases s)
      show ?thesis
      proof (cases r)
        case (Inl e)
        with pop 3 ms Some s show ?thesis by (simp add: D)
      next
        case (Inr acts)
        obtain io1 ok where t: "tcp_perform broken acts io = (io1, ok)" by fastforce
        from 1(1) [OF pop [symmetric] 3 refl Some s [symmetric] Inr t [symmetric] _ ms(2)] pop 3 ms Some s Inr t
        show ?thesis by (cases ok) (simp_all add: D)
      qed
    qed
  qed (use 1(2) pop in \<open>auto simp: D P\<close>)
qed

lemma serve_chunks_encoded:
  assumes "at_message p1 ms (concat (map fst cts))" "pop_message p1 = (p, None)"
    "length (concat (map encode_message ms)) \<le> pc_max_buffer_bytes (sp_config p1)"
  shows "\<exists>times. length times = length ms \<and> set times \<subseteq> snd ` set cts \<and>
    serve_chunks am broken peer cts sh p io =
      map_option (\<lambda>(sh', io', ok). (sh', io')) (serve_messages am broken peer (zip (map canonical ms) times) sh io)"
  using assms
proof (induction cts arbitrary: p p1 ms sh io)
  case Nil
  then show ?case using encoded_end(1) [of p1 ms p] by auto
next
  case (Cons ct cts)
  obtain c now where ct: "ct = (c, now)" by (cases ct)
  from Cons.prems(1) ct have "at_message p1 ms (c @ concat (map fst cts))" by simp
  from encoded_chunk [OF this Cons.prems(2,3)] obtain k p' p2 where d:
    "parser_feed p c = (fed c p, Inr ())" "pop_all (fed c p) = (p', map canonical (take k ms), None)"
    "at_message p2 (drop k ms) (concat (map fst cts))" "pop_message p2 = (p', None)"
    "length (concat (map encode_message (drop k ms))) \<le> pc_max_buffer_bytes (sp_config p2)" .
  let ?first = "map (\<lambda>m. (m, now)) (map canonical (take k ms))"
  let ?r = "serve_messages am broken peer ?first sh io"
  obtain sh1 io1 where 1: "\<And>x y. ?r = Some (x, y, True) \<Longrightarrow> x = sh1 \<and> y = io1" by (cases ?r) auto
  from Cons.IH [OF d(3-5), of sh1 io1] obtain ts where ts: "length ts = length (drop k ms)"
    "set ts \<subseteq> snd ` set cts" "serve_chunks am broken peer cts sh1 p' io1 = map_option (\<lambda>(sh', io', ok). (sh', io'))
      (serve_messages am broken peer (zip (map canonical (drop k ms)) ts) sh1 io1)" by blast
  let ?ts = "replicate (length (take k ms)) now @ ts"
  have "zip (map canonical ms) ?ts = zip (map canonical (take k ms @ drop k ms)) ?ts" by simp
  also have "\<dots> = ?first @ zip (map canonical (drop k ms)) ts"
    unfolding map_append by (subst zip_append) (simp_all add: zip_replicate2 min_def)
  finally have split: "zip (map canonical ms) ?ts = ?first @ zip (map canonical (drop k ms)) ts" .
  have "serve_chunks am broken peer (ct # cts) sh p io = map_option (\<lambda>(sh', io', ok). (sh', io'))
      (serve_messages am broken peer (zip (map canonical ms) ?ts) sh io)"
    unfolding split serve_messages_append
    using drain_messages_serves [OF d(2), of am broken peer now sh io] d(1) ts(3) 1
    by (auto simp: ct serve_chunk_def split: option.split prod.split)
  moreover have "length ?ts = length ms" "set ?ts \<subseteq> snd ` set (ct # cts)"
    using ts(1,2) ct by auto
  ultimately show ?case by blast
qed



end
