(* ===== verification/RateLimit.thy ===== *)
theory RateLimit
  imports BoundedTable
begin

text \<open>
  The rate limiter for failed authentication: \<open>sip/digest/rate_limit.rs\<close> of
  \<open>cheetah-gb28181-core\<close>. Sources are of any type. The lemmas show that the table is bounded and
  that, while the sources fit, the limiter is the same as one that keeps the whole history.
\<close>

section \<open>State and operations\<close>

record failure_window =
  fw_failures :: nat
  fw_window_start :: nat

record 'ip rate_limiter =
  rl_max_failures :: nat
  rl_window_seconds :: nat
  rl_max_sources :: nat
  rl_entries :: "('ip, failure_window) table"
  rl_order :: "'ip list"

definition rl_new :: "nat \<Rightarrow> nat \<Rightarrow> nat \<Rightarrow> 'ip rate_limiter" where
  "rl_new max_failures window_seconds max_sources =
     \<lparr>rl_max_failures = max_failures, rl_window_seconds = window_seconds, rl_max_sources = max_sources,
      rl_entries = [], rl_order = []\<rparr>"

definition rl_disabled :: "'ip rate_limiter \<Rightarrow> bool" where
  "rl_disabled l \<longleftrightarrow> rl_max_failures l = 0 \<or> rl_max_sources l = 0 \<or> rl_window_seconds l = 0"

definition rl_is_blocked :: "'ip rate_limiter \<Rightarrow> 'ip \<Rightarrow> nat \<Rightarrow> bool" where
  "rl_is_blocked l source now =
     (if rl_disabled l then False
      else case map_of (rl_entries l) source of
        Some window \<Rightarrow>
          \<not> rl_window_seconds l \<le> now - fw_window_start window \<and> rl_max_failures l \<le> fw_failures window
      | None \<Rightarrow> False)"

definition rl_retry_after_seconds :: "'ip rate_limiter \<Rightarrow> 'ip \<Rightarrow> nat \<Rightarrow> nat" where
  "rl_retry_after_seconds l source now =
     (if \<not> rl_is_blocked l source now then 0
      else case map_of (rl_entries l) source of
        Some window \<Rightarrow> max (saturating_add_u64 (fw_window_start window) (rl_window_seconds l) - now) 1
      | None \<Rightarrow> 0)"

text \<open>The closure of \<open>retain\<close> in \<open>prune\<close> removes the entry of each source that it drops.\<close>

fun prune_loop ::
    "nat \<Rightarrow> nat \<Rightarrow> 'ip list \<Rightarrow> ('ip, failure_window) table \<Rightarrow> 'ip list \<times> ('ip, failure_window) table" where
  "prune_loop now w [] es = ([], es)"
| "prune_loop now w (ip # order) es =
     (if (case map_of es ip of Some x \<Rightarrow> now - fw_window_start x < w | None \<Rightarrow> False)
      then (case prune_loop now w order es of (order', es') \<Rightarrow> (ip # order', es'))
      else prune_loop now w order (AList.delete ip es))"

definition rl_prune :: "nat \<Rightarrow> 'ip rate_limiter \<Rightarrow> 'ip rate_limiter" where
  "rl_prune now l =
     (if rl_entries l = [] then l
      else case prune_loop now (rl_window_seconds l) (rl_order l) (rl_entries l) of
             (order, es) \<Rightarrow> l\<lparr>rl_order := order, rl_entries := es\<rparr>)"

text \<open>The eviction loop of \<open>insert_bounded\<close>.\<close>

fun evict_loop ::
    "nat \<Rightarrow> 'ip list \<Rightarrow> ('ip, failure_window) table \<Rightarrow> 'ip list \<times> ('ip, failure_window) table" where
  "evict_loop mx order es =
     (if mx \<le> length es then
        (case order of [] \<Rightarrow> (order, es) | ip # order' \<Rightarrow> evict_loop mx order' (AList.delete ip es))
      else (order, es))"

declare evict_loop.simps [simp del]

definition insert_bounded :: "'ip \<Rightarrow> failure_window \<Rightarrow> 'ip rate_limiter \<Rightarrow> 'ip rate_limiter" where
  "insert_bounded source window l =
     (case evict_loop (rl_max_sources l) (rl_order l) (rl_entries l) of
        (order, es) \<Rightarrow> l\<lparr>rl_entries := AList.update source window es, rl_order := order @ [source]\<rparr>)"

definition record_failure :: "'ip \<Rightarrow> nat \<Rightarrow> 'ip rate_limiter \<Rightarrow> 'ip rate_limiter" where
  "record_failure source now l =
     (if rl_disabled l then l
      else
        (let l1 = rl_prune now l in
         case map_of (rl_entries l1) source of
           Some window \<Rightarrow>
             (let window1 = (if rl_window_seconds l1 \<le> now - fw_window_start window
                             then \<lparr>fw_failures = 0, fw_window_start = now\<rparr> else window);
                  window2 = window1\<lparr>fw_failures := min (fw_failures window1 + 1) u32_max\<rparr>
              in l1\<lparr>rl_entries := AList.update source window2 (rl_entries l1)\<rparr>)
         | None \<Rightarrow> insert_bounded source \<lparr>fw_failures = 1, fw_window_start = now\<rparr> l1))"

definition record_success :: "'ip \<Rightarrow> 'ip rate_limiter \<Rightarrow> 'ip rate_limiter" where
  "record_success source l =
     (case map_of (rl_entries l) source of
        None \<Rightarrow> l
      | Some _ \<Rightarrow> l\<lparr>rl_entries := AList.delete source (rl_entries l),
                   rl_order := filter (\<lambda>ip. ip \<noteq> source) (rl_order l)\<rparr>)"

section \<open>The invariant\<close>

definition wf_limiter :: "'ip rate_limiter \<Rightarrow> bool" where
  "wf_limiter l \<longleftrightarrow>
     wf_table (rl_entries l) \<and> distinct (rl_order l) \<and> set (rl_order l) = fst ` set (rl_entries l)
     \<and> length (rl_entries l) \<le> rl_max_sources l"

lemma wf_limiter_new: "wf_limiter (rl_new mf w ms)"
  by (simp add: wf_limiter_def rl_new_def)

lemma prune_loop_keeps:
  assumes "prune_loop now w order es = (order', es')" "wf_table es" "distinct order"
  shows "wf_table es' \<and> distinct order' \<and> length es' \<le> length es \<and> set order' \<subseteq> set order
    \<and> (\<forall>ip. map_of es' ip =
         (if ip \<in> set order \<and> \<not> (case map_of es ip of Some x \<Rightarrow> now - fw_window_start x < w | None \<Rightarrow> False)
          then None else map_of es ip))
    \<and> (\<forall>ip \<in> set order. ip \<in> set order' \<longleftrightarrow>
         (case map_of es ip of Some x \<Rightarrow> now - fw_window_start x < w | None \<Rightarrow> False))"
  using assms
proof (induction now w order es arbitrary: order' es' rule: prune_loop.induct)
  case (2 now w ip order es)
  show ?case
  proof (cases "case map_of es ip of Some x \<Rightarrow> now - fw_window_start x < w | None \<Rightarrow> False")
    case True
    obtain o1 e1 where r: "prune_loop now w order es = (o1, e1)" by fastforce
    with 2(3) True have "order' = ip # o1" "es' = e1" by auto
    with 2(1) [OF True r 2(4)] 2(5) True show ?thesis by auto
  next
    case False
    have "wf_table (AList.delete ip es)" using 2(4) by (simp add: wf_table_delete)
    from 2(2) [OF False _ this] 2(3,5) False show ?thesis
      by (auto simp: map_of_table_delete intro: order_trans [OF _ length_delete_le'])
  qed
qed simp

lemma set_fst_dom: "fst ` set es = dom (map_of es)"
  by (simp add: dom_map_of_conv_image_fst)

lemma prune_lookup:
  assumes "wf_limiter l"
  shows "wf_limiter (rl_prune now l)"
    "map_of (rl_entries (rl_prune now l)) ip =
       (case map_of (rl_entries l) ip of
          Some x \<Rightarrow> if now - fw_window_start x < rl_window_seconds l then Some x else None
        | None \<Rightarrow> None)"
    "length (rl_entries (rl_prune now l)) \<le> length (rl_entries l)"
    "rl_max_failures (rl_prune now l) = rl_max_failures l" "rl_max_sources (rl_prune now l) = rl_max_sources l"
    "rl_window_seconds (rl_prune now l) = rl_window_seconds l"
proof -
  obtain order es where r: "prune_loop now (rl_window_seconds l) (rl_order l) (rl_entries l) = (order, es)"
    by fastforce
  note k = prune_loop_keeps [OF r]
  have wf: "wf_table (rl_entries l)" "distinct (rl_order l)" "set (rl_order l) = dom (map_of (rl_entries l))"
    using assms by (auto simp: wf_limiter_def set_fst_dom)
  have look: "map_of es ip =
       (case map_of (rl_entries l) ip of
          Some x \<Rightarrow> if now - fw_window_start x < rl_window_seconds l then Some x else None
        | None \<Rightarrow> None)" for ip
    using k [OF wf(1,2)] wf(3) by (cases "map_of (rl_entries l) ip") (auto simp: domIff)
  have "ip \<in> set order \<longleftrightarrow> ip \<in> dom (map_of es)" for ip
  proof (cases "map_of (rl_entries l) ip")
    case None
    with k [OF wf(1,2)] wf(3) look [of ip] show ?thesis by (auto simp: domIff)
  next
    case (Some x)
    then have "ip \<in> set (rl_order l)" using wf(3) by auto
    with k [OF wf(1,2)] Some look [of ip] show ?thesis by (auto simp: domIff)
  qed
  then have dom: "set order = dom (map_of es)" by blast
  have e: "rl_entries l = [] \<Longrightarrow> rl_prune now l = l" "rl_entries l \<noteq> [] \<Longrightarrow>
      rl_prune now l = l\<lparr>rl_order := order, rl_entries := es\<rparr>"
    by (simp_all add: rl_prune_def r)
  show "wf_limiter (rl_prune now l)"
    using assms k [OF wf(1,2)] dom e by (cases "rl_entries l = []") (auto simp: wf_limiter_def set_fst_dom)
  show "map_of (rl_entries (rl_prune now l)) ip =
       (case map_of (rl_entries l) ip of
          Some x \<Rightarrow> if now - fw_window_start x < rl_window_seconds l then Some x else None
        | None \<Rightarrow> None)"
    using look e by (cases "rl_entries l = []") auto
  show "length (rl_entries (rl_prune now l)) \<le> length (rl_entries l)"
    using k [OF wf(1,2)] e by (cases "rl_entries l = []") auto
  show "rl_max_failures (rl_prune now l) = rl_max_failures l" "rl_max_sources (rl_prune now l) = rl_max_sources l"
    "rl_window_seconds (rl_prune now l) = rl_window_seconds l"
    using e by (cases "rl_entries l = []"; simp)+
qed

lemma evict_loop_keeps:
  assumes "evict_loop mx order es = (order', es')" "wf_table es" "distinct order" "set order = fst ` set es" "0 < mx"
  shows "wf_table es' \<and> distinct order' \<and> set order' = fst ` set es' \<and> length es' < mx
    \<and> set es' \<subseteq> set es \<and> (length es < mx \<longrightarrow> es' = es)"
  using assms
proof (induction mx order es arbitrary: order' es' rule: evict_loop.induct)
  case (1 mx order es)
  show ?case
  proof (cases "mx \<le> length es")
    case False
    with 1(2-) show ?thesis by (simp add: evict_loop.simps [of mx order es])
  next
    case True
    with 1(5,6) obtain ip rest where o: "order = ip # rest" by (cases order) auto
    have del: "set rest = fst ` set (AList.delete ip es)"
      using 1(4,5) o by (auto simp: set_table_delete image_iff)
    have r: "evict_loop mx rest (AList.delete ip es) = (order', es')"
      using 1(2) True o by (simp add: evict_loop.simps [of mx "ip # rest" es])
    have "set (AList.delete ip es) \<subseteq> set es" by (auto simp: set_table_delete)
    with 1(1) [OF True o r] 1(3,4,6) del o True show ?thesis
      by (simp add: wf_table_delete) blast
  qed
qed

lemma insert_bounded_keeps:
  assumes "wf_limiter l" "0 < rl_max_sources l" "map_of (rl_entries l) source = None"
  shows "wf_limiter (insert_bounded source x l)"
    "map_of (rl_entries (insert_bounded source x l)) source = Some x"
    "length (rl_entries l) < rl_max_sources l \<Longrightarrow>
       rl_entries (insert_bounded source x l) = AList.update source x (rl_entries l)"
    "rl_max_sources (insert_bounded source x l) = rl_max_sources l"
    "rl_max_failures (insert_bounded source x l) = rl_max_failures l"
    "rl_window_seconds (insert_bounded source x l) = rl_window_seconds l"
proof -
  obtain order es where r: "evict_loop (rl_max_sources l) (rl_order l) (rl_entries l) = (order, es)" by fastforce
  have k: "wf_table es" "distinct order" "set order = fst ` set es" "length es < rl_max_sources l"
    "set es \<subseteq> set (rl_entries l)" "length (rl_entries l) < rl_max_sources l \<Longrightarrow> es = rl_entries l"
    using evict_loop_keeps [OF r] assms(1,2) by (auto simp: wf_limiter_def)
  have new: "source \<notin> fst ` set es"
    using assms(3) k(5) by (auto simp: map_of_eq_None_iff)
  have "fst ` set (AList.update source x es) = insert source (fst ` set es)"
    by (simp add: set_fst_dom map_of_table_update)
  with k new show "wf_limiter (insert_bounded source x l)"
    by (auto simp: wf_limiter_def insert_bounded_def r wf_table_update length_update_le)
  show "map_of (rl_entries (insert_bounded source x l)) source = Some x"
    "rl_max_sources (insert_bounded source x l) = rl_max_sources l"
    "rl_max_failures (insert_bounded source x l) = rl_max_failures l"
    "rl_window_seconds (insert_bounded source x l) = rl_window_seconds l"
    by (simp_all add: insert_bounded_def r map_of_table_update)
  show "rl_entries (insert_bounded source x l) = AList.update source x (rl_entries l)"
    if "length (rl_entries l) < rl_max_sources l"
    using k(6) [OF that] by (simp add: insert_bounded_def r)
qed

lemma record_success_keeps: "wf_limiter l \<Longrightarrow> wf_limiter (record_success source l)"
  by (auto simp: wf_limiter_def record_success_def table_simps split: option.split
      intro: order_trans [OF length_delete_le'])

lemma record_failure_keeps: "wf_limiter l \<Longrightarrow> wf_limiter (record_failure source now l)"
proof -
  assume wf: "wf_limiter l"
  note p = prune_lookup [OF wf, of now]
  show ?thesis
  proof (cases "rl_disabled l \<or> map_of (rl_entries (rl_prune now l)) source = None")
    case True
    with wf p insert_bounded_keeps(1) [OF p(1)] show ?thesis
      by (auto simp: record_failure_def Let_def rl_disabled_def)
  next
    case False
    then obtain x where x: "map_of (rl_entries (rl_prune now l)) source = Some x" by auto
    then have "source \<in> fst ` set (rl_entries (rl_prune now l))" by (force dest: map_of_SomeD)
    moreover have "fst ` set (AList.update source y es) = insert source (fst ` set es)" for y and es :: "('a, failure_window) table"
      by (simp add: set_fst_dom map_of_table_update)
    ultimately show ?thesis
      using False x p by (auto simp: record_failure_def Let_def wf_limiter_def wf_table_update length_update_le)
  qed
qed

section \<open>The limiter as a function of its history\<close>

datatype 'ip auth_event = Failed 'ip nat | Succeeded 'ip

fun rl_step :: "'ip rate_limiter \<Rightarrow> 'ip auth_event \<Rightarrow> 'ip rate_limiter" where
  "rl_step l (Failed ip t) = record_failure ip t l"
| "rl_step l (Succeeded ip) = record_success ip l"

definition rl_run :: "'ip rate_limiter \<Rightarrow> 'ip auth_event list \<Rightarrow> 'ip rate_limiter" where
  "rl_run = foldl rl_step"

fun event_source :: "'ip auth_event \<Rightarrow> 'ip" where
  "event_source (Failed ip t) = ip"
| "event_source (Succeeded ip) = ip"

fun event_times :: "'ip auth_event list \<Rightarrow> nat list" where
  "event_times [] = []"
| "event_times (Failed ip t # es) = t # event_times es"
| "event_times (Succeeded ip # es) = event_times es"

text \<open>The current window of one source: the number of its failures and the time of the first.\<close>

fun window_step :: "nat \<Rightarrow> 'ip \<Rightarrow> (nat \<times> nat) option \<Rightarrow> 'ip auth_event \<Rightarrow> (nat \<times> nat) option" where
  "window_step w s st (Failed ip t) =
     (if ip \<noteq> s then st
      else case st of
        None \<Rightarrow> Some (1, t)
      | Some (n, t0) \<Rightarrow> if t - t0 < w then Some (n + 1, t0) else Some (1, t))"
| "window_step w s st (Succeeded ip) = (if ip = s then None else st)"

definition window_of :: "nat \<Rightarrow> 'ip \<Rightarrow> 'ip auth_event list \<Rightarrow> (nat \<times> nat) option" where
  "window_of w s = foldl (window_step w s) None"

text \<open>What is left of a window at a time, in the history and in the table.\<close>

definition live_window :: "nat \<Rightarrow> nat \<Rightarrow> (nat \<times> nat) option \<Rightarrow> (nat \<times> nat) option" where
  "live_window w now st =
     (case st of Some (n, t0) \<Rightarrow> if now - t0 < w then Some (min n u32_max, t0) else None | None \<Rightarrow> None)"

definition live_entry :: "nat \<Rightarrow> nat \<Rightarrow> failure_window option \<Rightarrow> (nat \<times> nat) option" where
  "live_entry w now e =
     (case e of
        Some x \<Rightarrow> if now - fw_window_start x < w then Some (fw_failures x, fw_window_start x) else None
      | None \<Rightarrow> None)"

lemma live_later:
  assumes "live_entry w now e = live_window w now st" "now \<le> now'"
  shows "live_entry w now' e = live_window w now' st"
  using assms by (auto simp: live_entry_def live_window_def split: option.splits if_splits)

definition tracks :: "nat \<Rightarrow> nat \<Rightarrow> 'ip rate_limiter \<Rightarrow> 'ip auth_event list \<Rightarrow> bool" where
  "tracks w now l es \<longleftrightarrow>
     wf_limiter l \<and> fst ` set (rl_entries l) \<subseteq> event_source ` set es
     \<and> (\<forall>s. live_entry w now (map_of (rl_entries l) s) = live_window w now (window_of w s es))"

lemma window_of_snoc: "window_of w s (es @ [e]) = window_step w s (window_of w s es) e"
  by (simp add: window_of_def)

lemma tracks_success:
  assumes "tracks w now l es"
  shows "tracks w now (record_success ip l) (es @ [Succeeded ip])"
proof -
  have "map_of (rl_entries (record_success ip l)) s = (if s = ip then None else map_of (rl_entries l) s)" for s
    by (simp add: record_success_def map_of_table_delete split: option.split)
  moreover have "fst ` set (rl_entries (record_success ip l)) \<subseteq> fst ` set (rl_entries l)"
    by (auto simp: record_success_def set_table_delete split: option.split)
  then have "fst ` set (rl_entries (record_success ip l)) \<subseteq> event_source ` set (es @ [Succeeded ip])"
    using assms unfolding tracks_def by (simp add: subset_insertI2 order_trans)
  ultimately show ?thesis
    using assms record_success_keeps [of l ip] unfolding tracks_def
    by (simp add: window_of_snoc live_entry_def live_window_def)
qed

lemma tracks_failure:
  assumes "tracks w t0 l es" "t0 \<le> t" "rl_window_seconds l = w" "\<not> rl_disabled l"
    "card (event_source ` set (es @ [Failed ip t])) \<le> rl_max_sources l"
  shows "tracks w t (record_failure ip t l) (es @ [Failed ip t])"
proof -
  have wf: "wf_limiter l" and sub: "fst ` set (rl_entries l) \<subseteq> event_source ` set es"
    and live: "\<And>s. live_entry w t (map_of (rl_entries l) s) = live_window w t (window_of w s es)"
    using assms(1,2) live_later unfolding tracks_def by blast+
  let ?p = "rl_prune t l"
  note p = prune_lookup [OF wf, of t]
  have pl: "live_entry w t (map_of (rl_entries ?p) s) = live_entry w t (map_of (rl_entries l) s)" for s
    unfolding p(2) assms(3) by (auto simp: live_entry_def split: option.split)
  have w0: "0 < w" using assms(3,4) by (auto simp: rl_disabled_def)
  have psub: "fst ` set (rl_entries ?p) \<subseteq> fst ` set (rl_entries l)"
    unfolding set_fst_dom by (auto simp: p(2) domIff split: option.splits)
  have wf': "wf_limiter (record_failure ip t l)" by (rule record_failure_keeps [OF wf])
  show ?thesis
  proof (cases "map_of (rl_entries ?p) ip")
    case (Some x)
    then have x: "t - fw_window_start x < w" using p(2) [of ip] assms(3) by (auto split: option.splits if_splits)
    have st: "live_window w t (window_of w ip es) = Some (fw_failures x, fw_window_start x)"
      using pl [of ip] live [of ip] Some x by (simp add: live_entry_def)
    have rf: "record_failure ip t l = ?p\<lparr>rl_entries :=
        AList.update ip (x\<lparr>fw_failures := min (fw_failures x + 1) u32_max\<rparr>) (rl_entries ?p)\<rparr>"
      using Some x assms(3,4) p(6) by (simp add: record_failure_def Let_def)
    have "fst ` set (rl_entries (record_failure ip t l)) \<subseteq> insert ip (fst ` set (rl_entries ?p))"
      unfolding rf by (simp add: set_fst_dom map_of_table_update del: dom_map_of_conv_image_fst)
    then have "fst ` set (rl_entries (record_failure ip t l)) \<subseteq> event_source ` set (es @ [Failed ip t])"
      using subset_trans [OF psub sub] by auto
    moreover have "live_entry w t (map_of (rl_entries (record_failure ip t l)) s)
        = live_window w t (window_of w s (es @ [Failed ip t]))" for s
    proof (cases "s = ip")
      case True
      from st obtain n where "window_of w ip es = Some (n, fw_window_start x)" "fw_failures x = min n u32_max"
        by (auto simp: live_window_def split: option.splits if_splits)
      with True x show ?thesis
        by (simp add: rf map_of_table_update window_of_snoc live_entry_def live_window_def)
    qed (use pl [of s] live [of s] in \<open>simp add: rf map_of_table_update window_of_snoc\<close>)
    ultimately show ?thesis using wf' by (simp add: tracks_def)
  next
    case None
    have st: "live_window w t (window_of w ip es) = None"
      using pl [of ip] live [of ip] None by (simp add: live_entry_def)
    have "ip \<notin> fst ` set (rl_entries ?p)" using None by (simp add: map_of_eq_None_iff)
    moreover have all: "fst ` set (rl_entries ?p) \<subseteq> event_source ` set (es @ [Failed ip t])"
      "ip \<in> event_source ` set (es @ [Failed ip t])"
      using psub sub by (simp_all add: subset_insertI2 order_trans)
    ultimately have "fst ` set (rl_entries ?p) \<subset> event_source ` set (es @ [Failed ip t])" by blast
    from psubset_card_mono [OF _ this] assms(5)
    have "card (fst ` set (rl_entries ?p)) < rl_max_sources l" by simp
    moreover have "card (fst ` set (rl_entries ?p)) = length (rl_entries ?p)"
      using p(1) distinct_card [of "map fst (rl_entries ?p)"] by (simp add: wf_limiter_def)
    ultimately have room: "length (rl_entries ?p) < rl_max_sources ?p" using p(5) by simp
    note ins = insert_bounded_keeps(3) [OF p(1) _ None room, of "\<lparr>fw_failures = 1, fw_window_start = t\<rparr>"]
    have rf: "rl_entries (record_failure ip t l)
        = AList.update ip \<lparr>fw_failures = 1, fw_window_start = t\<rparr> (rl_entries ?p)"
      using None ins room assms(4) by (simp add: record_failure_def Let_def)
    have "fst ` set (rl_entries (record_failure ip t l)) = insert ip (fst ` set (rl_entries ?p))"
      by (simp add: rf set_fst_dom map_of_table_update)
    then have "fst ` set (rl_entries (record_failure ip t l)) \<subseteq> event_source ` set (es @ [Failed ip t])"
      using all by simp
    moreover have "live_entry w t (map_of (rl_entries (record_failure ip t l)) s)
        = live_window w t (window_of w s (es @ [Failed ip t]))" for s
    proof (cases "s = ip")
      case True
      from st have "window_step w ip (window_of w ip es) (Failed ip t) = Some (1, t)"
        by (auto simp: live_window_def split: option.splits if_splits)
      with True w0 show ?thesis
        by (simp add: rf map_of_table_update window_of_snoc live_entry_def live_window_def u32_max_def)
    qed (use pl [of s] live [of s] in \<open>simp add: rf map_of_table_update window_of_snoc\<close>)
    ultimately show ?thesis using wf' by (simp add: tracks_def)
  qed
qed

lemma rl_params [simp]:
  "rl_window_seconds (rl_step l e) = rl_window_seconds l" "rl_max_sources (rl_step l e) = rl_max_sources l"
  "rl_max_failures (rl_step l e) = rl_max_failures l"
proof -
  have p: "rl_window_seconds (rl_prune now l) = rl_window_seconds l \<and> rl_max_sources (rl_prune now l) = rl_max_sources l
      \<and> rl_max_failures (rl_prune now l) = rl_max_failures l" for now
    by (simp add: rl_prune_def split: prod.split)
  have i: "rl_window_seconds (insert_bounded s x l) = rl_window_seconds l \<and> rl_max_sources (insert_bounded s x l) = rl_max_sources l
      \<and> rl_max_failures (insert_bounded s x l) = rl_max_failures l" for s x and l :: "'a rate_limiter"
    by (simp add: insert_bounded_def split: prod.split)
  show "rl_window_seconds (rl_step l e) = rl_window_seconds l" "rl_max_sources (rl_step l e) = rl_max_sources l"
    "rl_max_failures (rl_step l e) = rl_max_failures l"
    using p i by (cases e; simp add: record_failure_def record_success_def Let_def split: option.split)+
qed

lemma rl_run_snoc: "rl_run l (es @ [e]) = rl_step (rl_run l es) e"
  by (simp add: rl_run_def)

lemma rl_run_params [simp]:
  "rl_window_seconds (rl_run l es) = rl_window_seconds l" "rl_max_sources (rl_run l es) = rl_max_sources l"
  "rl_max_failures (rl_run l es) = rl_max_failures l"
  by (induction es rule: rev_induct) (simp_all add: rl_run_snoc, simp_all add: rl_run_def)

lemma event_times_append: "event_times (es @ es') = event_times es @ event_times es'"
  by (induction es rule: event_times.induct) auto

lemma rl_run_tracks:
  assumes "0 < mf" "0 < w" "0 < ms" "sorted (event_times es)" "\<forall>t \<in> set (event_times es). t \<le> now"
    "card (event_source ` set es) \<le> ms"
  shows "tracks w now (rl_run (rl_new mf w ms) es) es"
  using assms(4-6)
proof (induction es arbitrary: now rule: rev_induct)
  case Nil
  then show ?case
    by (simp add: tracks_def rl_run_def wf_limiter_new)
       (simp add: rl_new_def live_entry_def live_window_def window_of_def)
next
  case (snoc e es)
  let ?l = "rl_run (rl_new mf w ms) es"
  have cards: "card (event_source ` set es) \<le> ms"
    using snoc.prems(3) card_mono [of "event_source ` set (es @ [e])" "event_source ` set es"] by fastforce
  show ?case
  proof (cases e)
    case (Succeeded ip)
    have "tracks w now ?l es"
      using snoc.IH [of now] snoc.prems cards Succeeded by (simp add: event_times_append)
    then show ?thesis using tracks_success Succeeded by (simp add: rl_run_snoc)
  next
    case (Failed ip t)
    have "tracks w t ?l es"
      using snoc.IH [of t] snoc.prems cards Failed by (simp add: event_times_append sorted_append)
    then have "tracks w t (record_failure ip t ?l) (es @ [e])"
      using tracks_failure [of w t ?l es t ip] snoc.prems(3) assms(1-3) Failed
      by (simp add: rl_disabled_def) (simp add: rl_new_def)
    then have "tracks w now (record_failure ip t ?l) (es @ [e])"
      using live_later [of w t _ _ now] snoc.prems(2) Failed by (simp add: tracks_def event_times_append)
    then show ?thesis using Failed by (simp add: rl_run_snoc)
  qed
qed



end
