(* ===== verification/DigestHeader.thy ===== *)
theory DigestHeader
  imports SipWire
begin

text \<open>
  Digest challenges and responses and their header text: \<open>sip/digest/response.rs\<close> of
  \<open>cheetah-gb28181-core\<close>. The messages inside \<open>Malformed\<close> errors are not kept. The lemmas show
  that both header values are read back as they were written.
\<close>

section \<open>Algorithms and errors\<close>

datatype digest_algorithm = Md5 | Sha256 | Sha512

definition algorithm_parse :: "string \<Rightarrow> digest_algorithm option" where
  "algorithm_parse s =
     (if eq_ignore_ascii_case s ''md5'' then Some Md5
      else if eq_ignore_ascii_case s ''sha-256'' \<or> eq_ignore_ascii_case s ''sha256'' then Some Sha256
      else if eq_ignore_ascii_case s ''sha-512'' \<or> eq_ignore_ascii_case s ''sha512'' then Some Sha512
      else None)"

fun algorithm_wire :: "digest_algorithm \<Rightarrow> string" where
  "algorithm_wire Md5 = ''MD5''"
| "algorithm_wire Sha256 = ''SHA-256''"
| "algorithm_wire Sha512 = ''SHA-512''"

datatype digest_qop = Auth | AuthInt

definition qop_parse :: "string \<Rightarrow> digest_qop option" where
  "qop_parse s =
     (if eq_ignore_ascii_case s ''auth'' then Some Auth
      else if eq_ignore_ascii_case s ''auth-int'' then Some AuthInt else None)"

fun qop_wire :: "digest_qop \<Rightarrow> string" where
  "qop_wire Auth = ''auth''"
| "qop_wire AuthInt = ''auth-int''"

datatype digest_error =
    Malformed | UnknownAlgorithm | AlgorithmNotAllowed | AlgorithmDowngrade | InvalidQop
  | InvalidNonce | WeakSecret | StaleNonce | ReplayDetected | RealmMismatch | UriMismatch
  | InvalidResponse

record digest_response =
  dr_username :: string
  dr_realm :: string
  dr_nonce :: string
  dr_uri :: string
  dr_response :: string
  dr_cnonce :: "string option"
  dr_nc :: "nat option"
  dr_qop :: "digest_qop option"
  dr_algorithm :: "digest_algorithm option"
  dr_opaque :: "string option"

record digest_challenge =
  dc_realm :: string
  dc_nonce :: string
  dc_opaque :: "string option"
  dc_stale :: bool
  dc_algorithm :: digest_algorithm
  dc_qop :: "digest_qop option"

section \<open>Quoting\<close>

abbreviation BS :: char where
  "BS \<equiv> CHR 0x5C"

definition replace_char :: "char \<Rightarrow> string \<Rightarrow> string \<Rightarrow> string" where
  "replace_char c r s = concat (map (\<lambda>x. if x = c then r else [x]) s)"

definition sanitize_quoted_value :: "string \<Rightarrow> string" where
  "sanitize_quoted_value s =
     filter (\<lambda>c. c \<noteq> CR \<and> c \<noteq> LF) (replace_char DQ [BS, DQ] (replace_char BS [BS, BS] s))"

definition quoted_param :: "string \<Rightarrow> string \<Rightarrow> string" where
  "quoted_param name val = name @ [CHR ''='', DQ] @ sanitize_quoted_value val @ [DQ]"

definition raw_param :: "string \<Rightarrow> string \<Rightarrow> string" where
  "raw_param name val = name @ [CHR ''=''] @ val"

text \<open>\<open>write_separator\<close>: a space before the first parameter and a comma before the others.\<close>

definition digest_header :: "string list \<Rightarrow> string" where
  "digest_header ps =
     ''Digest'' @ (case ps of [] \<Rightarrow> [] | p # ps \<Rightarrow> '' '' @ p @ concat (map (\<lambda>p. CHR '','' # SP # p) ps))"

text \<open>The loop of \<open>split_commas\<close>; the flags are \<open>in_quotes\<close> and \<open>escaping\<close>.\<close>

fun split_commas_loop :: "bool \<Rightarrow> bool \<Rightarrow> string \<Rightarrow> string list" where
  "split_commas_loop q e [] = [[]]"
| "split_commas_loop q e (c # cs) =
     (let (q', e', cut) =
            (if e then (q, False, False)
             else if c = BS then (q, True, False)
             else if c = DQ then (\<not> q, False, False)
             else (q, False, c = CHR '','' \<and> \<not> q))
      in if cut then [] # split_commas_loop q' e' cs
         else (case split_commas_loop q' e' cs of [] \<Rightarrow> [[c]] | t # ts \<Rightarrow> (c # t) # ts))"

definition split_commas :: "string \<Rightarrow> string list" where
  "split_commas s = split_commas_loop False False s"

fun unescape :: "string \<Rightarrow> string" where
  "unescape [] = []"
| "unescape [c] = [c]"
| "unescape (c # d # s) =
     (if c = BS then
        (if d = BS then BS # unescape s else if d = DQ then DQ # unescape s else BS # d # unescape s)
      else c # unescape (d # s))"

definition unquote :: "string \<Rightarrow> string" where
  "unquote val =
     (let v = trim val in
      if 2 \<le> length v \<and> hd v = DQ \<and> last v = DQ
      then (let inner = butlast (tl v) in if BS \<in> set inner then unescape inner else inner)
      else v)"

section \<open>Hexadecimal numbers\<close>

definition hex_char :: "nat \<Rightarrow> char" where
  "hex_char d = ''0123456789abcdef'' ! d"

definition hex_value :: "char \<Rightarrow> nat option" where
  "hex_value c =
     (let n = of_char c in
      if 48 \<le> n \<and> n \<le> 57 then Some (n - 48)
      else if 97 \<le> n \<and> n \<le> 102 then Some (n - 87)
      else if 65 \<le> n \<and> n \<le> 70 then Some (n - 55) else None)"

fun nat_to_hex :: "nat \<Rightarrow> string" where
  "nat_to_hex n = (if n < 16 then [hex_char n] else nat_to_hex (n div 16) @ [hex_char (n mod 16)])"

declare nat_to_hex.simps [simp del]

text \<open>\<open>format!("{nc:08x}")\<close>.\<close>

definition hex08 :: "nat \<Rightarrow> string" where
  "hex08 n = replicate (8 - length (nat_to_hex n)) (CHR ''0'') @ nat_to_hex n"

fun hex_digits_value :: "nat \<Rightarrow> string \<Rightarrow> nat option" where
  "hex_digits_value a [] = Some a"
| "hex_digits_value a (c # cs) =
     (case hex_value c of None \<Rightarrow> None | Some d \<Rightarrow> hex_digits_value (16 * a + d) cs)"

text \<open>\<open>u64::from_str_radix(s, 16)\<close>.\<close>

definition parse_hex_u64 :: "string \<Rightarrow> nat option" where
  "parse_hex_u64 s =
     (let ds = (case s of [] \<Rightarrow> [] | c # cs \<Rightarrow> if c = CHR ''+'' then cs else s)
      in if ds = [] then None
         else case hex_digits_value 0 ds of
           None \<Rightarrow> None
         | Some n \<Rightarrow> if n \<le> u64_max then Some n else None)"

section \<open>Responses\<close>

definition strip_digest :: "string \<Rightarrow> string" where
  "strip_digest val =
     (if 7 < length val \<and> is_char_boundary val 7 \<and> eq_ignore_ascii_case (take 7 val) ''digest ''
      then drop 7 val else val)"

definition option_or :: "'e \<Rightarrow> 'a option \<Rightarrow> ('a \<Rightarrow> 'e + 'b) \<Rightarrow> 'e + 'b" where
  "option_or e x f = (case x of None \<Rightarrow> Inl e | Some a \<Rightarrow> f a)"

record response_fields =
  rf_username :: "string option"
  rf_realm :: "string option"
  rf_nonce :: "string option"
  rf_uri :: "string option"
  rf_response :: "string option"
  rf_cnonce :: "string option"
  rf_nc :: "nat option"
  rf_qop :: "digest_qop option"
  rf_algorithm :: "digest_algorithm option"
  rf_opaque :: "string option"

text \<open>A trimmed part as its key and its value; \<open>None\<close> without a \<open>=\<close>.\<close>

definition part_key_value :: "string \<Rightarrow> (string \<times> string) option" where
  "part_key_value part =
     (case split_once (CHR ''='') part of
        None \<Rightarrow> None
      | Some (k, r) \<Rightarrow> Some (trim k, unquote (trim r)))"

definition set_response_field ::
    "string \<Rightarrow> string \<Rightarrow> response_fields \<Rightarrow> digest_error + response_fields" where
  "set_response_field key val f =
     (if eq_ignore_ascii_case key ''username'' then Inr (f\<lparr>rf_username := Some val\<rparr>)
      else if eq_ignore_ascii_case key ''realm'' then Inr (f\<lparr>rf_realm := Some val\<rparr>)
      else if eq_ignore_ascii_case key ''nonce'' then Inr (f\<lparr>rf_nonce := Some val\<rparr>)
      else if eq_ignore_ascii_case key ''uri'' then Inr (f\<lparr>rf_uri := Some val\<rparr>)
      else if eq_ignore_ascii_case key ''response'' then Inr (f\<lparr>rf_response := Some val\<rparr>)
      else if eq_ignore_ascii_case key ''cnonce'' then Inr (f\<lparr>rf_cnonce := Some val\<rparr>)
      else if eq_ignore_ascii_case key ''nc'' then
        option_or Malformed (parse_hex_u64 val) (\<lambda>n. Inr (f\<lparr>rf_nc := Some n\<rparr>))
      else if eq_ignore_ascii_case key ''qop'' then
        option_or InvalidQop (qop_parse val) (\<lambda>q. Inr (f\<lparr>rf_qop := Some q\<rparr>))
      else if eq_ignore_ascii_case key ''algorithm'' then
        option_or UnknownAlgorithm (algorithm_parse val) (\<lambda>a. Inr (f\<lparr>rf_algorithm := Some a\<rparr>))
      else if eq_ignore_ascii_case key ''opaque'' then Inr (f\<lparr>rf_opaque := Some val\<rparr>)
      else Inr f)"

fun response_parts :: "string list \<Rightarrow> response_fields \<Rightarrow> digest_error + response_fields" where
  "response_parts [] f = Inr f"
| "response_parts (p # ps) f =
     (let part = trim p in
      if part = [] then response_parts ps f
      else case part_key_value part of
        None \<Rightarrow> Inl Malformed
      | Some (key, val) \<Rightarrow>
          (case set_response_field key val f of Inl e \<Rightarrow> Inl e | Inr f' \<Rightarrow> response_parts ps f'))"

definition no_response_fields :: response_fields where
  "no_response_fields =
     \<lparr>rf_username = None, rf_realm = None, rf_nonce = None, rf_uri = None, rf_response = None,
      rf_cnonce = None, rf_nc = None, rf_qop = None, rf_algorithm = None, rf_opaque = None\<rparr>"

definition response_parse_with_limit :: "string \<Rightarrow> nat \<Rightarrow> digest_error + digest_response" where
  "response_parse_with_limit val max_len =
     (if max_len < length val then Inl Malformed
      else case response_parts (split_commas (strip_digest (trim val))) no_response_fields of
        Inl e \<Rightarrow> Inl e
      | Inr f \<Rightarrow>
          option_or Malformed (rf_username f) (\<lambda>username.
          option_or Malformed (rf_realm f) (\<lambda>realm.
          option_or Malformed (rf_nonce f) (\<lambda>nonce.
          option_or Malformed (rf_uri f) (\<lambda>uri.
          option_or Malformed (rf_response f) (\<lambda>response.
            Inr \<lparr>dr_username = username, dr_realm = realm, dr_nonce = nonce, dr_uri = uri,
                 dr_response = response, dr_cnonce = rf_cnonce f, dr_nc = rf_nc f, dr_qop = rf_qop f,
                 dr_algorithm = rf_algorithm f, dr_opaque = rf_opaque f\<rparr>))))))"

definition response_parse :: "string \<Rightarrow> digest_error + digest_response" where
  "response_parse val = response_parse_with_limit val 2048"

definition response_params :: "digest_response \<Rightarrow> string list" where
  "response_params r =
     [quoted_param ''username'' (dr_username r), quoted_param ''realm'' (dr_realm r),
      quoted_param ''nonce'' (dr_nonce r), quoted_param ''uri'' (dr_uri r),
      quoted_param ''response'' (dr_response r)]
     @ (case dr_cnonce r of None \<Rightarrow> [] | Some c \<Rightarrow> [quoted_param ''cnonce'' c])
     @ (case dr_nc r of None \<Rightarrow> [] | Some n \<Rightarrow> [raw_param ''nc'' (hex08 n)])
     @ (case dr_qop r of None \<Rightarrow> [] | Some q \<Rightarrow> [raw_param ''qop'' (qop_wire q)])
     @ (case dr_algorithm r of None \<Rightarrow> [] | Some a \<Rightarrow> [raw_param ''algorithm'' (algorithm_wire a)])
     @ (case dr_opaque r of None \<Rightarrow> [] | Some c \<Rightarrow> [quoted_param ''opaque'' c])"

definition response_header_value :: "digest_response \<Rightarrow> string" where
  "response_header_value r = digest_header (response_params r)"

section \<open>Challenges\<close>

record challenge_fields =
  cf_realm :: "string option"
  cf_nonce :: "string option"
  cf_opaque :: "string option"
  cf_stale :: bool
  cf_algorithm :: "digest_algorithm option"
  cf_qop :: "digest_qop option"

text \<open>The loop over the offered values of \<open>qop\<close>: it stops at \<open>auth\<close>.\<close>

fun select_qop :: "digest_qop option \<Rightarrow> string list \<Rightarrow> digest_qop option" where
  "select_qop selected [] = selected"
| "select_qop selected (t # ts) =
     (let token = trim t in
      if token = [] then select_qop selected ts
      else if eq_ignore_ascii_case (unquote token) ''auth'' then Some Auth
      else if eq_ignore_ascii_case (unquote token) ''auth-int'' then select_qop (Some AuthInt) ts
      else select_qop selected ts)"

definition set_challenge_field ::
    "string \<Rightarrow> string \<Rightarrow> challenge_fields \<Rightarrow> digest_error + challenge_fields" where
  "set_challenge_field key val f =
     (if eq_ignore_ascii_case key ''realm'' then Inr (f\<lparr>cf_realm := Some val\<rparr>)
      else if eq_ignore_ascii_case key ''nonce'' then Inr (f\<lparr>cf_nonce := Some val\<rparr>)
      else if eq_ignore_ascii_case key ''opaque'' then Inr (f\<lparr>cf_opaque := Some val\<rparr>)
      else if eq_ignore_ascii_case key ''stale'' then Inr (f\<lparr>cf_stale := eq_ignore_ascii_case val ''true''\<rparr>)
      else if eq_ignore_ascii_case key ''algorithm'' then
        option_or UnknownAlgorithm (algorithm_parse val) (\<lambda>a. Inr (f\<lparr>cf_algorithm := Some a\<rparr>))
      else if eq_ignore_ascii_case key ''qop'' then Inr (f\<lparr>cf_qop := select_qop None (split_commas val)\<rparr>)
      else Inr f)"

fun challenge_parts :: "string list \<Rightarrow> challenge_fields \<Rightarrow> digest_error + challenge_fields" where
  "challenge_parts [] f = Inr f"
| "challenge_parts (p # ps) f =
     (let part = trim p in
      if part = [] then challenge_parts ps f
      else case part_key_value part of
        None \<Rightarrow> Inl Malformed
      | Some (key, val) \<Rightarrow>
          (case set_challenge_field key val f of Inl e \<Rightarrow> Inl e | Inr f' \<Rightarrow> challenge_parts ps f'))"

definition no_challenge_fields :: challenge_fields where
  "no_challenge_fields =
     \<lparr>cf_realm = None, cf_nonce = None, cf_opaque = None, cf_stale = False, cf_algorithm = None, cf_qop = None\<rparr>"

definition challenge_parse_with_limit :: "string \<Rightarrow> nat \<Rightarrow> digest_error + digest_challenge" where
  "challenge_parse_with_limit val max_len =
     (if max_len < length val then Inl Malformed
      else case challenge_parts (split_commas (strip_digest (trim val))) no_challenge_fields of
        Inl e \<Rightarrow> Inl e
      | Inr f \<Rightarrow>
          option_or Malformed (cf_realm f) (\<lambda>realm.
          option_or Malformed (cf_nonce f) (\<lambda>nonce.
            Inr \<lparr>dc_realm = realm, dc_nonce = nonce, dc_opaque = cf_opaque f, dc_stale = cf_stale f,
                 dc_algorithm = (case cf_algorithm f of None \<Rightarrow> Md5 | Some a \<Rightarrow> a), dc_qop = cf_qop f\<rparr>)))"

definition challenge_parse :: "string \<Rightarrow> digest_error + digest_challenge" where
  "challenge_parse val = challenge_parse_with_limit val 2048"

definition challenge_params :: "digest_challenge \<Rightarrow> string list" where
  "challenge_params c =
     [quoted_param ''realm'' (dc_realm c), quoted_param ''nonce'' (dc_nonce c),
      raw_param ''algorithm'' (algorithm_wire (dc_algorithm c))]
     @ (case dc_opaque c of None \<Rightarrow> [] | Some x \<Rightarrow> [quoted_param ''opaque'' x])
     @ (if dc_stale c then [raw_param ''stale'' ''true''] else [])
     @ (case dc_qop c of None \<Rightarrow> [] | Some q \<Rightarrow> [quoted_param ''qop'' (qop_wire q)])"

definition challenge_header_value :: "digest_challenge \<Rightarrow> string" where
  "challenge_header_value c = digest_header (challenge_params c)"

section \<open>Splitting what was written\<close>

abbreviation prepend :: "string \<Rightarrow> string list \<Rightarrow> string list" where
  "prepend a ts \<equiv> (case ts of [] \<Rightarrow> [a] | t # ts' \<Rightarrow> (a @ t) # ts')"

lemma sanitize_simps [simp]:
  "sanitize_quoted_value [] = []"
  "sanitize_quoted_value (c # s) =
     (if c = BS then [BS, BS] else if c = DQ then [BS, DQ] else if c = CR \<or> c = LF then [] else [c])
     @ sanitize_quoted_value s"
  by (simp_all add: sanitize_quoted_value_def replace_char_def)

lemma sanitize_BS_iff: "CR \<notin> set s \<Longrightarrow> LF \<notin> set s \<Longrightarrow> (BS \<in> set (sanitize_quoted_value s)) = (BS \<in> set s \<or> DQ \<in> set s)"
  by (induction s) auto

lemma sanitize_plain: "BS \<notin> set s \<Longrightarrow> DQ \<notin> set s \<Longrightarrow> CR \<notin> set s \<Longrightarrow> LF \<notin> set s \<Longrightarrow> sanitize_quoted_value s = s"
  by (induction s) auto

lemma unescape_other: "c \<noteq> BS \<Longrightarrow> unescape (c # s) = c # unescape s"
  by (cases s) auto

lemma unescape_sanitize: "CR \<notin> set s \<Longrightarrow> LF \<notin> set s \<Longrightarrow> unescape (sanitize_quoted_value s) = s"
  by (induction s) (auto simp: unescape_other)

lemma split_commas_loop_not_Nil [simp]: "split_commas_loop q e s \<noteq> []"
  by (cases s) (auto simp: Let_def split: list.splits if_splits)

lemma split_commas_plain:
  "BS \<notin> set a \<Longrightarrow> DQ \<notin> set a \<Longrightarrow> CHR '','' \<notin> set a \<Longrightarrow>
   split_commas_loop False False (a @ r) = prepend a (split_commas_loop False False r)"
  by (induction a) (auto split: list.splits)

lemma split_commas_quoted:
  "split_commas_loop True False (sanitize_quoted_value v @ DQ # r)
   = prepend (sanitize_quoted_value v @ [DQ]) (split_commas_loop False False r)"
  by (induction v) (auto split: list.splits)

text \<open>A parameter that the splitter passes as a whole and that \<open>trim\<close> leaves alone.\<close>

definition whole_param :: "string \<Rightarrow> bool" where
  "whole_param p \<longleftrightarrow>
     p \<noteq> [] \<and> visible (hd p) \<and> visible (last p)
     \<and> (\<forall>r. split_commas_loop False False (p @ r) = prepend p (split_commas_loop False False r))"

definition param_name :: "string \<Rightarrow> bool" where
  "param_name n \<longleftrightarrow> n \<noteq> [] \<and> list_all is_header_token_char n"

lemma param_name_not:
  assumes "param_name n"
  shows "BS \<notin> set n" "DQ \<notin> set n" "CHR '','' \<notin> set n" "CHR ''='' \<notin> set n"
  using assms
  by (auto simp: param_name_def list_all_iff is_header_token_char_def is_ascii_lowercase_def
      is_ascii_uppercase_def is_ascii_digit_def)

lemma param_name_visible: "param_name n \<Longrightarrow> n \<noteq> [] \<and> visible (hd n) \<and> visible (last n)"
  by (simp add: param_name_def list_all_iff token_char_visible)

lemma visible_DQ [simp]: "visible DQ"
  by (simp add: visible_def byte_in_def)

lemma whole_quoted_param: "param_name n \<Longrightarrow> whole_param (quoted_param n v)"
  using param_name_visible [of n] param_name_not [of n]
    split_commas_plain [of "n @ [CHR ''='']"] split_commas_quoted [of v]
  by (auto simp: whole_param_def quoted_param_def split: list.splits)

lemma whole_raw_param:
  assumes "param_name n" "param_name v"
  shows "whole_param (raw_param n v)"
  using param_name_visible [of n] param_name_not [of n] param_name_visible [of v] param_name_not [of v] assms
    split_commas_plain [of "n @ CHR ''='' # v"]
  by (auto simp: whole_param_def raw_param_def)

lemma whole_param_trimmed: "whole_param p \<Longrightarrow> trimmed p"
  by (simp add: whole_param_def trimmed_visible)

lemma split_commas_params:
  assumes "list_all whole_param (p # ps)"
  shows "split_commas (p @ concat (map (\<lambda>p. CHR '','' # SP # p) ps)) = p # map (\<lambda>p. SP # p) ps"
proof -
  have "list_all whole_param ps \<Longrightarrow>
      split_commas_loop False False (concat (map (\<lambda>p. CHR '','' # SP # p) ps)) = [] # map (\<lambda>p. SP # p) ps" for ps
    by (induction ps) (auto simp: whole_param_def)
  with assms show ?thesis
    by (simp add: split_commas_def whole_param_def)
qed

lemma header_last_visible:
  "list_all whole_param (p # ps) \<Longrightarrow>
   visible (last (p @ concat (map (\<lambda>p. CHR '','' # SP # p) ps))) \<and> p @ concat (map (\<lambda>p. CHR '','' # SP # p) ps) \<noteq> []"
proof (induction ps arbitrary: p)
  case Nil
  then show ?case by (simp add: whole_param_def)
next
  case (Cons q qs)
  then show ?case
    using Cons.IH [of q] by (simp add: whole_param_def last_append)
qed

lemma digest_prefix: "eq_ignore_ascii_case ''Digest '' ''digest ''"
  by code_simp

text \<open>The parser sees exactly the parameters of a written header.\<close>

lemma written_header_splits:
  assumes "list_all whole_param ps" "ps \<noteq> []"
  shows "split_commas (strip_digest (trim (digest_header ps))) = hd ps # map (\<lambda>p. SP # p) (tl ps)"
proof -
  obtain p qs where ps: "ps = p # qs" using assms(2) by (cases ps) auto
  let ?b = "p @ concat (map (\<lambda>p. CHR '','' # SP # p) qs)"
  have hdr: "digest_header ps = ''Digest '' @ ?b"
    by (simp add: digest_header_def ps)
  have last: "visible (last ?b)" "?b \<noteq> []"
    using header_last_visible assms(1) by (auto simp: ps)
  then have "trimmed (digest_header ps)"
    unfolding hdr by (intro trimmed_visible) (auto simp: visible_def byte_in_def)
  moreover have "strip_digest (digest_header ps) = ?b"
  proof -
    obtain c b where b: "?b = c # b" using last(2) by (cases ?b) auto
    have "c = hd p" using b assms(1) by (cases p) (auto simp: ps whole_param_def)
    then have "visible c" using assms(1) by (simp add: ps whole_param_def)
    then show ?thesis
      unfolding hdr b by (simp add: strip_digest_def is_char_boundary_def visible_def byte_in_def digest_prefix)
  qed
  ultimately show ?thesis
    using split_commas_params assms(1) by (simp add: ps)
qed

section \<open>Reading a parameter back\<close>

lemma unquote_quoted:
  assumes "CR \<notin> set v" "LF \<notin> set v"
  shows "unquote (DQ # sanitize_quoted_value v @ [DQ]) = v"
proof -
  have "trimmed (DQ # sanitize_quoted_value v @ [DQ])"
    by (rule trimmed_visible) auto
  then show ?thesis
    using assms sanitize_BS_iff [of v] sanitize_plain [of v] unescape_sanitize [of v]
    by (auto simp: unquote_def butlast_append Let_def)
qed

lemma key_value_quoted:
  assumes "param_name n" "CR \<notin> set v" "LF \<notin> set v"
  shows "part_key_value (quoted_param n v) = Some (n, v)"
proof -
  have "trimmed (DQ # sanitize_quoted_value v @ [DQ])"
    by (rule trimmed_visible) auto
  moreover have "trimmed n"
    using param_name_visible [OF assms(1)] by (simp add: trimmed_visible)
  ultimately show ?thesis
    using assms param_name_not [OF assms(1)] unquote_quoted
    by (simp add: part_key_value_def quoted_param_def)
qed

lemma key_value_raw:
  assumes "param_name n" "param_name v"
  shows "part_key_value (raw_param n v) = Some (n, v)"
proof -
  note v = assms(2)
  have "trimmed v"
    using param_name_visible [OF v] by (simp add: trimmed_visible)
  moreover have "hd v \<noteq> DQ"
    using param_name_not(2) [OF v] param_name_visible [OF v] by (cases v) auto
  moreover have "trimmed n"
    using param_name_visible [OF assms(1)] by (simp add: trimmed_visible)
  ultimately show ?thesis
    using param_name_not(4) [OF assms(1)] by (simp add: part_key_value_def raw_param_def unquote_def)
qed

section \<open>Hexadecimal round trip\<close>

lemma hex_chars:
  "list_all (\<lambda>(d, c). hex_value c = Some d \<and> is_header_token_char c \<and> c \<noteq> CHR ''+'')
     (enumerate 0 ''0123456789abcdef'')"
  by code_simp

lemma hex_char_props:
  assumes "d < 16"
  shows "hex_value (hex_char d) = Some d" "is_header_token_char (hex_char d)" "hex_char d \<noteq> CHR ''+''"
proof -
  have "(d, hex_char d) \<in> set (enumerate 0 ''0123456789abcdef'')"
    using assms by (simp only: in_set_enumerate_eq hex_char_def) simp
  then show "hex_value (hex_char d) = Some d" "is_header_token_char (hex_char d)" "hex_char d \<noteq> CHR ''+''"
    using hex_chars unfolding list_all_iff by blast+
qed

lemma hex_digits_value_append:
  "hex_digits_value a (s @ t) = (case hex_digits_value a s of None \<Rightarrow> None | Some b \<Rightarrow> hex_digits_value b t)"
  by (induction s arbitrary: a) (auto split: option.splits)

lemma hex_digits_value_nat_to_hex: "hex_digits_value 0 (nat_to_hex n) = Some n"
proof (induction n rule: nat_to_hex.induct)
  case (1 n)
  then show ?case
    by (cases "n < 16") (simp_all add: nat_to_hex.simps [of n] hex_char_props hex_digits_value_append)
qed

lemma nat_to_hex_chars: "list_all (\<lambda>c. is_header_token_char c \<and> c \<noteq> CHR ''+'') (nat_to_hex n) \<and> nat_to_hex n \<noteq> []"
proof (induction n rule: nat_to_hex.induct)
  case (1 n)
  then show ?case
    by (cases "n < 16") (simp_all add: nat_to_hex.simps [of n] hex_char_props)
qed

lemma list_all_replicate: "P x \<Longrightarrow> list_all P (replicate k x)"
  by (induction k) simp_all

lemma hex08_chars: "list_all (\<lambda>c. is_header_token_char c \<and> c \<noteq> CHR ''+'') (hex08 n)" "hex08 n \<noteq> []"
proof -
  have "is_header_token_char (CHR ''0'')" by code_simp
  then show "list_all (\<lambda>c. is_header_token_char c \<and> c \<noteq> CHR ''+'') (hex08 n)" "hex08 n \<noteq> []"
    using nat_to_hex_chars [of n] by (auto simp: hex08_def list_all_append intro: list_all_replicate)
qed

lemma hex08_value: "hex_digits_value 0 (hex08 n) = Some n"
proof -
  have "hex_digits_value 0 (replicate k (CHR ''0'')) = Some 0" for k
    by (induction k) (simp_all add: hex_value_def)
  then show ?thesis
    by (simp add: hex08_def hex_digits_value_append hex_digits_value_nat_to_hex)
qed

lemma parse_hex08: "n \<le> u64_max \<Longrightarrow> parse_hex_u64 (hex08 n) = Some n"
proof -
  assume n: "n \<le> u64_max"
  have "(case hex08 n of [] \<Rightarrow> [] | c # cs \<Rightarrow> if c = CHR ''+'' then cs else hex08 n) = hex08 n"
    using hex08_chars(1) [of n] by (cases "hex08 n") simp_all
  then show ?thesis
    using n hex08_chars(2) [of n] hex08_value [of n] by (simp add: parse_hex_u64_def)
qed

section \<open>Header round trips\<close>

definition one_line :: "string \<Rightarrow> bool" where
  "one_line s \<longleftrightarrow> CR \<notin> set s \<and> LF \<notin> set s"

abbreviation one_line_option :: "string option \<Rightarrow> bool" where
  "one_line_option s \<equiv> (case s of None \<Rightarrow> True | Some t \<Rightarrow> one_line t)"

definition printable_response :: "digest_response \<Rightarrow> bool" where
  "printable_response r \<longleftrightarrow>
     one_line (dr_username r) \<and> one_line (dr_realm r) \<and> one_line (dr_nonce r) \<and> one_line (dr_uri r)
     \<and> one_line (dr_response r) \<and> one_line_option (dr_cnonce r) \<and> one_line_option (dr_opaque r)
     \<and> (case dr_nc r of None \<Rightarrow> True | Some n \<Rightarrow> n \<le> u64_max)"

definition printable_challenge :: "digest_challenge \<Rightarrow> bool" where
  "printable_challenge c \<longleftrightarrow>
     one_line (dc_realm c) \<and> one_line (dc_nonce c) \<and> one_line_option (dc_opaque c)"

lemma param_names [simp]:
  "param_name ''username''" "param_name ''realm''" "param_name ''nonce''" "param_name ''uri''"
  "param_name ''response''" "param_name ''cnonce''" "param_name ''nc''" "param_name ''qop''"
  "param_name ''algorithm''" "param_name ''opaque''" "param_name ''stale''"
  by code_simp+

lemma wire_names:
  "param_name (algorithm_wire a)" "algorithm_parse (algorithm_wire a) = Some a"
  "param_name (qop_wire q)" "qop_parse (qop_wire q) = Some q"
proof -
  show "param_name (algorithm_wire a)" by (cases a; simp; code_simp)
  show "algorithm_parse (algorithm_wire a) = Some a" by (cases a; simp; code_simp)
  show "param_name (qop_wire q)" by (cases q; simp; code_simp)
  show "qop_parse (qop_wire q) = Some q" by (cases q; simp; code_simp)
qed

definition digest_keys :: "string list" where
  "digest_keys =
     [''username'', ''realm'', ''nonce'', ''uri'', ''response'', ''cnonce'', ''nc'', ''qop'', ''algorithm'',
      ''opaque'', ''stale'']"

lemma digest_keys_distinct:
  "list_all (\<lambda>a. list_all (\<lambda>b. eq_ignore_ascii_case a b = (a = b)) digest_keys) digest_keys"
  by code_simp

lemma digest_key_eq: "a \<in> set digest_keys \<Longrightarrow> b \<in> set digest_keys \<Longrightarrow> eq_ignore_ascii_case a b = (a = b)"
  using digest_keys_distinct by (simp add: list_all_iff)

lemma digest_key_members [simp]:
  "''username'' \<in> set digest_keys" "''realm'' \<in> set digest_keys" "''nonce'' \<in> set digest_keys"
  "''uri'' \<in> set digest_keys" "''response'' \<in> set digest_keys" "''cnonce'' \<in> set digest_keys"
  "''nc'' \<in> set digest_keys" "''qop'' \<in> set digest_keys" "''algorithm'' \<in> set digest_keys"
  "''opaque'' \<in> set digest_keys" "''stale'' \<in> set digest_keys"
  by (simp_all add: digest_keys_def)

lemma set_response_field_simps [simp]:
  "set_response_field ''username'' v f = Inr (f\<lparr>rf_username := Some v\<rparr>)"
  "set_response_field ''realm'' v f = Inr (f\<lparr>rf_realm := Some v\<rparr>)"
  "set_response_field ''nonce'' v f = Inr (f\<lparr>rf_nonce := Some v\<rparr>)"
  "set_response_field ''uri'' v f = Inr (f\<lparr>rf_uri := Some v\<rparr>)"
  "set_response_field ''response'' v f = Inr (f\<lparr>rf_response := Some v\<rparr>)"
  "set_response_field ''cnonce'' v f = Inr (f\<lparr>rf_cnonce := Some v\<rparr>)"
  "set_response_field ''nc'' v f = option_or Malformed (parse_hex_u64 v) (\<lambda>n. Inr (f\<lparr>rf_nc := Some n\<rparr>))"
  "set_response_field ''qop'' v f = option_or InvalidQop (qop_parse v) (\<lambda>q. Inr (f\<lparr>rf_qop := Some q\<rparr>))"
  "set_response_field ''algorithm'' v f =
     option_or UnknownAlgorithm (algorithm_parse v) (\<lambda>a. Inr (f\<lparr>rf_algorithm := Some a\<rparr>))"
  "set_response_field ''opaque'' v f = Inr (f\<lparr>rf_opaque := Some v\<rparr>)"
  by (simp_all add: set_response_field_def digest_key_eq)

lemma set_challenge_field_simps [simp]:
  "set_challenge_field ''realm'' v g = Inr (g\<lparr>cf_realm := Some v\<rparr>)"
  "set_challenge_field ''nonce'' v g = Inr (g\<lparr>cf_nonce := Some v\<rparr>)"
  "set_challenge_field ''opaque'' v g = Inr (g\<lparr>cf_opaque := Some v\<rparr>)"
  "set_challenge_field ''stale'' ''true'' g = Inr (g\<lparr>cf_stale := True\<rparr>)"
  "set_challenge_field ''algorithm'' v g =
     option_or UnknownAlgorithm (algorithm_parse v) (\<lambda>a. Inr (g\<lparr>cf_algorithm := Some a\<rparr>))"
  "set_challenge_field ''qop'' v g = Inr (g\<lparr>cf_qop := select_qop None (split_commas v)\<rparr>)"
  by (simp_all add: set_challenge_field_def digest_key_eq)

lemma written_part:
  assumes "whole_param p"
  shows "trim p = p" "trim (SP # p) = p" "p \<noteq> []"
  using assms whole_param_trimmed [OF assms] by (simp_all add: trim_SP) (simp add: whole_param_def)

lemma response_parts_quoted [simp]:
  assumes "param_name n" "one_line v"
  shows "response_parts (quoted_param n v # ps) f
         = (case set_response_field n v f of Inl e \<Rightarrow> Inl e | Inr f' \<Rightarrow> response_parts ps f')"
    "response_parts ((SP # quoted_param n v) # ps) f
         = (case set_response_field n v f of Inl e \<Rightarrow> Inl e | Inr f' \<Rightarrow> response_parts ps f')"
  using assms key_value_quoted [of n v] written_part [OF whole_quoted_param [of n v]]
  by (simp_all add: one_line_def)

lemma response_parts_raw [simp]:
  assumes "param_name n" "param_name v"
  shows "response_parts ((SP # raw_param n v) # ps) f
         = (case set_response_field n v f of Inl e \<Rightarrow> Inl e | Inr f' \<Rightarrow> response_parts ps f')"
  using assms key_value_raw [of n v] written_part [OF whole_raw_param [of n v]]
  by simp

lemma challenge_parts_quoted [simp]:
  assumes "param_name n" "one_line v"
  shows "challenge_parts (quoted_param n v # ps) f
         = (case set_challenge_field n v f of Inl e \<Rightarrow> Inl e | Inr f' \<Rightarrow> challenge_parts ps f')"
    "challenge_parts ((SP # quoted_param n v) # ps) f
         = (case set_challenge_field n v f of Inl e \<Rightarrow> Inl e | Inr f' \<Rightarrow> challenge_parts ps f')"
  using assms key_value_quoted [of n v] written_part [OF whole_quoted_param [of n v]]
  by (simp_all add: one_line_def)

lemma challenge_parts_raw [simp]:
  assumes "param_name n" "param_name v"
  shows "challenge_parts ((SP # raw_param n v) # ps) f
         = (case set_challenge_field n v f of Inl e \<Rightarrow> Inl e | Inr f' \<Rightarrow> challenge_parts ps f')"
  using assms key_value_raw [of n v] written_part [OF whole_raw_param [of n v]]
  by simp

declare response_parts.simps(2) [simp del] challenge_parts.simps(2) [simp del]

lemma param_name_hex08: "param_name (hex08 n)"
  using hex08_chars [of n] by (auto simp: param_name_def list_all_iff)

lemma one_line_wire: "one_line (qop_wire q)" "param_name ''true''"
  by (cases q; simp; code_simp) code_simp

lemma qop_offered: "select_qop None (split_commas (qop_wire q)) = Some q"
  by (cases q; simp; code_simp)

lemma option_or_Some [simp]: "option_or e (Some a) f = f a"
  by (simp add: option_or_def)

lemma whole_params:
  "list_all whole_param (response_params r)" "response_params r \<noteq> []"
  "list_all whole_param (challenge_params c)" "challenge_params c \<noteq> []"
  by (simp_all add: response_params_def challenge_params_def whole_quoted_param whole_raw_param wire_names
      param_name_hex08 one_line_wire split: option.split)

lemma response_header_parts:
  assumes "printable_response r"
  shows "response_parts (split_commas (strip_digest (trim (response_header_value r)))) no_response_fields
         = Inr \<lparr>rf_username = Some (dr_username r), rf_realm = Some (dr_realm r), rf_nonce = Some (dr_nonce r),
                rf_uri = Some (dr_uri r), rf_response = Some (dr_response r), rf_cnonce = dr_cnonce r,
                rf_nc = dr_nc r, rf_qop = dr_qop r, rf_algorithm = dr_algorithm r, rf_opaque = dr_opaque r\<rparr>"
  unfolding response_header_value_def written_header_splits [OF whole_params(1,2)]
  using assms
  by (cases "dr_cnonce r"; cases "dr_nc r"; cases "dr_qop r"; cases "dr_algorithm r"; cases "dr_opaque r")
     (simp_all add: response_params_def printable_response_def no_response_fields_def
      wire_names param_name_hex08 parse_hex08)

lemma challenge_header_parts:
  assumes "printable_challenge c"
  shows "challenge_parts (split_commas (strip_digest (trim (challenge_header_value c)))) no_challenge_fields
         = Inr \<lparr>cf_realm = Some (dc_realm c), cf_nonce = Some (dc_nonce c), cf_opaque = dc_opaque c,
                cf_stale = dc_stale c, cf_algorithm = Some (dc_algorithm c), cf_qop = dc_qop c\<rparr>"
  unfolding challenge_header_value_def written_header_splits [OF whole_params(3,4)]
  using assms
  by (cases "dc_opaque c"; cases "dc_qop c"; cases "dc_stale c")
     (simp_all add: challenge_params_def printable_challenge_def no_challenge_fields_def
      wire_names one_line_wire qop_offered)

lemma response_read_back:
  "printable_response r \<Longrightarrow> length (response_header_value r) \<le> mx \<Longrightarrow>
   response_parse_with_limit (response_header_value r) mx = Inr r"
  by (simp add: response_parse_with_limit_def response_header_parts)

lemma challenge_read_back:
  "printable_challenge c \<Longrightarrow> length (challenge_header_value c) \<le> mx \<Longrightarrow>
   challenge_parse_with_limit (challenge_header_value c) mx = Inr c"
  by (simp add: challenge_parse_with_limit_def challenge_header_parts)

text \<open>
  C30. What \<open>to_header_value\<close> writes, \<open>parse\<close> reads back: for every response and every challenge whose
  strings hold no line break, whatever quotes, backslashes, commas and white space they hold, a header
  value of at most 2048 bytes is parsed to the same response or challenge.
\<close>

theorem digest_headers_roundtrip:
  "(printable_response r \<longrightarrow> length (response_header_value r) \<le> 2048 \<longrightarrow>
      response_parse (response_header_value r) = Inr r)
   \<and> (printable_challenge c \<longrightarrow> length (challenge_header_value c) \<le> 2048 \<longrightarrow>
      challenge_parse (challenge_header_value c) = Inr c)"
  by (simp add: response_parse_def challenge_parse_def response_read_back challenge_read_back)

definition sample_digest_response :: digest_response where
  "sample_digest_response =
     \<lparr>dr_username = [CHR ''a'', DQ, CHR '',''], dr_realm = [SP, BS, CHR ''=''], dr_nonce = ''00'', dr_uri = ''sip:b'',
      dr_response = ''ff'', dr_cnonce = Some [], dr_nc = Some 17, dr_qop = Some Auth, dr_algorithm = Some Sha512,
      dr_opaque = None\<rparr>"

definition sample_digest_challenge :: digest_challenge where
  "sample_digest_challenge =
     \<lparr>dc_realm = [BS, DQ, SP], dc_nonce = ''0a'', dc_opaque = Some '','', dc_stale = True, dc_algorithm = Md5,
      dc_qop = Some Auth\<rparr>"

lemma sample_digest_printable:
  "printable_response sample_digest_response" "printable_challenge sample_digest_challenge"
  by (simp_all add: printable_response_def printable_challenge_def sample_digest_response_def
      sample_digest_challenge_def one_line_def u64_max_def)

lemma sample_digest_lengths:
  "length (response_header_value sample_digest_response) \<le> 2048"
  "length (challenge_header_value sample_digest_challenge) \<le> 2048"
  by (simp_all add: response_header_value_def challenge_header_value_def response_params_def
      challenge_params_def digest_header_def quoted_param_def raw_param_def sample_digest_response_def
      sample_digest_challenge_def hex08_def nat_to_hex.simps)

theorem digest_headers_roundtrip_witness:
  "response_parse (response_header_value sample_digest_response) = Inr sample_digest_response
   \<and> challenge_parse (challenge_header_value sample_digest_challenge) = Inr sample_digest_challenge"
  using digest_headers_roundtrip [of sample_digest_response sample_digest_challenge]
    sample_digest_printable sample_digest_lengths
  by simp

end
