(* ===== verification/DigestAuth.thy ===== *)
theory DigestAuth
  imports DigestHeader
begin

text \<open>
  Digest authentication on both sides: \<open>nonce.rs\<close>, \<open>replay_cache.rs\<close>, \<open>context.rs\<close> and \<open>client.rs\<close>
  of \<open>sip/digest\<close> in \<open>cheetah-gb28181-core\<close>. The functions of the crates \<open>hex\<close>, \<open>hmac\<close>, \<open>md5\<close> and
  \<open>sha2\<close> are a parameter (\<open>digest_crypto\<close>), with their documented laws as the hypotheses
  \<open>hex_laws\<close> and \<open>hmac_laws\<close>. A \<open>u64\<close> is a \<^typ>\<open>nat\<close> with its bound written out. The lemmas show
  which nonces the server accepts, that its challenges are distinct, that a client with the right
  password passes, and that no accepted request is accepted again.
\<close>

section \<open>Hash functions and encodings\<close>

record digest_crypto =
  hex_encode :: "string \<Rightarrow> string"
  hex_decode :: "string \<Rightarrow> string option"
  hmac_sha256 :: "string \<Rightarrow> string \<Rightarrow> string option"
  md5_compute :: "string \<Rightarrow> string"
  sha256_digest :: "string \<Rightarrow> string"
  sha512_digest :: "string \<Rightarrow> string"

fun hash_hex :: "digest_crypto \<Rightarrow> digest_algorithm \<Rightarrow> string \<Rightarrow> string" where
  "hash_hex cr Md5 d = hex_encode cr (md5_compute cr d)"
| "hash_hex cr Sha256 d = hex_encode cr (sha256_digest cr d)"
| "hash_hex cr Sha512 d = hex_encode cr (sha512_digest cr d)"

text \<open>\<open>to_be_bytes\<close> and \<open>from_be_bytes\<close>.\<close>

fun be_bytes :: "nat \<Rightarrow> nat \<Rightarrow> string" where
  "be_bytes 0 n = []"
| "be_bytes (Suc k) n = be_bytes k (n div 256) @ [char_of (n mod 256)]"

definition from_be_bytes :: "string \<Rightarrow> nat" where
  "from_be_bytes bs = foldl (\<lambda>a c. 256 * a + of_char c) 0 bs"

section \<open>Nonces\<close>

text \<open>\<open>None\<close> of the parameter is the error of \<open>new_from_slice\<close>.\<close>

definition nonce_signature :: "digest_crypto \<Rightarrow> string \<Rightarrow> string \<Rightarrow> string \<Rightarrow> digest_error + string" where
  "nonce_signature cr secret timestamp counter =
     option_or InvalidNonce (hmac_sha256 cr secret (timestamp @ counter)) Inr"

definition generate_nonce :: "digest_crypto \<Rightarrow> string \<Rightarrow> nat \<Rightarrow> nat \<Rightarrow> digest_error + string" where
  "generate_nonce cr secret timestamp counter =
     (let ts_bytes = be_bytes 8 timestamp; counter_bytes = be_bytes 8 counter
      in case nonce_signature cr secret ts_bytes counter_bytes of
           Inl e \<Rightarrow> Inl e
         | Inr signature \<Rightarrow>
             Inr (hex_encode cr ts_bytes @ hex_encode cr counter_bytes @ hex_encode cr (take 16 signature)))"

definition is_ascii :: "string \<Rightarrow> bool" where
  "is_ascii s \<longleftrightarrow> list_all (byte_in 0 0x7F) s"

definition validate_nonce :: "digest_crypto \<Rightarrow> string \<Rightarrow> string \<Rightarrow> nat \<Rightarrow> nat \<Rightarrow> digest_error + nat" where
  "validate_nonce cr nonce secret now ttl =
     (if length nonce \<noteq> 64 \<or> \<not> is_ascii nonce then Inl InvalidNonce
      else option_or InvalidNonce (hex_decode cr nonce) (\<lambda>bytes.
        if length bytes \<noteq> 32 then Inl InvalidNonce
        else
          let ts_bytes = take 8 bytes; counter_bytes = take 8 (drop 8 bytes); sig = drop 16 bytes;
              timestamp = from_be_bytes ts_bytes
          in case nonce_signature cr secret ts_bytes counter_bytes of
               Inl e \<Rightarrow> Inl e
             | Inr expected \<Rightarrow>
                 if sig \<noteq> take 16 expected then Inl InvalidNonce
                 else if ttl < now - timestamp then Inl StaleNonce
                 else Inr timestamp))"

section \<open>Replay cache\<close>

record replay_entry =
  re_nonce :: string
  re_max_nc :: nat
  re_inserted_at :: nat

record replay_cache =
  rc_capacity :: nat
  rc_entries :: "replay_entry list"

definition replay_cache_new :: "nat \<Rightarrow> replay_cache" where
  "replay_cache_new capacity = \<lparr>rc_capacity = capacity, rc_entries = []\<rparr>"

definition rc_prune :: "replay_cache \<Rightarrow> nat \<Rightarrow> nat \<Rightarrow> replay_cache" where
  "rc_prune rc now ttl =
     rc\<lparr>rc_entries := dropWhile (\<lambda>e. saturating_add_u64 (re_inserted_at e) ttl < now) (rc_entries rc)\<rparr>"

text \<open>The loop of \<open>check\<close> over the entries: \<open>None\<close> when the nonce has no entry.\<close>

fun bump_entry :: "string \<Rightarrow> nat \<Rightarrow> replay_entry list \<Rightarrow> (replay_entry list \<times> bool) option" where
  "bump_entry nonce nc [] = None"
| "bump_entry nonce nc (e # es) =
     (if re_nonce e = nonce then
        (if re_max_nc e < nc then Some (e\<lparr>re_max_nc := nc\<rparr> # es, True) else Some (e # es, False))
      else map_option (\<lambda>(es', ok). (e # es', ok)) (bump_entry nonce nc es))"

definition rc_check :: "replay_cache \<Rightarrow> string \<Rightarrow> nat \<Rightarrow> nat \<Rightarrow> nat \<Rightarrow> replay_cache \<times> bool" where
  "rc_check rc nonce nc now ttl =
     (let rc = rc_prune rc now ttl in
      case bump_entry nonce nc (rc_entries rc) of
        Some (es, ok) \<Rightarrow> (rc\<lparr>rc_entries := es\<rparr>, ok)
      | None \<Rightarrow>
          let es = rc_entries rc @ [\<lparr>re_nonce = nonce, re_max_nc = nc, re_inserted_at = now\<rparr>]
          in (rc\<lparr>rc_entries := (if rc_capacity rc < length es then tl es else es)\<rparr>, True))"

section \<open>The server\<close>

record digest_context =
  cx_realm :: string
  cx_secret :: string
  cx_nonce_counter :: nat
  cx_allow_md5 :: bool
  cx_preferred_algorithm :: digest_algorithm
  cx_qop :: "digest_qop option"
  cx_nonce_ttl_seconds :: nat

definition strip_crlf :: "string \<Rightarrow> string" where
  "strip_crlf s = filter (\<lambda>c. \<not> (c = CR \<or> c = LF)) s"

definition context_new :: "string \<Rightarrow> string \<Rightarrow> digest_error + digest_context" where
  "context_new realm secret =
     (if length secret < 32 then Inl WeakSecret
      else Inr \<lparr>cx_realm = strip_crlf realm, cx_secret = secret, cx_nonce_counter = 0, cx_allow_md5 = False,
                cx_preferred_algorithm = Sha256, cx_qop = Some Auth, cx_nonce_ttl_seconds = 300\<rparr>)"

definition context_allow_md5 :: "bool \<Rightarrow> digest_context \<Rightarrow> digest_context" where
  "context_allow_md5 allow cx = cx\<lparr>cx_allow_md5 := allow\<rparr>"

definition context_preferred_algorithm :: "digest_algorithm \<Rightarrow> digest_context \<Rightarrow> digest_context" where
  "context_preferred_algorithm alg cx = cx\<lparr>cx_preferred_algorithm := alg\<rparr>"

definition context_qop :: "digest_qop option \<Rightarrow> digest_context \<Rightarrow> digest_error + digest_context" where
  "context_qop qop cx = (if qop = Some AuthInt then Inl InvalidQop else Inr (cx\<lparr>cx_qop := qop\<rparr>))"

definition context_nonce_ttl_seconds :: "nat \<Rightarrow> digest_context \<Rightarrow> digest_context" where
  "context_nonce_ttl_seconds ttl cx = cx\<lparr>cx_nonce_ttl_seconds := ttl\<rparr>"

text \<open>\<open>fetch_add\<close> wraps around.\<close>

definition generate_challenge ::
    "digest_crypto \<Rightarrow> digest_context \<Rightarrow> nat \<Rightarrow> digest_context \<times> (digest_error + digest_challenge)" where
  "generate_challenge cr cx now =
     (let counter = cx_nonce_counter cx
      in (cx\<lparr>cx_nonce_counter := (counter + 1) mod 2 ^ 64\<rparr>,
          case generate_nonce cr (cx_secret cx) now counter of
            Inl e \<Rightarrow> Inl e
          | Inr nonce \<Rightarrow>
              Inr \<lparr>dc_realm = cx_realm cx, dc_nonce = nonce, dc_opaque = None, dc_stale = False,
                   dc_algorithm = cx_preferred_algorithm cx, dc_qop = cx_qop cx\<rparr>))"

definition generate_stale_challenge ::
    "digest_crypto \<Rightarrow> digest_context \<Rightarrow> nat \<Rightarrow> digest_context \<times> (digest_error + digest_challenge)" where
  "generate_stale_challenge cr cx now =
     (case generate_challenge cr cx now of
        (cx', Inl e) \<Rightarrow> (cx', Inl e)
      | (cx', Inr c) \<Rightarrow> (cx', Inr (c\<lparr>dc_stale := True\<rparr>)))"

definition compute_response ::
    "digest_crypto \<Rightarrow> digest_algorithm \<Rightarrow> string \<Rightarrow> string \<Rightarrow> string \<Rightarrow> string \<Rightarrow> nat \<Rightarrow> string option \<Rightarrow>
     digest_qop option \<Rightarrow> string \<Rightarrow> string \<Rightarrow> string" where
  "compute_response cr algorithm username realm password nonce nc cnonce qop meth uri =
     (let ha1 = hash_hex cr algorithm (username @ '':'' @ realm @ '':'' @ password);
          ha2 = hash_hex cr algorithm (meth @ '':'' @ uri);
          a3 = (if qop = Some Auth
                then ha1 @ '':'' @ nonce @ '':'' @ hex08 nc @ '':'' @ (case cnonce of None \<Rightarrow> [] | Some c \<Rightarrow> c)
                     @ '':auth:'' @ ha2
                else ha1 @ '':'' @ nonce @ '':'' @ ha2)
      in hash_hex cr algorithm a3)"

definition context_validate ::
    "digest_crypto \<Rightarrow> digest_context \<Rightarrow> digest_response \<Rightarrow> sip_method \<Rightarrow> string \<Rightarrow> string \<Rightarrow> replay_cache \<Rightarrow>
     nat \<Rightarrow> replay_cache \<times> (digest_error + unit)" where
  "context_validate cr cx r meth uri password rc now =
     (let algorithm = (case dr_algorithm r of None \<Rightarrow> Md5 | Some a \<Rightarrow> a) in
      if algorithm = Md5 \<and> \<not> cx_allow_md5 cx then (rc, Inl AlgorithmNotAllowed)
      else if algorithm \<noteq> cx_preferred_algorithm cx then (rc, Inl AlgorithmDowngrade)
      else if dr_realm r \<noteq> cx_realm cx then (rc, Inl RealmMismatch)
      else if dr_uri r \<noteq> uri then (rc, Inl UriMismatch)
      else if dr_qop r \<noteq> cx_qop cx then (rc, Inl InvalidQop)
      else if dr_qop r = Some AuthInt then (rc, Inl InvalidQop)
      else if dr_qop r = Some Auth \<and> (dr_nc r = None \<or> dr_cnonce r = None) then (rc, Inl InvalidQop)
      else if dr_qop r = None \<and> (dr_nc r \<noteq> None \<or> dr_cnonce r \<noteq> None) then (rc, Inl InvalidQop)
      else case validate_nonce cr (dr_nonce r) (cx_secret cx) now (cx_nonce_ttl_seconds cx) of
        Inl e \<Rightarrow> (rc, Inl e)
      | Inr _ \<Rightarrow>
          let nc = (case dr_nc r of None \<Rightarrow> 0 | Some n \<Rightarrow> n);
              expected = compute_response cr algorithm (dr_username r) (dr_realm r) password (dr_nonce r) nc
                           (dr_cnonce r) (dr_qop r) (method_to_string meth) uri
          in case hex_decode cr expected of
               None \<Rightarrow> (rc, Inl InvalidResponse)
             | Some expected_bytes \<Rightarrow>
                 (case hex_decode cr (dr_response r) of
                    None \<Rightarrow> (rc, Inl InvalidResponse)
                  | Some actual_bytes \<Rightarrow>
                      if actual_bytes \<noteq> expected_bytes then (rc, Inl InvalidResponse)
                      else if dr_qop r \<noteq> None then
                        (case rc_check rc (dr_nonce r) nc now (cx_nonce_ttl_seconds cx) of
                           (rc', ok) \<Rightarrow> (rc', if ok then Inr () else Inl ReplayDetected))
                      else (rc, Inr ())))"

section \<open>The client\<close>

record digest_client =
  cl_allow_md5 :: bool
  cl_preferred_algorithm :: digest_algorithm
  cl_qop :: "digest_qop option"
  cl_nonce_count :: nat

definition client_new_digest :: digest_client where
  "client_new_digest = \<lparr>cl_allow_md5 = False, cl_preferred_algorithm = Sha256, cl_qop = None, cl_nonce_count = 0\<rparr>"

definition derive_cnonce :: "digest_crypto \<Rightarrow> string \<Rightarrow> string \<Rightarrow> digest_error + string" where
  "derive_cnonce cr password ctx =
     option_or Malformed (hmac_sha256 cr password ctx) (\<lambda>tag. Inr (hex_encode cr (take 16 tag)))"

definition client_allow_md5 :: "bool \<Rightarrow> digest_client \<Rightarrow> digest_client" where
  "client_allow_md5 allow cl = cl\<lparr>cl_allow_md5 := allow\<rparr>"

definition client_preferred_algorithm :: "digest_algorithm \<Rightarrow> digest_client \<Rightarrow> digest_client" where
  "client_preferred_algorithm alg cl = cl\<lparr>cl_preferred_algorithm := alg\<rparr>"

definition client_qop :: "digest_qop option \<Rightarrow> digest_client \<Rightarrow> digest_error + digest_client" where
  "client_qop qop cl = (if qop = Some AuthInt then Inl InvalidQop else Inr (cl\<lparr>cl_qop := qop\<rparr>))"

definition digest_validate_token :: "string \<Rightarrow> bool" where
  "digest_validate_token val \<longleftrightarrow> \<not> (CR \<in> set val \<or> LF \<in> set val)"

definition authorize ::
    "digest_crypto \<Rightarrow> digest_client \<Rightarrow> string \<Rightarrow> string \<Rightarrow> string \<Rightarrow> string \<Rightarrow> digest_challenge \<Rightarrow> string \<Rightarrow>
     digest_client \<times> (digest_error + digest_response)" where
  "authorize cr cl username password meth uri challenge cnonce =
     (if \<not> digest_validate_token username \<or> \<not> digest_validate_token uri \<or> \<not> digest_validate_token cnonce
         \<or> \<not> digest_validate_token (dc_realm challenge) \<or> \<not> digest_validate_token (dc_nonce challenge)
         \<or> (case dc_opaque challenge of None \<Rightarrow> False | Some x \<Rightarrow> \<not> digest_validate_token x)
      then (cl, Inl Malformed)
      else if dc_algorithm challenge = Md5 \<and> \<not> cl_allow_md5 cl then (cl, Inl AlgorithmNotAllowed)
      else if dc_qop challenge = Some AuthInt then (cl, Inl InvalidQop)
      else
        let qop = (case dc_qop challenge of None \<Rightarrow> cl_qop cl | Some q \<Rightarrow> Some q) in
        if qop = Some AuthInt then (cl, Inl InvalidQop)
        else if qop = Some Auth \<and> \<not> cl_nonce_count cl + 1 \<le> u64_max then (cl, Inl Malformed)
        else
          let (cl', cnonce', nc) =
                (if qop = Some Auth
                 then (cl\<lparr>cl_nonce_count := cl_nonce_count cl + 1\<rparr>, Some cnonce, Some (cl_nonce_count cl + 1))
                 else (cl, None, None));
              algorithm = dc_algorithm challenge;
              response = compute_response cr algorithm username (dc_realm challenge) password
                           (dc_nonce challenge) (case nc of None \<Rightarrow> 0 | Some n \<Rightarrow> n) cnonce' qop meth uri
          in (cl', Inr \<lparr>dr_username = username, dr_realm = dc_realm challenge, dr_nonce = dc_nonce challenge,
                        dr_uri = uri, dr_response = response, dr_cnonce = cnonce', dr_nc = nc, dr_qop = qop,
                        dr_algorithm = Some algorithm, dr_opaque = dc_opaque challenge\<rparr>))"

section \<open>Laws of the crates\<close>

text \<open>
  \<open>hex\<close>: two lower case digits per byte, both cases are decoded. \<open>hmac\<close>: keys of every length are
  accepted and the tag of SHA-256 has 32 bytes. The digests have their documented sizes.
\<close>

definition hex_laws :: "digest_crypto \<Rightarrow> bool" where
  "hex_laws cr \<longleftrightarrow>
     (\<forall>b. hex_decode cr (hex_encode cr b) = Some b)
     \<and> (\<forall>s b. hex_decode cr s = Some b \<longrightarrow> hex_encode cr b = map to_ascii_lowercase s)
     \<and> (\<forall>s. hex_decode cr (map to_ascii_lowercase s) = hex_decode cr s)
     \<and> (\<forall>a b. hex_encode cr (a @ b) = hex_encode cr a @ hex_encode cr b)
     \<and> (\<forall>b. length (hex_encode cr b) = 2 * length b)
     \<and> (\<forall>b. list_all (\<lambda>c. hex_value c \<noteq> None) (hex_encode cr b))"

definition hmac_laws :: "digest_crypto \<Rightarrow> bool" where
  "hmac_laws cr \<longleftrightarrow> (\<forall>k m. \<exists>t. hmac_sha256 cr k m = Some t \<and> length t = 32)"

definition hash_laws :: "digest_crypto \<Rightarrow> bool" where
  "hash_laws cr \<longleftrightarrow>
     (\<forall>d. length (md5_compute cr d) = 16 \<and> length (sha256_digest cr d) = 32 \<and> length (sha512_digest cr d) = 64)"

lemma hex_lawsD:
  assumes "hex_laws cr"
  shows "hex_decode cr (hex_encode cr b) = Some b"
    "hex_decode cr s = Some b \<Longrightarrow> hex_encode cr b = map to_ascii_lowercase s"
    "hex_decode cr (map to_ascii_lowercase s) = hex_decode cr s"
    "hex_encode cr (a @ b) = hex_encode cr a @ hex_encode cr b"
    "length (hex_encode cr b) = 2 * length b"
    "list_all (\<lambda>c. hex_value c \<noteq> None) (hex_encode cr b)"
  using assms by (simp_all add: hex_laws_def)

lemma hex_encode_inject: "hex_laws cr \<Longrightarrow> hex_encode cr a = hex_encode cr b \<longleftrightarrow> a = b"
  by (metis hex_lawsD(1) option.inject)

section \<open>Bytes of a number\<close>

lemma length_be_bytes [simp]: "length (be_bytes k n) = k"
  by (induction k arbitrary: n) simp_all

lemma from_be_bytes_snoc: "from_be_bytes (bs @ [c]) = 256 * from_be_bytes bs + of_char c"
  by (simp add: from_be_bytes_def)

lemma from_be_bytes_be_bytes: "from_be_bytes (be_bytes k n) = n mod 256 ^ k"
proof (induction k arbitrary: n)
  case 0
  then show ?case by (simp add: from_be_bytes_def)
next
  case (Suc k)
  have "n mod 256 ^ Suc k = 256 * (n div 256 mod 256 ^ k) + n mod 256"
    by (simp add: mod_mult2_eq)
  then show ?case by (simp add: Suc from_be_bytes_snoc)
qed

lemma from_be_bytes_less: "from_be_bytes bs < 256 ^ length bs"
proof (induction bs rule: rev_induct)
  case Nil
  then show ?case by (simp add: from_be_bytes_def)
next
  case (snoc c bs)
  have "256 * from_be_bytes bs + of_char c < 256 * 256 ^ length bs"
    using snoc nat_of_char_less_256 [of c] by linarith
  then show ?case by (simp add: from_be_bytes_snoc)
qed

lemma be_bytes_from_be_bytes: "length bs = k \<Longrightarrow> be_bytes k (from_be_bytes bs) = bs"
proof (induction bs arbitrary: k rule: rev_induct)
  case Nil
  then show ?case by simp
next
  case (snoc c bs)
  have "of_char c < (256 :: nat)" by (rule nat_of_char_less_256)
  moreover obtain j where "k = Suc j" "length bs = j" using snoc.prems by simp
  ultimately show ?case
    using snoc.IH [of j] by (simp add: from_be_bytes_snoc div_mult2_eq)
qed

lemma be_bytes_inject:
  assumes "a \<le> u64_max" "b \<le> u64_max"
  shows "be_bytes 8 a = be_bytes 8 b \<longleftrightarrow> a = b"
proof -
  have "a < 256 ^ 8" "b < 256 ^ 8" using assms by (simp_all add: u64_max_def)
  then show ?thesis
    using from_be_bytes_be_bytes [of 8 a] from_be_bytes_be_bytes [of 8 b] by (metis mod_less)
qed

section \<open>Accepted nonces\<close>

lemma generate_nonce_eq:
  assumes "hex_laws cr" "hmac_laws cr"
  obtains sig where "hmac_sha256 cr secret (be_bytes 8 ts @ be_bytes 8 counter) = Some sig" "length sig = 32"
    "generate_nonce cr secret ts counter
     = Inr (hex_encode cr (be_bytes 8 ts @ be_bytes 8 counter @ take 16 sig))"
proof -
  obtain sig where "hmac_sha256 cr secret (be_bytes 8 ts @ be_bytes 8 counter) = Some sig" "length sig = 32"
    using assms(2) unfolding hmac_laws_def by blast
  then show ?thesis
    by (intro that [of sig]) (simp_all add: generate_nonce_def nonce_signature_def hex_lawsD(4) [OF assms(1)])
qed

lemma generated_nonce_shape:
  assumes "hex_laws cr" "hmac_laws cr" "generate_nonce cr secret ts counter = Inr n"
  shows "\<exists>b. n = hex_encode cr b \<and> length b = 32"
proof -
  obtain sig where "length sig = 32"
    "generate_nonce cr secret ts counter
     = Inr (hex_encode cr (be_bytes 8 ts @ be_bytes 8 counter @ take 16 sig))"
    using generate_nonce_eq [OF assms(1,2)] .
  then show ?thesis
    using assms(3) by (intro exI [of _ "be_bytes 8 ts @ be_bytes 8 counter @ take 16 sig"]) simp
qed

lemma hex_value_ascii: "hex_value (to_ascii_lowercase c) \<noteq> None \<Longrightarrow> byte_in 0 0x7F c"
  by (auto simp: hex_value_def Let_def byte_in_def to_ascii_lowercase_def is_ascii_uppercase_def split: if_splits)

lemma generated_nonce_decodes:
  assumes "hex_laws cr" "map to_ascii_lowercase nonce = hex_encode cr b"
  shows "hex_decode cr nonce = Some b" "length nonce = 2 * length b" "is_ascii nonce"
proof -
  show "hex_decode cr nonce = Some b"
    using assms hex_lawsD(1,3) by metis
  show "length nonce = 2 * length b"
    using arg_cong [OF assms(2), of length] hex_lawsD(5) [OF assms(1)] by simp
  have "list_all (\<lambda>c. hex_value c \<noteq> None) (map to_ascii_lowercase nonce)"
    unfolding assms(2) by (rule hex_lawsD(6) [OF assms(1)])
  then show "is_ascii nonce"
    unfolding is_ascii_def list_all_iff using hex_value_ascii by auto
qed

lemma validate_nonce_generated:
  assumes laws: "hex_laws cr" "hmac_laws cr" and "ts \<le> u64_max"
    and gen: "generate_nonce cr secret ts counter = Inr (map to_ascii_lowercase nonce)"
  shows "validate_nonce cr nonce secret now ttl = (if ttl < now - ts then Inl StaleNonce else Inr ts)"
proof -
  obtain sig where sig: "hmac_sha256 cr secret (be_bytes 8 ts @ be_bytes 8 counter) = Some sig" "length sig = 32"
    "generate_nonce cr secret ts counter
     = Inr (hex_encode cr (be_bytes 8 ts @ be_bytes 8 counter @ take 16 sig))"
    using generate_nonce_eq [OF laws] .
  let ?b = "be_bytes 8 ts @ be_bytes 8 counter @ take 16 sig"
  have "map to_ascii_lowercase nonce = hex_encode cr ?b" using gen sig(3) by simp
  note dec = generated_nonce_decodes [OF laws(1) this]
  have "from_be_bytes (be_bytes 8 ts) = ts"
    using assms(3) by (simp add: from_be_bytes_be_bytes u64_max_def)
  then show ?thesis
    using dec sig by (simp add: validate_nonce_def nonce_signature_def option_or_def Let_def)
qed

lemma validate_nonce_is_generated:
  assumes laws: "hex_laws cr" "hmac_laws cr" and ok: "validate_nonce cr nonce secret now ttl = Inr ts"
  shows "now \<le> ts + ttl \<and> ts \<le> u64_max
    \<and> (\<exists>counter. counter \<le> u64_max \<and> generate_nonce cr secret ts counter = Inr (map to_ascii_lowercase nonce))"
proof -
  obtain b sig where b: "hex_decode cr nonce = Some b" "length b = 32" "ts = from_be_bytes (take 8 b)"
      "now - ts \<le> ttl" and sig: "hmac_sha256 cr secret (take 8 b @ take 8 (drop 8 b)) = Some sig"
      "drop 16 b = take 16 sig"
    using ok by (auto simp: validate_nonce_def nonce_signature_def option_or_def Let_def
        split: if_splits option.splits)
  let ?c = "from_be_bytes (take 8 (drop 8 b))"
  have bytes: "be_bytes 8 ts = take 8 b" "be_bytes 8 ?c = take 8 (drop 8 b)"
    using b(2) by (simp_all add: b(3) be_bytes_from_be_bytes)
  have "b = take 8 b @ take 8 (drop 8 b) @ drop 16 b"
    by (metis append_take_drop_id drop_drop numeral_Bit0 semiring_norm(2))
  then have "generate_nonce cr secret ts ?c = Inr (map to_ascii_lowercase nonce)"
    using bytes sig hex_lawsD(2) [OF laws(1) b(1)] hex_lawsD(4) [OF laws(1)]
    by (simp add: generate_nonce_def nonce_signature_def) metis
  moreover have "ts \<le> u64_max" "?c \<le> u64_max"
    using from_be_bytes_less [of "take 8 b"] from_be_bytes_less [of "take 8 (drop 8 b)"] b(2)
    by (simp_all add: b(3) u64_max_def)
  ultimately show ?thesis using b(4) by auto
qed

text \<open>
  C28. The server accepts exactly the nonces that it generates, for as long as they live: \<open>validate_nonce\<close>
  returns a time stamp iff the nonce is, up to the case of its digits, what \<open>generate_nonce\<close> makes with
  the same secret for that time stamp and some counter, and the time stamp is at most the time to live
  ago.
\<close>

theorem accepted_nonces:
  assumes "hex_laws cr" "hmac_laws cr"
  shows "validate_nonce cr nonce secret now ttl = Inr ts \<longleftrightarrow>
    now \<le> ts + ttl \<and> ts \<le> u64_max
    \<and> (\<exists>counter. counter \<le> u64_max \<and> generate_nonce cr secret ts counter = Inr (map to_ascii_lowercase nonce))"
  using validate_nonce_is_generated [OF assms] validate_nonce_generated [OF assms] by fastforce

section \<open>Challenges\<close>

text \<open>The contexts that the constructor, the setters and the challenges make.\<close>

inductive built_context :: "digest_crypto \<Rightarrow> digest_context \<Rightarrow> bool" for cr where
  new: "context_new realm secret = Inr cx \<Longrightarrow> built_context cr cx"
| allow_md5: "built_context cr cx \<Longrightarrow> built_context cr (context_allow_md5 allow cx)"
| preferred: "built_context cr cx \<Longrightarrow> built_context cr (context_preferred_algorithm alg cx)"
| qop: "built_context cr cx \<Longrightarrow> context_qop qop cx = Inr cx' \<Longrightarrow> built_context cr cx'"
| ttl: "built_context cr cx \<Longrightarrow> built_context cr (context_nonce_ttl_seconds t cx)"
| challenge: "built_context cr cx \<Longrightarrow> built_context cr (fst (generate_challenge cr cx now))"

definition context_ok :: "digest_context \<Rightarrow> bool" where
  "context_ok cx \<longleftrightarrow>
     one_line (cx_realm cx) \<and> 32 \<le> length (cx_secret cx) \<and> cx_nonce_counter cx \<le> u64_max
     \<and> cx_qop cx \<noteq> Some AuthInt"

lemma built_context_ok: "built_context cr cx \<Longrightarrow> context_ok cx"
proof (induction rule: built_context.induct)
  case (new realm secret cx)
  then show ?case
    by (auto simp: context_new_def context_ok_def one_line_def strip_crlf_def split: if_splits)
next
  case (challenge cx now)
  have "x mod 2 ^ 64 \<le> u64_max" for x :: nat
    using mod_less_divisor [of "2 ^ 64" x] by (simp add: u64_max_def)
  with challenge show ?case
    by (simp add: context_ok_def generate_challenge_def Let_def del: mod_less_divisor)
qed (auto simp: context_ok_def context_allow_md5_def context_preferred_algorithm_def context_qop_def
    context_nonce_ttl_seconds_def split: if_splits)

lemma challenge_fields:
  assumes "generate_challenge cr cx now = (cx', Inr c)"
  shows "generate_nonce cr (cx_secret cx) now (cx_nonce_counter cx) = Inr (dc_nonce c)"
    "dc_realm c = cx_realm cx" "dc_opaque c = None" "dc_algorithm c = cx_preferred_algorithm cx"
    "dc_qop c = cx_qop cx"
    "cx' = cx\<lparr>cx_nonce_counter := (cx_nonce_counter cx + 1) mod 2 ^ 64\<rparr>"
  using assms by (auto simp: generate_challenge_def Let_def split: sum.splits)

text \<open>A sequence of challenges, some of them stale, at the given times.\<close>

fun issue :: "digest_crypto \<Rightarrow> digest_context \<Rightarrow> (bool \<times> nat) list \<Rightarrow> (digest_error + digest_challenge) list" where
  "issue cr cx [] = []"
| "issue cr cx ((stale, now) # ts) =
     (case (if stale then generate_stale_challenge cr cx now else generate_challenge cr cx now) of
        (cx', c) \<Rightarrow> c # issue cr cx' ts)"

lemma nonce_counter_injective:
  assumes "hex_laws cr" "hmac_laws cr" "a \<le> u64_max" "b \<le> u64_max"
    "generate_nonce cr secret t a = Inr n" "generate_nonce cr secret u b = Inr n"
  shows "a = b"
proof -
  obtain sa where "n = hex_encode cr (be_bytes 8 t @ be_bytes 8 a @ take 16 sa)"
    using generate_nonce_eq [OF assms(1,2), of secret t a] assms(5) by (metis sum.inject(2))
  moreover obtain sb where "n = hex_encode cr (be_bytes 8 u @ be_bytes 8 b @ take 16 sb)"
    using generate_nonce_eq [OF assms(1,2), of secret u b] assms(6) by (metis sum.inject(2))
  ultimately have "be_bytes 8 a = be_bytes 8 b"
    using hex_encode_inject [OF assms(1)] by simp
  then show ?thesis using be_bytes_inject assms(3,4) by simp
qed

lemma issue_step:
  "(if stale then generate_stale_challenge cr cx now else generate_challenge cr cx now)
   = (cx\<lparr>cx_nonce_counter := (cx_nonce_counter cx + 1) mod 2 ^ 64\<rparr>,
      map_sum id (\<lambda>nonce. \<lparr>dc_realm = cx_realm cx, dc_nonce = nonce, dc_opaque = None, dc_stale = stale,
                   dc_algorithm = cx_preferred_algorithm cx, dc_qop = cx_qop cx\<rparr>)
        (generate_nonce cr (cx_secret cx) now (cx_nonce_counter cx)))"
  by (simp add: generate_challenge_def generate_stale_challenge_def Let_def split: sum.split)

lemma issue_nth:
  assumes "hex_laws cr" "hmac_laws cr" "i < length ts" "cx_nonce_counter cx \<le> u64_max"
  shows "\<exists>c. issue cr cx ts ! i = Inr c
    \<and> (\<exists>now. generate_nonce cr (cx_secret cx) now ((cx_nonce_counter cx + i) mod 2 ^ 64) = Inr (dc_nonce c))"
  using assms(3,4)
proof (induction ts arbitrary: cx i)
  case Nil
  then show ?case by simp
next
  case (Cons t ts)
  obtain stale now where t: "t = (stale, now)" by force
  let ?cx = "cx\<lparr>cx_nonce_counter := (cx_nonce_counter cx + 1) mod 2 ^ 64\<rparr>"
  show ?case
  proof (cases i)
    case 0
    obtain n where n: "generate_nonce cr (cx_secret cx) now (cx_nonce_counter cx) = Inr n"
      using generate_nonce_eq [OF assms(1,2)] by metis
    have "cx_nonce_counter cx mod 2 ^ 64 = cx_nonce_counter cx"
      using Cons.prems(2) by (simp add: u64_max_def)
    then show ?thesis
      using n by (auto simp: 0 t issue_step simp del: if_split)
  next
    case (Suc j)
    have "(cx_nonce_counter cx + 1) mod 2 ^ 64 \<le> u64_max"
      using mod_less_divisor [of "2 ^ 64" "cx_nonce_counter cx + 1"] by (simp add: u64_max_def)
    moreover have "((cx_nonce_counter cx + 1) mod 2 ^ 64 + j) mod 2 ^ 64 = (cx_nonce_counter cx + Suc j) mod 2 ^ 64"
      by (simp add: mod_simps)
    ultimately show ?thesis
      using Cons.IH [of j ?cx] Cons.prems(1) by (simp add: Suc t issue_step)
  qed
qed

text \<open>
  C29. Challenges are told apart by their nonces, also within one second: of the first \<open>2 ^ 64\<close> challenges,
  stale or not, that a context issues at whatever times, every one is issued and no two carry the same
  nonce.
\<close>

theorem challenges_are_distinct:
  assumes laws: "hex_laws cr" "hmac_laws cr" and cx: "built_context cr cx" and ij: "i < j" "j < length ts"
    and few: "length ts \<le> 2 ^ 64"
  shows "\<exists>c d. issue cr cx ts ! i = Inr c \<and> issue cr cx ts ! j = Inr d \<and> dc_nonce c \<noteq> dc_nonce d"
proof -
  let ?n = "cx_nonce_counter cx"
  have n: "?n \<le> u64_max" using built_context_ok [OF cx] by (simp add: context_ok_def)
  obtain c t where c: "issue cr cx ts ! i = Inr c"
      "generate_nonce cr (cx_secret cx) t ((?n + i) mod 2 ^ 64) = Inr (dc_nonce c)"
    using issue_nth [OF laws, of i ts cx] ij n by auto
  obtain d u where d: "issue cr cx ts ! j = Inr d"
      "generate_nonce cr (cx_secret cx) u ((?n + j) mod 2 ^ 64) = Inr (dc_nonce d)"
    using issue_nth [OF laws, of j ts cx] ij n by auto
  have "(?n + i) mod 2 ^ 64 \<noteq> (?n + j) mod 2 ^ 64"
  proof
    assume "(?n + i) mod 2 ^ 64 = (?n + j) mod 2 ^ 64"
    then have "2 ^ 64 dvd (?n + j) - (?n + i)"
      using mod_eq_dvd_iff_nat [of "?n + i" "?n + j" "2 ^ 64"] ij by simp
    then show False using ij few by (simp add: nat_dvd_not_less)
  qed
  moreover have "(?n + k) mod 2 ^ 64 \<le> u64_max" for k
    using mod_less_divisor [of "2 ^ 64" "?n + k"] by (simp add: u64_max_def)
  ultimately have "dc_nonce c \<noteq> dc_nonce d"
    using nonce_counter_injective [OF laws] c(2) d(2) by metis
  then show ?thesis using c(1) d(1) by blast
qed

section \<open>A whole exchange\<close>

text \<open>
  The server's challenge as a header, the client's answer as a header, and its validation. The two
  passwords are the client's and the server's.
\<close>

definition exchange ::
    "digest_crypto \<Rightarrow> digest_context \<Rightarrow> digest_challenge \<Rightarrow> digest_client \<Rightarrow> string \<Rightarrow> string \<Rightarrow> string \<Rightarrow>
     sip_method \<Rightarrow> string \<Rightarrow> string \<Rightarrow> replay_cache \<Rightarrow> nat \<Rightarrow> digest_error + unit" where
  "exchange cr cx c cl username client_pw server_pw meth uri cnonce rc now =
     (case challenge_parse (challenge_header_value c) of
        Inl e \<Rightarrow> Inl e
      | Inr c' \<Rightarrow>
          (case snd (authorize cr cl username client_pw (method_to_string meth) uri c' cnonce) of
             Inl e \<Rightarrow> Inl e
           | Inr r \<Rightarrow>
               (case response_parse (response_header_value r) of
                  Inl e \<Rightarrow> Inl e
                | Inr r' \<Rightarrow> snd (context_validate cr cx r' meth uri server_pw rc now))))"

text \<open>The digest that a password gives in that exchange.\<close>

definition exchange_digest ::
    "digest_crypto \<Rightarrow> digest_challenge \<Rightarrow> digest_client \<Rightarrow> string \<Rightarrow> string \<Rightarrow> sip_method \<Rightarrow> string \<Rightarrow> string \<Rightarrow> string" where
  "exchange_digest cr c cl username password meth uri cnonce =
     (if dc_qop c = Some Auth
      then compute_response cr (dc_algorithm c) username (dc_realm c) password (dc_nonce c)
             (cl_nonce_count cl + 1) (Some cnonce) (Some Auth) (method_to_string meth) uri
      else compute_response cr (dc_algorithm c) username (dc_realm c) password (dc_nonce c)
             0 None None (method_to_string meth) uri)"

lemma hash_hex_encodes: "\<exists>b. hash_hex cr a d = hex_encode cr b \<and> (hash_laws cr \<longrightarrow> length b \<le> 64)"
  by (cases a) (auto simp: hash_laws_def)

lemma compute_response_encodes:
  "\<exists>b. compute_response cr a u r p n nc cn q m i = hex_encode cr b \<and> (hash_laws cr \<longrightarrow> length b \<le> 64)"
  unfolding compute_response_def Let_def by (rule hash_hex_encodes)

lemma hex_digit_not_break: "hex_value CR = None" "hex_value LF = None"
  by code_simp+

lemma one_line_hex: "hex_laws cr \<Longrightarrow> one_line (hex_encode cr b)"
  using hex_lawsD(6) [of cr b] hex_digit_not_break by (auto simp: one_line_def list_all_iff)

lemma length_sanitize: "length (sanitize_quoted_value v) \<le> 2 * length v"
  by (induction v) auto

lemma length_quoted_param: "length (quoted_param n v) \<le> length n + 3 + 2 * length v"
  using length_sanitize [of v] by (simp add: quoted_param_def)

lemma length_raw_param: "length (raw_param n v) = length n + 1 + length v"
  by (simp add: raw_param_def)

lemma length_digest_header: "length (digest_header ps) \<le> 6 + (\<Sum>p\<leftarrow>ps. length p + 2)"
proof -
  have "length (concat (map (\<lambda>p. CHR '','' # SP # p) ps)) = (\<Sum>p\<leftarrow>ps. length p + 2)" for ps
    by (induction ps) simp_all
  then show ?thesis by (cases ps) (simp_all add: digest_header_def)
qed

lemma length_nat_to_hex: "n < 16 ^ Suc k \<Longrightarrow> length (nat_to_hex n) \<le> Suc k"
proof (induction k arbitrary: n)
  case 0
  then show ?case by (simp add: nat_to_hex.simps [of n])
next
  case (Suc k)
  have "n div 16 < 16 ^ Suc k" using Suc.prems by (simp add: less_mult_imp_div_less)
  from Suc.IH [OF this] show ?case by (simp add: nat_to_hex.simps [of n])
qed

lemma length_hex08: "n \<le> u64_max \<Longrightarrow> length (hex08 n) \<le> 16"
  using length_nat_to_hex [of n 15] by (simp add: hex08_def u64_max_def)

lemma length_wire: "length (algorithm_wire a) \<le> 7" "length (qop_wire q) \<le> 8"
  by (cases a; simp) (cases q; simp)

lemma length_challenge_header:
  assumes "dc_opaque c = None"
  shows "length (challenge_header_value c) \<le> 100 + 2 * length (dc_realm c) + 2 * length (dc_nonce c)"
  using length_digest_header [of "challenge_params c"] assms length_wire(1) [of "dc_algorithm c"]
    length_quoted_param [of "''realm''" "dc_realm c"] length_quoted_param [of "''nonce''" "dc_nonce c"]
    length_quoted_param [of "''qop''" "qop_wire (the (dc_qop c))"] length_wire(2) [of "the (dc_qop c)"]
  by (simp add: challenge_header_value_def challenge_params_def length_raw_param split: option.splits if_splits)

lemma length_response_header:
  assumes "dr_opaque r = None" "case dr_nc r of None \<Rightarrow> True | Some n \<Rightarrow> n \<le> u64_max"
  shows "length (response_header_value r)
    \<le> 150 + 2 * length (dr_username r) + 2 * length (dr_realm r) + 2 * length (dr_nonce r)
        + 2 * length (dr_uri r) + 2 * length (dr_response r)
        + (case dr_cnonce r of None \<Rightarrow> 0 | Some c \<Rightarrow> 2 * length c)"
  using length_digest_header [of "response_params r"] assms length_wire(1) [of "the (dr_algorithm r)"]
    length_wire(2) [of "the (dr_qop r)"] length_hex08 [of "the (dr_nc r)"]
    length_quoted_param [of "''username''" "dr_username r"] length_quoted_param [of "''realm''" "dr_realm r"]
    length_quoted_param [of "''nonce''" "dr_nonce r"] length_quoted_param [of "''uri''" "dr_uri r"]
    length_quoted_param [of "''response''" "dr_response r"]
    length_quoted_param [of "''cnonce''" "the (dr_cnonce r)"]
  by (simp add: response_header_value_def response_params_def length_raw_param split: option.splits)

lemma bump_entry_None: "bump_entry nonce nc es = None \<longleftrightarrow> (\<forall>e \<in> set es. re_nonce e \<noteq> nonce)"
  by (induction es) auto

lemma rc_check_fresh: "\<forall>e \<in> set (rc_entries rc). re_nonce e \<noteq> nonce \<Longrightarrow> snd (rc_check rc nonce nc now ttl)"
  using bump_entry_None [of nonce nc "rc_entries (rc_prune rc now ttl)"] set_dropWhileD
  by (fastforce simp: rc_check_def rc_prune_def Let_def)

text \<open>What a client needs of a challenge in order to answer it.\<close>

definition answerable :: "digest_client \<Rightarrow> string \<Rightarrow> string \<Rightarrow> string \<Rightarrow> digest_challenge \<Rightarrow> bool" where
  "answerable cl username uri cnonce c \<longleftrightarrow>
     one_line username \<and> one_line uri \<and> one_line cnonce \<and> one_line (dc_realm c) \<and> one_line (dc_nonce c)
     \<and> dc_opaque c = None \<and> dc_qop c \<noteq> Some AuthInt \<and> (dc_algorithm c = Md5 \<longrightarrow> cl_allow_md5 cl)
     \<and> (dc_qop c = None \<longrightarrow> cl_qop cl = None) \<and> cl_nonce_count cl < u64_max"

lemma digest_validate_token_one_line: "digest_validate_token s = one_line s"
  by (auto simp: digest_validate_token_def one_line_def)

lemma authorize_answer:
  assumes "answerable cl username uri cnonce c"
  shows "snd (authorize cr cl username password (method_to_string meth) uri c cnonce)
    = Inr \<lparr>dr_username = username, dr_realm = dc_realm c, dr_nonce = dc_nonce c, dr_uri = uri,
           dr_response = exchange_digest cr c cl username password meth uri cnonce,
           dr_cnonce = (if dc_qop c = Some Auth then Some cnonce else None),
           dr_nc = (if dc_qop c = Some Auth then Some (cl_nonce_count cl + 1) else None),
           dr_qop = dc_qop c, dr_algorithm = Some (dc_algorithm c), dr_opaque = None\<rparr>"
proof (cases "dc_qop c")
  case None
  then show ?thesis
    using assms by (auto simp: authorize_def answerable_def digest_validate_token_one_line exchange_digest_def Let_def)
next
  case (Some q)
  then have "q = Auth" using assms by (cases q) (simp_all add: answerable_def)
  then show ?thesis
    using assms Some
    by (auto simp: authorize_def answerable_def digest_validate_token_one_line exchange_digest_def Let_def)
qed

lemma answer_read_back:
  assumes "hex_laws cr" "hash_laws cr" "answerable cl username uri cnonce c" "length (dc_nonce c) = 64"
    and "length username + length (dc_realm c) + length uri + length cnonce \<le> 700"
    and r: "snd (authorize cr cl username password (method_to_string meth) uri c cnonce) = Inr r"
  shows "response_parse (response_header_value r) = Inr r"
proof -
  let ?d = "exchange_digest cr c cl username password meth uri cnonce"
  obtain b where b: "?d = hex_encode cr b" "length b \<le> 64"
    using compute_response_encodes assms(2) unfolding exchange_digest_def by metis
  note r' = r [unfolded authorize_answer [OF assms(3)], simplified, symmetric]
  have "printable_response r"
    using assms(3) one_line_hex [OF assms(1)] by (simp add: r' printable_response_def answerable_def b(1))
  moreover have "length (response_header_value r) \<le> 2048"
    using length_response_header [of r] assms(3-5) b hex_lawsD(5) [OF assms(1), of b]
    by (cases "dc_qop c = Some Auth") (simp_all add: r' answerable_def)
  ultimately show ?thesis by (simp add: response_parse_def response_read_back)
qed

lemma challenge_header_read_back:
  assumes "one_line (dc_realm c)" "one_line (dc_nonce c)" "dc_opaque c = None" "length (dc_nonce c) = 64"
    and "length (dc_realm c) \<le> 700"
  shows "challenge_parse (challenge_header_value c) = Inr c"
  using assms length_challenge_header [of c]
  by (simp add: challenge_parse_def challenge_read_back printable_challenge_def)

text \<open>The validation of an answer, up to the replay cache.\<close>

lemma validate_answer:
  assumes "hex_laws cr" and cx: "cx_realm cx = dc_realm c" "cx_preferred_algorithm cx = dc_algorithm c"
      "cx_qop cx = dc_qop c" "dc_algorithm c = Md5 \<longrightarrow> cx_allow_md5 cx"
    and nonce: "validate_nonce cr (dc_nonce c) (cx_secret cx) now (cx_nonce_ttl_seconds cx) = Inr ts"
    and "answerable cl username uri cnonce c"
    and r: "snd (authorize cr cl username pw (method_to_string meth) uri c cnonce) = Inr r"
  shows "context_validate cr cx r meth uri pw' rc now
    = (if exchange_digest cr c cl username pw meth uri cnonce \<noteq> exchange_digest cr c cl username pw' meth uri cnonce
       then (rc, Inl InvalidResponse)
       else if dc_qop c = Some Auth
       then (case rc_check rc (dc_nonce c) (cl_nonce_count cl + 1) now (cx_nonce_ttl_seconds cx) of
               (rc', ok) \<Rightarrow> (rc', if ok then Inr () else Inl ReplayDetected))
       else (rc, Inr ()))"
proof -
  let ?d = "\<lambda>p. exchange_digest cr c cl username p meth uri cnonce"
  have "\<exists>b. ?d p = hex_encode cr b" for p
    using compute_response_encodes unfolding exchange_digest_def by metis
  then obtain b b' where b: "?d pw = hex_encode cr b" "?d pw' = hex_encode cr b'" by blast
  note r' = r [unfolded authorize_answer [OF assms(7)], simplified, symmetric]
  have eq: "?d pw = ?d pw' \<longleftrightarrow> b = b'" using b hex_encode_inject [OF assms(1)] by simp
  note common = cx nonce b hex_lawsD(1) [OF assms(1)]
  show ?thesis
  proof (cases "dc_qop c = Some Auth")
    case True
    then have "compute_response cr (dc_algorithm c) username (dc_realm c) pw' (dc_nonce c)
        (cl_nonce_count cl + 1) (Some cnonce) (Some Auth) (method_to_string meth) uri = hex_encode cr b'"
      using b(2) by (simp add: exchange_digest_def)
    with True show ?thesis
      using common unfolding eq by (auto simp: context_validate_def r' Let_def)
  next
    case False
    then have "dc_qop c = None"
      using assms(7) unfolding answerable_def by (metis digest_qop.exhaust option.exhaust)
    moreover from this have "compute_response cr (dc_algorithm c) username (dc_realm c) pw' (dc_nonce c)
        0 None None (method_to_string meth) uri = hex_encode cr b'"
      using b(2) by (simp add: exchange_digest_def)
    ultimately show ?thesis
      using common unfolding eq by (auto simp: context_validate_def r' Let_def)
  qed
qed

text \<open>
  C12. An exchange has the outcome that the passwords decide: when a server with any settings issues a
  challenge, and a client that accepts its algorithm and quality of protection answers it over the
  printed headers while the nonce lives, the server accepts if the client's password gives the same
  digest as the server's, and reports an invalid response otherwise. No other error occurs, whatever
  the strings hold besides line breaks, up to 700 bytes of them.
\<close>

theorem exchange_outcome:
  assumes laws: "hex_laws cr" "hmac_laws cr" "hash_laws cr"
    and cx: "built_context cr cx" and c: "generate_challenge cr cx issued = (cx', Inr c)"
    and time: "issued \<le> u64_max" "now \<le> issued + cx_nonce_ttl_seconds cx"
    and alg: "cx_preferred_algorithm cx = Md5 \<longrightarrow> cx_allow_md5 cx \<and> cl_allow_md5 cl"
    and qop: "cx_qop cx = None \<longrightarrow> cl_qop cl = None" and nc: "cl_nonce_count cl < u64_max"
    and lines: "one_line username" "one_line uri" "one_line cnonce"
    and len: "length username + length (cx_realm cx) + length uri + length cnonce \<le> 700"
    and fresh: "\<forall>e \<in> set (rc_entries rc). re_nonce e \<noteq> dc_nonce c"
  shows "exchange cr cx' c cl username client_pw server_pw meth uri cnonce rc now
    = (if exchange_digest cr c cl username client_pw meth uri cnonce
          = exchange_digest cr c cl username server_pw meth uri cnonce
       then Inr () else Inl InvalidResponse)"
proof -
  note f = challenge_fields [OF c]
  obtain b where n: "dc_nonce c = hex_encode cr b" "length b = 32"
    using generated_nonce_shape [OF laws(1,2) f(1)] by blast
  have low: "map to_ascii_lowercase (dc_nonce c) = dc_nonce c"
    using hex_lawsD(2) [OF laws(1), of "dc_nonce c" b] hex_lawsD(1) [OF laws(1)] by (simp add: n(1))
  have "one_line (cx_realm cx)" "cx_qop cx \<noteq> Some AuthInt"
    using built_context_ok [OF cx] by (simp_all add: context_ok_def)
  moreover have "one_line (dc_nonce c)" "length (dc_nonce c) = 64"
    using one_line_hex [OF laws(1)] hex_lawsD(5) [OF laws(1)] n by simp_all
  ultimately have ans: "answerable cl username uri cnonce c"
    and parsed: "challenge_parse (challenge_header_value c) = Inr c" and l: "length (dc_nonce c) = 64"
    using alg qop nc lines len f(2-5) by (simp_all add: answerable_def challenge_header_read_back)
  have "validate_nonce cr (dc_nonce c) (cx_secret cx') now (cx_nonce_ttl_seconds cx') = Inr issued"
    using validate_nonce_generated [OF laws(1,2) time(1), of "cx_secret cx" "cx_nonce_counter cx"] f(1,6) time(2) low
    by simp
  note v = this
  obtain r where r: "snd (authorize cr cl username client_pw (method_to_string meth) uri c cnonce) = Inr r"
    using authorize_answer [OF ans] by simp
  show ?thesis
    using parsed answer_read_back [OF laws(1,3) ans l _ r] validate_answer [OF laws(1) _ _ _ _ v ans r] len f(2-6) alg
      rc_check_fresh [OF fresh]
    by (simp add: exchange_def r case_prod_beta)
qed

section \<open>Replays\<close>

record auth_request =
  aq_response :: digest_response
  aq_method :: sip_method
  aq_uri :: string
  aq_password :: string
  aq_now :: nat

text \<open>The accepted requests of a sequence, as their nonce, their count and their time.\<close>

fun accepted ::
    "digest_crypto \<Rightarrow> digest_context \<Rightarrow> replay_cache \<Rightarrow> auth_request list \<Rightarrow> (string \<times> nat \<times> nat) list" where
  "accepted cr cx rc [] = []"
| "accepted cr cx rc (q # qs) =
     (let r = aq_response q in
      case context_validate cr cx r (aq_method q) (aq_uri q) (aq_password q) rc (aq_now q) of
        (rc', Inl e) \<Rightarrow> accepted cr cx rc' qs
      | (rc', Inr _) \<Rightarrow>
          (dr_nonce r, case dr_nc r of None \<Rightarrow> 0 | Some n \<Rightarrow> n, aq_now q) # accepted cr cx rc' qs)"

definition nonce_time :: "digest_crypto \<Rightarrow> string \<Rightarrow> nat" where
  "nonce_time cr nonce = (case hex_decode cr nonce of None \<Rightarrow> 0 | Some b \<Rightarrow> from_be_bytes (take 8 b))"

text \<open>The number of nonces that were used within the time to live before \<open>now\<close>.\<close>

definition live_nonces :: "nat \<Rightarrow> (string \<times> nat \<times> nat) list \<Rightarrow> nat \<Rightarrow> nat" where
  "live_nonces ttl h now = length (remdups (map fst (filter (\<lambda>(n, c, t). now \<le> t + ttl) h)))"

definition within_capacity :: "nat \<Rightarrow> nat \<Rightarrow> (string \<times> nat \<times> nat) list \<Rightarrow> bool" where
  "within_capacity capacity ttl h \<longleftrightarrow>
     (\<forall>i < length h. live_nonces ttl (take (Suc i) h) (snd (snd (h ! i))) \<le> capacity)"

abbreviation count_grows :: "string \<times> nat \<times> nat \<Rightarrow> string \<times> nat \<times> nat \<Rightarrow> bool" where
  "count_grows a b \<equiv> (fst a = fst b \<longrightarrow> fst (snd a) < fst (snd b))"

definition entry_ok :: "digest_crypto \<Rightarrow> (string \<times> nat \<times> nat) list \<Rightarrow> nat \<Rightarrow> replay_entry \<Rightarrow> bool" where
  "entry_ok cr h prev e \<longleftrightarrow>
     re_inserted_at e \<le> prev \<and> nonce_time cr (re_nonce e) \<le> re_inserted_at e
     \<and> (\<exists>c. (re_nonce e, c, re_inserted_at e) \<in> set h)"

definition covered :: "replay_entry list \<Rightarrow> string \<times> nat \<times> nat \<Rightarrow> bool" where
  "covered es x \<longleftrightarrow> (\<exists>e \<in> set es. re_nonce e = fst x \<and> fst (snd x) \<le> re_max_nc e)"

definition replay_inv ::
    "digest_crypto \<Rightarrow> nat \<Rightarrow> nat \<Rightarrow> replay_cache \<Rightarrow> (string \<times> nat \<times> nat) list \<Rightarrow> nat \<Rightarrow> bool" where
  "replay_inv cr ttl capacity rc h prev \<longleftrightarrow>
     rc_capacity rc = capacity \<and> distinct (map re_nonce (rc_entries rc))
     \<and> sorted (map re_inserted_at (rc_entries rc)) \<and> list_all (entry_ok cr h prev) (rc_entries rc)
     \<and> (\<forall>x \<in> set h. prev \<le> nonce_time cr (fst x) + ttl \<longrightarrow> covered (rc_entries rc) x)"

lemma replay_inv_later: "replay_inv cr ttl capacity rc h prev \<Longrightarrow> prev \<le> now \<Longrightarrow> replay_inv cr ttl capacity rc h now"
  by (auto simp: replay_inv_def entry_ok_def list_all_iff)

lemma saturating_less: "now \<le> u64_max \<Longrightarrow> saturating_add_u64 a b < now \<longleftrightarrow> a + b < now"
  by (auto simp: saturating_add_u64_def)

lemma dropWhile_sorted:
  assumes "sorted (map f es)" "e \<in> set (dropWhile (\<lambda>e. f e + k < (now :: nat)) es)"
  shows "now \<le> f e + k"
  using assms by (induction es) (auto split: if_splits)

lemma distinct_map_dropWhile: "distinct (map f es) \<Longrightarrow> distinct (map f (dropWhile P es))"
  by (induction es) auto

lemma sorted_map_dropWhile: "sorted (map f es) \<Longrightarrow> sorted (map f (dropWhile P es))"
  by (induction es) auto

lemma dropped_satisfies: "e \<in> set es \<Longrightarrow> e \<in> set (dropWhile P es) \<or> P e"
  by (induction es) auto

lemma rc_prune_inv:
  assumes inv: "replay_inv cr ttl capacity rc h prev" and now: "prev \<le> now" "now \<le> u64_max"
  shows "replay_inv cr ttl capacity (rc_prune rc now ttl) h now"
    "e \<in> set (rc_entries (rc_prune rc now ttl)) \<Longrightarrow> now \<le> re_inserted_at e + ttl"
proof -
  let ?P = "\<lambda>e. re_inserted_at e + ttl < now" and ?es = "rc_entries rc"
  have es: "rc_entries (rc_prune rc now ttl) = dropWhile ?P ?es"
    using now(2) by (simp add: rc_prune_def saturating_less)
  have inv': "replay_inv cr ttl capacity rc h now" using replay_inv_later [OF inv now(1)] .
  have ok: "entry_ok cr h now e" if "e \<in> set ?es" for e
    using inv' that by (simp add: replay_inv_def list_all_iff)
  show "e \<in> set (rc_entries (rc_prune rc now ttl)) \<Longrightarrow> now \<le> re_inserted_at e + ttl"
    using dropWhile_sorted [of re_inserted_at ?es e] inv unfolding es by (simp add: replay_inv_def)
  have "covered (dropWhile ?P ?es) x" if x: "x \<in> set h" "now \<le> nonce_time cr (fst x) + ttl" for x
  proof -
    obtain e where e: "e \<in> set ?es" "re_nonce e = fst x" "fst (snd x) \<le> re_max_nc e"
      using inv' x by (auto simp: replay_inv_def covered_def)
    then have "\<not> ?P e" using ok [OF e(1)] x(2) by (simp add: entry_ok_def)
    then show ?thesis using dropped_satisfies [OF e(1), of ?P] e(2,3) by (auto simp: covered_def)
  qed
  then show "replay_inv cr ttl capacity (rc_prune rc now ttl) h now"
    using inv' unfolding replay_inv_def es
    by (auto simp: rc_prune_def list_all_iff distinct_map_dropWhile sorted_map_dropWhile dest: set_dropWhileD)
qed

lemma bump_entry_Some:
  assumes "bump_entry nonce nc es = Some (es', ok)"
  obtains a e b where "es = a @ e # b" "re_nonce e = nonce" "ok = (re_max_nc e < nc)"
    "es' = a @ (if ok then e\<lparr>re_max_nc := nc\<rparr> else e) # b"
  using assms
proof (induction es arbitrary: es' thesis)
  case Nil
  then show ?case by simp
next
  case (Cons x xs)
  show ?case
  proof (cases "re_nonce x = nonce")
    case True
    then show ?thesis
      using Cons.prems(2) by (intro Cons.prems(1) [of "[]" x xs]) (auto split: if_splits)
  next
    case False
    then obtain ys where ys: "bump_entry nonce nc xs = Some (ys, ok)" "es' = x # ys"
      using Cons.prems(2) by auto
    show ?thesis
      by (rule Cons.IH [OF _ ys(1)]) (rule Cons.prems(1) [of "x # _"], auto simp: ys(2))
  qed
qed

lemma live_nonces_bound:
  assumes "distinct (map re_nonce es)"
    and "\<And>e. e \<in> set es \<Longrightarrow> \<exists>c t. (re_nonce e, c, t) \<in> set h \<and> now \<le> t + ttl"
  shows "length es \<le> live_nonces ttl h now"
proof -
  let ?live = "map fst (filter (\<lambda>(n, c, t). now \<le> t + ttl) h)"
  have "re_nonce e \<in> set ?live" if "e \<in> set es" for e
    using assms(2) [OF that] by force
  then have "set (map re_nonce es) \<subseteq> set ?live" by auto
  then have "card (set (map re_nonce es)) \<le> card (set ?live)" by (intro card_mono) auto
  then show ?thesis
    using distinct_card [OF assms(1)] by (simp add: live_nonces_def length_remdups_card_conv)
qed

text \<open>A count for a nonce without an entry: the entry is new and nothing is evicted.\<close>

lemma push_entry_inv:
  assumes inv: "replay_inv cr ttl capacity rc h now"
    and young: "\<And>e. e \<in> set (rc_entries rc) \<Longrightarrow> now \<le> re_inserted_at e + ttl"
    and new: "\<forall>e \<in> set (rc_entries rc). re_nonce e \<noteq> nonce" and time: "nonce_time cr nonce \<le> now"
    and load: "live_nonces ttl (h @ [(nonce, nc, now)]) now \<le> capacity"
  defines "es \<equiv> rc_entries rc @ [\<lparr>re_nonce = nonce, re_max_nc = nc, re_inserted_at = now\<rparr>]"
  shows "length es \<le> capacity" "replay_inv cr ttl capacity (rc\<lparr>rc_entries := es\<rparr>) (h @ [(nonce, nc, now)]) now"
proof -
  have d: "distinct (map re_nonce es)"
    using inv new by (auto simp: replay_inv_def es_def)
  have ok: "entry_ok cr (h @ [(nonce, nc, now)]) now e" if "e \<in> set es" for e
    using inv time that by (auto simp: replay_inv_def list_all_iff entry_ok_def es_def)
  have "\<exists>c t. (re_nonce e, c, t) \<in> set (h @ [(nonce, nc, now)]) \<and> now \<le> t + ttl" if e: "e \<in> set es" for e
  proof -
    have "now \<le> re_inserted_at e + ttl" using e young by (auto simp: es_def)
    then show ?thesis using ok [OF e] unfolding entry_ok_def by blast
  qed
  from live_nonces_bound [OF d this] load show "length es \<le> capacity" by simp
  have "sorted (map re_inserted_at es)"
    using inv by (auto simp: replay_inv_def es_def sorted_append list_all_iff entry_ok_def)
  moreover have "covered es x" if "x \<in> set (h @ [(nonce, nc, now)])" "now \<le> nonce_time cr (fst x) + ttl" for x
    using inv that by (auto simp: replay_inv_def covered_def es_def)
  ultimately show "replay_inv cr ttl capacity (rc\<lparr>rc_entries := es\<rparr>) (h @ [(nonce, nc, now)]) now"
    using inv d ok by (auto simp: replay_inv_def list_all_iff)
qed

text \<open>A greater count for a nonce with an entry.\<close>

lemma bump_entry_inv:
  assumes inv: "replay_inv cr ttl capacity rc h now" and es: "rc_entries rc = a @ e # b" and e: "re_nonce e = nonce"
    and greater: "re_max_nc e < nc" and live: "now \<le> nonce_time cr nonce + ttl"
  shows "replay_inv cr ttl capacity (rc\<lparr>rc_entries := a @ e\<lparr>re_max_nc := nc\<rparr> # b\<rparr>) (h @ [(nonce, nc, now)]) now"
    "x \<in> set h \<Longrightarrow> count_grows x (nonce, nc, now)"
proof -
  have covered: "x \<in> set h \<Longrightarrow> now \<le> nonce_time cr (fst x) + ttl \<Longrightarrow> covered (a @ e # b) x" for x
    using inv by (simp add: replay_inv_def es)
  have "nonce \<notin> re_nonce ` (set a \<union> set b)"
    using inv e by (auto simp: replay_inv_def es image_Un)
  then have others: "e' \<in> set a \<union> set b \<Longrightarrow> re_nonce e' \<noteq> nonce" for e'
    by (metis image_eqI)
  show "x \<in> set h \<Longrightarrow> count_grows x (nonce, nc, now)"
    using covered [of x] live others greater by (fastforce simp: covered_def)
  have "covered (a @ e\<lparr>re_max_nc := nc\<rparr> # b) x"
    if "x \<in> set (h @ [(nonce, nc, now)])" "now \<le> nonce_time cr (fst x) + ttl" for x
    using that covered [of x] greater e by (fastforce simp: covered_def)
  moreover have "list_all (entry_ok cr (h @ [(nonce, nc, now)]) now) (a @ e\<lparr>re_max_nc := nc\<rparr> # b)"
    using inv by (auto simp: replay_inv_def es list_all_iff entry_ok_def)
  ultimately show "replay_inv cr ttl capacity (rc\<lparr>rc_entries := a @ e\<lparr>re_max_nc := nc\<rparr> # b\<rparr>) (h @ [(nonce, nc, now)]) now"
    using inv by (simp add: replay_inv_def es)
qed

lemma rc_check_inv:
  assumes inv: "replay_inv cr ttl capacity rc h prev" and now: "prev \<le> now" "now \<le> u64_max"
    and live: "now \<le> nonce_time cr nonce + ttl"
    and check: "rc_check rc nonce nc now ttl = (rc', ok)"
    and time: "ok \<Longrightarrow> nonce_time cr nonce \<le> now"
    and load: "ok \<Longrightarrow> live_nonces ttl (h @ [(nonce, nc, now)]) now \<le> capacity"
  shows "if ok then replay_inv cr ttl capacity rc' (h @ [(nonce, nc, now)]) now
                 \<and> (\<forall>x \<in> set h. count_grows x (nonce, nc, now))
         else replay_inv cr ttl capacity rc' h now"
proof -
  let ?rc = "rc_prune rc now ttl"
  note inv1 = rc_prune_inv(1) [OF inv now] and young = rc_prune_inv(2) [OF inv now]
  have cap: "rc_capacity ?rc = capacity" using inv1 by (simp add: replay_inv_def)
  show ?thesis
  proof (cases "bump_entry nonce nc (rc_entries ?rc)")
    case None
    then have new: "\<forall>e \<in> set (rc_entries ?rc). re_nonce e \<noteq> nonce" by (simp add: bump_entry_None)
    have ok: ok using check None by (auto simp: rc_check_def Let_def)
    note push = push_entry_inv [OF inv1 young new time [OF ok] load [OF ok]]
    have "rc' = ?rc\<lparr>rc_entries := rc_entries ?rc @ [\<lparr>re_nonce = nonce, re_max_nc = nc, re_inserted_at = now\<rparr>]\<rparr>"
      using check None push(1) cap by (auto simp: rc_check_def Let_def)
    moreover have "count_grows x (nonce, nc, now)" if "x \<in> set h" for x
      using inv1 that new live by (fastforce simp: replay_inv_def covered_def)
    ultimately show ?thesis using push(2) ok by simp
  next
    case (Some p)
    then obtain a e b where b: "rc_entries ?rc = a @ e # b" "re_nonce e = nonce" "ok = (re_max_nc e < nc)"
      "rc' = ?rc\<lparr>rc_entries := a @ (if ok then e\<lparr>re_max_nc := nc\<rparr> else e) # b\<rparr>"
      using check by (cases p) (auto simp: rc_check_def Let_def elim!: bump_entry_Some)
    show ?thesis
    proof (cases ok)
      case True
      then show ?thesis
        using bump_entry_inv [OF inv1 b(1,2) _ live, of nc] b(3,4) by simp
    next
      case False
      then have "rc' = ?rc" using b(1,4) by simp
      then show ?thesis using inv1 False by simp
    qed
  qed
qed

lemma validate_nonce_time:
  "validate_nonce cr nonce secret now ttl = Inr ts \<Longrightarrow> now \<le> nonce_time cr nonce + ttl"
  by (auto simp: validate_nonce_def nonce_time_def option_or_def Let_def split: if_splits option.splits sum.splits)

text \<open>With a quality of protection, a request is rejected before the replay cache or decided by it.\<close>

lemma context_validate_cases:
  assumes "context_validate cr cx r meth uri pw rc now = (rc', res)" "cx_qop cx \<noteq> None"
  obtains (rejected) e where "rc' = rc" "res = Inl e"
    | (checked) ok where "rc_check rc (dr_nonce r) (case dr_nc r of None \<Rightarrow> 0 | Some n \<Rightarrow> n) now (cx_nonce_ttl_seconds cx) = (rc', ok)"
        "now \<le> nonce_time cr (dr_nonce r) + cx_nonce_ttl_seconds cx"
        "res = (if ok then Inr () else Inl ReplayDetected)"
  using assms validate_nonce_time [of cr "dr_nonce r" "cx_secret cx" now "cx_nonce_ttl_seconds cx"]
  unfolding context_validate_def Let_def
  by (auto split: if_splits sum.splits option.splits prod.splits)

lemma accepted_grows:
  assumes "cx_qop cx \<noteq> None" and "replay_inv cr (cx_nonce_ttl_seconds cx) capacity rc h prev"
    and "sorted_wrt count_grows h" and "sorted (prev # map aq_now qs)" "list_all (\<lambda>q. aq_now q \<le> u64_max) qs"
    and "within_capacity capacity (cx_nonce_ttl_seconds cx) (h @ accepted cr cx rc qs)"
    and "\<forall>(n, c, t) \<in> set (accepted cr cx rc qs). nonce_time cr n \<le> t"
  shows "sorted_wrt count_grows (h @ accepted cr cx rc qs)"
  using assms(2-)
proof (induction qs arbitrary: rc h prev)
  case Nil
  then show ?case by simp
next
  case (Cons q qs)
  let ?r = "aq_response q" and ?now = "aq_now q" and ?ttl = "cx_nonce_ttl_seconds cx"
  let ?x = "(dr_nonce ?r, case dr_nc ?r of None \<Rightarrow> 0 | Some n \<Rightarrow> n, ?now)"
  obtain rc' res where v: "context_validate cr cx ?r (aq_method q) (aq_uri q) (aq_password q) rc ?now = (rc', res)"
    by fastforce
  have now: "prev \<le> ?now" "?now \<le> u64_max" "sorted (?now # map aq_now qs)"
    using Cons.prems(3,4) by auto
  from v assms(1) show ?case
  proof (cases rule: context_validate_cases)
    case (rejected e)
    then show ?thesis
      using Cons.IH [of rc h ?now] Cons.prems replay_inv_later [OF Cons.prems(1) now(1)] v by simp
  next
    case (checked ok)
    show ?thesis
    proof (cases ok)
      case False
      then have "replay_inv cr ?ttl capacity rc' h ?now"
        using rc_check_inv [OF Cons.prems(1) now(1,2) checked(2,1)] by simp
      then show ?thesis
        using Cons.IH [of rc' h ?now] Cons.prems now v checked False by simp
    next
      case True
      have acc: "accepted cr cx rc (q # qs) = ?x # accepted cr cx rc' qs"
        using v checked True by (simp add: Let_def)
      have load: "live_nonces ?ttl (h @ [?x]) ?now \<le> capacity"
        using Cons.prems(5) [unfolded acc within_capacity_def, rule_format, of "length h"] by simp
      have "replay_inv cr ?ttl capacity rc' (h @ [?x]) ?now \<and> (\<forall>y \<in> set h. count_grows y ?x)"
        using rc_check_inv [OF Cons.prems(1) now(1,2) checked(2,1) _ load] Cons.prems(6) [unfolded acc] True by simp
      then show ?thesis
        using Cons.IH [of rc' "h @ [?x]" ?now] Cons.prems [unfolded acc] now unfolding acc by (simp add: sorted_wrt_append)
    qed
  qed
qed

text \<open>
  C10. No accepted request is accepted again: when a server that offers a quality of protection handles
  any sequence of requests in the order of time, with a replay cache that has room for the nonces used
  within one time to live, the accepted requests with the same nonce have strictly increasing counts.
  The hypothesis on nonces is that none carries a time stamp of the future, which only the server's own
  clock could sign.
\<close>

theorem replays_are_rejected:
  assumes "cx_qop cx \<noteq> None"
    and "sorted (map aq_now qs)" "list_all (\<lambda>q. aq_now q \<le> u64_max) qs"
    and "within_capacity capacity (cx_nonce_ttl_seconds cx) (accepted cr cx (replay_cache_new capacity) qs)"
    and "\<forall>(n, c, t) \<in> set (accepted cr cx (replay_cache_new capacity) qs). nonce_time cr n \<le> t"
  shows "sorted_wrt (\<lambda>a b. fst a = fst b \<longrightarrow> fst (snd a) < fst (snd b))
    (accepted cr cx (replay_cache_new capacity) qs)"
  using accepted_grows [OF assms(1), where h = "[]" and prev = 0 and rc = "replay_cache_new capacity"] assms
  by (simp add: replay_inv_def replay_cache_new_def)

section \<open>Concrete instances\<close>

text \<open>The encoding of the crate \<open>hex\<close>, with cut and padded inputs as digests.\<close>

definition sample_hex_encode :: "string \<Rightarrow> string" where
  "sample_hex_encode b = concat (map (\<lambda>c. [hex_char (of_char c div 16), hex_char (of_char c mod 16)]) b)"

fun sample_hex_decode :: "string \<Rightarrow> string option" where
  "sample_hex_decode [] = Some []"
| "sample_hex_decode [x] = None"
| "sample_hex_decode (x # y # s) =
     (case (hex_value x, hex_value y, sample_hex_decode s) of
        (Some a, Some b, Some t) \<Rightarrow> Some (char_of (16 * a + b) # t)
      | _ \<Rightarrow> None)"

definition sample_digest :: "nat \<Rightarrow> string \<Rightarrow> string" where
  "sample_digest n d = take n (d @ replicate n (CHR ''0''))"

definition sample_crypto :: digest_crypto where
  "sample_crypto =
     \<lparr>hex_encode = sample_hex_encode, hex_decode = sample_hex_decode,
      hmac_sha256 = (\<lambda>k m. Some (sample_digest 32 (m @ k))), md5_compute = sample_digest 16,
      sha256_digest = sample_digest 32, sha512_digest = sample_digest 64\<rparr>"

lemma hex_char_codes:
  "list_all (\<lambda>(d, c). of_char c = (if d < 10 then 48 + d else 87 + d)) (enumerate 0 ''0123456789abcdef'')"
  by code_simp

lemma of_hex_char: "d < 16 \<Longrightarrow> of_char (hex_char d) = (if d < 10 then 48 + d else 87 + d)"
proof -
  assume "d < 16"
  then have "(d, hex_char d) \<in> set (enumerate 0 ''0123456789abcdef'')"
    by (simp only: in_set_enumerate_eq hex_char_def) simp
  then show ?thesis using hex_char_codes unfolding list_all_iff by blast
qed

lemma of_lower:
  "of_char (to_ascii_lowercase x)
   = (if 65 \<le> (of_char x :: nat) \<and> (of_char x :: nat) \<le> 90 then of_char x + 32 else (of_char x :: nat))"
  by (simp add: to_ascii_lowercase_def is_ascii_uppercase_def)

lemma hex_value_lower: "hex_value (to_ascii_lowercase x) = hex_value x"
  by (auto simp: hex_value_def of_lower Let_def)

lemma hex_value_Some: "hex_value x = Some v \<Longrightarrow> v < 16 \<and> hex_char v = to_ascii_lowercase x"
proof -
  assume v: "hex_value x = Some v"
  then have "v < 16" by (auto simp: hex_value_def Let_def split: if_splits)
  moreover have "of_char (hex_char v) = (of_char (to_ascii_lowercase x) :: nat)"
    unfolding of_hex_char [OF \<open>v < 16\<close>] of_lower using v by (auto simp: hex_value_def Let_def split: if_splits)
  ultimately show ?thesis by simp
qed

lemma sample_hex_simps [simp]:
  "sample_hex_encode [] = []"
  "sample_hex_encode (c # b) = hex_char (of_char c div 16) # hex_char (of_char c mod 16) # sample_hex_encode b"
  by (simp_all add: sample_hex_encode_def)

lemma sample_hex_append: "sample_hex_encode (a @ b) = sample_hex_encode a @ sample_hex_encode b"
  by (simp add: sample_hex_encode_def)

lemma nibble_less: "(of_char c :: nat) div 16 < 16"
  using nat_of_char_less_256 [of c] by (simp add: less_mult_imp_div_less)

lemma sample_hex_decode_encode: "sample_hex_decode (sample_hex_encode b) = Some b"
proof (induction b)
  case (Cons c b)
  have "16 * (of_char c div 16) + of_char c mod 16 = (of_char c :: nat)" by simp
  then show ?case using Cons nibble_less [of c] by (simp add: hex_char_props del: mult_div_mod_eq)
qed simp

lemma sample_hex_encode_decode: "sample_hex_decode s = Some b \<Longrightarrow> sample_hex_encode b = map to_ascii_lowercase s"
proof (induction s arbitrary: b rule: sample_hex_decode.induct)
  case (3 x y s)
  then obtain u v t where h: "hex_value x = Some u" "hex_value y = Some v" "sample_hex_decode s = Some t"
      "b = char_of (16 * u + v) # t"
    by (auto split: option.splits)
  moreover have "u < 16" "v < 16" using hex_value_Some h(1,2) by blast+
  moreover from this have "(16 * u + v) mod 256 = 16 * u + v" by simp
  ultimately show ?case using 3 hex_value_Some by simp
qed simp_all

lemma sample_hex_decode_lower: "sample_hex_decode (map to_ascii_lowercase s) = sample_hex_decode s"
  by (induction s rule: sample_hex_decode.induct) (simp_all add: hex_value_lower)

lemma sample_laws: "hex_laws sample_crypto" "hmac_laws sample_crypto" "hash_laws sample_crypto"
proof -
  have "length (sample_hex_encode b) = 2 * length b" "list_all (\<lambda>c. hex_value c \<noteq> None) (sample_hex_encode b)" for b
    using nibble_less by (induction b) (simp_all add: hex_char_props)
  then show "hex_laws sample_crypto"
    by (simp add: hex_laws_def sample_crypto_def sample_hex_decode_encode sample_hex_encode_decode
        sample_hex_decode_lower sample_hex_append)
  have "length (sample_digest n d) = n" for n d by (auto simp: sample_digest_def)
  then show "hmac_laws sample_crypto" "hash_laws sample_crypto"
    by (simp_all add: hmac_laws_def hash_laws_def sample_crypto_def)
qed

definition sample_context :: digest_context where
  "sample_context =
     \<lparr>cx_realm = ''gb'', cx_secret = replicate 32 (CHR ''k''), cx_nonce_counter = 0, cx_allow_md5 = False,
      cx_preferred_algorithm = Sha256, cx_qop = Some Auth, cx_nonce_ttl_seconds = 300\<rparr>"

definition sample_challenge :: digest_challenge where
  "sample_challenge = projr (snd (generate_challenge sample_crypto sample_context 5))"

definition sample_answer :: "nat \<Rightarrow> digest_response" where
  "sample_answer k =
     projr (snd (authorize sample_crypto (client_new_digest\<lparr>cl_nonce_count := k\<rparr>) ''34'' ''pw''
                   (method_to_string Register) ''sip:34'' sample_challenge ''cn''))"

lemma sample_built: "built_context sample_crypto sample_context"
  by (rule built_context.new [of "''gb''" "replicate 32 (CHR ''k'')"])
     (simp add: context_new_def sample_context_def strip_crlf_def)

lemma sample_generated:
  "generate_challenge sample_crypto sample_context 5
   = (fst (generate_challenge sample_crypto sample_context 5), Inr sample_challenge)"
proof -
  obtain n where "generate_nonce sample_crypto (cx_secret sample_context) 5 (cx_nonce_counter sample_context) = Inr n"
    by (rule generate_nonce_eq [OF sample_laws(1,2)])
  then show ?thesis by (simp add: sample_challenge_def generate_challenge_def Let_def)
qed

lemma sample_nonce:
  "map to_ascii_lowercase (dc_nonce sample_challenge) = dc_nonce sample_challenge"
  "one_line (dc_nonce sample_challenge)" "now \<le> 305 \<Longrightarrow>
   validate_nonce sample_crypto (dc_nonce sample_challenge) (cx_secret sample_context) now 300 = Inr 5"
proof -
  note gen = challenge_fields(1) [OF sample_generated]
  obtain b where b: "dc_nonce sample_challenge = hex_encode sample_crypto b"
    using generated_nonce_shape [OF sample_laws(1,2) gen] by blast
  then show low: "map to_ascii_lowercase (dc_nonce sample_challenge) = dc_nonce sample_challenge"
    using hex_lawsD(2) [OF sample_laws(1), of "hex_encode sample_crypto b" b] hex_lawsD(1) [OF sample_laws(1)] by simp
  show "one_line (dc_nonce sample_challenge)" using b one_line_hex [OF sample_laws(1)] by simp
  show "now \<le> 305 \<Longrightarrow>
      validate_nonce sample_crypto (dc_nonce sample_challenge) (cx_secret sample_context) now 300 = Inr 5"
    using validate_nonce_generated [OF sample_laws(1,2), of 5] gen low by (simp add: u64_max_def)
qed

theorem accepted_nonces_witness:
  "validate_nonce sample_crypto (dc_nonce sample_challenge) (cx_secret sample_context) 305 300 = Inr 5
   \<and> validate_nonce sample_crypto (dc_nonce sample_challenge) (cx_secret sample_context) 306 300 \<noteq> Inr 5"
proof -
  note rule = accepted_nonces [OF sample_laws(1,2), of "dc_nonce sample_challenge" "cx_secret sample_context"]
  have "cx_nonce_counter sample_context \<le> u64_max
      \<and> generate_nonce sample_crypto (cx_secret sample_context) 5 (cx_nonce_counter sample_context)
        = Inr (map to_ascii_lowercase (dc_nonce sample_challenge))"
    using challenge_fields(1) [OF sample_generated] by (simp add: sample_nonce(1) sample_context_def)
  then show ?thesis
    using rule [of 305 300 5] rule [of 306 300 5] by (simp add: u64_max_def) blast
qed

theorem challenges_are_distinct_witness:
  "\<exists>c d. issue sample_crypto sample_context [(False, 5), (True, 5)] ! 0 = Inr c
     \<and> issue sample_crypto sample_context [(False, 5), (True, 5)] ! 1 = Inr d \<and> dc_nonce c \<noteq> dc_nonce d"
  by (rule challenges_are_distinct [OF sample_laws(1,2) sample_built]) simp_all

theorem exchange_outcome_witness:
  "exchange sample_crypto (fst (generate_challenge sample_crypto sample_context 5)) sample_challenge client_new_digest
     ''34'' ''pw'' ''pw'' Register ''sip:34'' ''cn'' (replay_cache_new 4) 6 = Inr ()"
  by (subst exchange_outcome [OF sample_laws sample_built sample_generated])
     (simp_all add: u64_max_def sample_context_def client_new_digest_def one_line_def replay_cache_new_def)

lemma sample_answered:
  assumes "k < u64_max"
  shows "answerable (client_new_digest\<lparr>cl_nonce_count := k\<rparr>) ''34'' ''sip:34'' ''cn'' sample_challenge"
    "snd (authorize sample_crypto (client_new_digest\<lparr>cl_nonce_count := k\<rparr>) ''34'' ''pw''
       (method_to_string Register) ''sip:34'' sample_challenge ''cn'') = Inr (sample_answer k)"
    "dr_nonce (sample_answer k) = dc_nonce sample_challenge" "dr_nc (sample_answer k) = Some (k + 1)"
proof -
  note f = challenge_fields [OF sample_generated]
  show ans: "answerable (client_new_digest\<lparr>cl_nonce_count := k\<rparr>) ''34'' ''sip:34'' ''cn'' sample_challenge"
    using f sample_nonce(2) assms by (simp add: answerable_def sample_context_def one_line_def client_new_digest_def)
  note a = authorize_answer [OF ans, of sample_crypto "''pw''" Register]
  show r: "snd (authorize sample_crypto (client_new_digest\<lparr>cl_nonce_count := k\<rparr>) ''34'' ''pw''
      (method_to_string Register) ''sip:34'' sample_challenge ''cn'') = Inr (sample_answer k)"
    unfolding sample_answer_def a by simp
  show "dr_nonce (sample_answer k) = dc_nonce sample_challenge" "dr_nc (sample_answer k) = Some (k + 1)"
    using r [unfolded a, symmetric] f by (simp_all add: sample_context_def)
qed

lemma sample_validated:
  assumes "now \<le> 305" "k < u64_max"
  shows "context_validate sample_crypto sample_context (sample_answer k) Register ''sip:34'' ''pw'' rc now
    = (case rc_check rc (dc_nonce sample_challenge) (k + 1) now 300 of
         (rc', ok) \<Rightarrow> (rc', if ok then Inr () else Inl ReplayDetected))"
proof -
  have v: "validate_nonce sample_crypto (dc_nonce sample_challenge) (cx_secret sample_context) now
      (cx_nonce_ttl_seconds sample_context) = Inr 5"
    using sample_nonce(3) [OF assms(1)] by (simp add: sample_context_def)
  show ?thesis
    using challenge_fields [OF sample_generated]
    by (subst validate_answer [OF sample_laws(1) _ _ _ _ v sample_answered(1,2) [OF assms(2)]])
       (simp_all add: sample_context_def)
qed

definition sample_auth_request :: "nat \<Rightarrow> nat \<Rightarrow> auth_request" where
  "sample_auth_request k now =
     \<lparr>aq_response = sample_answer k, aq_method = Register, aq_uri = ''sip:34'', aq_password = ''pw'', aq_now = now\<rparr>"

text \<open>The first request, its replay, and a second request.\<close>

lemma sample_accepted:
  "accepted sample_crypto sample_context (replay_cache_new 4)
     [sample_auth_request 0 6, sample_auth_request 0 6, sample_auth_request 1 7]
   = [(dc_nonce sample_challenge, 1, 6), (dc_nonce sample_challenge, 2, 7)]"
  by (simp add: sample_auth_request_def sample_validated sample_answered u64_max_def rc_check_def rc_prune_def replay_cache_new_def
      saturating_add_u64_def Let_def)

theorem replays_are_rejected_witness:
  "(let acc = accepted sample_crypto sample_context (replay_cache_new 4)
                [sample_auth_request 0 6, sample_auth_request 0 6, sample_auth_request 1 7]
    in fst (acc ! 0) = fst (acc ! 1) \<and> fst (snd (acc ! 0)) < fst (snd (acc ! 1)))"
proof -
  have "nonce_time sample_crypto (dc_nonce sample_challenge) \<le> 6"
    using sample_nonce(3) [of 6] by (auto simp: validate_nonce_def nonce_time_def option_or_def Let_def
        split: if_splits option.splits sum.splits)
  moreover have "cx_qop sample_context = Some Auth" "cx_nonce_ttl_seconds sample_context = 300"
    by (simp_all add: sample_context_def)
  ultimately show ?thesis
    using replays_are_rejected [of sample_context
        "[sample_auth_request 0 6, sample_auth_request 0 6, sample_auth_request 1 7]" 4 sample_crypto,
        unfolded sample_accepted]
    unfolding sample_accepted
    by (simp add: sample_auth_request_def u64_max_def within_capacity_def live_nonces_def All_less_Suc)
qed

end
