(* ===== verification/Pagination.thy ===== *)
theory Pagination
  imports
    Prelude
    "HOL-Library.Product_Lexorder"
    "HOL-Library.List_Lexorder"
    "HOL-Library.Char_ord"
begin

text \<open>
  List cursors and keyset pages (\<open>cheetah-signal-types/src/pagination.rs\<close>, \<open>time.rs\<close>).

  An instant is its number of nanoseconds since the Unix epoch (\<^typ>\<open>int\<close>), an identifier the 16
  bytes of its UUID (\<^typ>\<open>string\<close>, ordered byte by byte as \<open>Uuid\<close> and the databases order
  them). The crates the code calls are the fields of a \<open>codec\<close>: the RFC 3339 formatter and
  parser and the range of \<open>time\<close>, the text form of \<open>uuid\<close>, the JSON form of a cursor
  (\<open>serde_json\<close>) and the digest of \<open>compute_checksum\<close> (\<open>sha2\<close>, \<open>base64\<close>);
  \<open>cursor_laws\<close> states what the code relies on, that each text form reads back.

  A page query is \<open>keyset_rows\<close>: the rows after the cursor's key, in the order of the key, at
  most the limit. The main result is that following the cursors from page to page ends and yields
  every row of the listing once and in order, for every page size.
  \<open>timestamptz\<close> is the instant a column of that type holds for a bound instant (PostgreSQL
  keeps microseconds); \<open>column_laws\<close> states that it truncates and keeps the order.
\<close>

section \<open>Instants\<close>

type_synonym instant = int
type_synonym uuid = string

record list_cursor =
  cursor_version :: nat
  cursor_updated_at :: string
  cursor_id :: string
  cursor_checksum :: string

record codec =
  min_instant :: instant
  max_instant :: instant
  format_rfc3339 :: "instant \<Rightarrow> string option"
  read_rfc3339 :: "string \<Rightarrow> instant option"
  uuid_to_string :: "uuid \<Rightarrow> string"
  uuid_parse_str :: "string \<Rightarrow> uuid option"
  cursor_to_json :: "list_cursor \<Rightarrow> string option"
  cursor_from_json :: "string \<Rightarrow> list_cursor option"
  sha256_base64 :: "string \<Rightarrow> string"
  timestamptz :: "instant \<Rightarrow> instant"

definition ns_per_ms :: int where "ns_per_ms = 1000000"

definition utc_checked_add :: "codec \<Rightarrow> instant \<Rightarrow> int \<Rightarrow> instant option" where
  "utc_checked_add C t ms =
     (let r = t + ms * ns_per_ms
      in if min_instant C \<le> r \<and> r \<le> max_instant C then Some r else None)"

lemma utc_checked_add_SomeD: "utc_checked_add C t ms = Some r \<Longrightarrow> r = t + ms * ns_per_ms"
  by (simp add: utc_checked_add_def Let_def split: if_splits)

definition column_laws :: "codec \<Rightarrow> bool" where
  "column_laws C \<longleftrightarrow>
     (\<forall>t. timestamptz C t \<le> t) \<and> (\<forall>t. timestamptz C (timestamptz C t) = timestamptz C t) \<and>
     (\<forall>s t. s \<le> t \<longrightarrow> timestamptz C s \<le> timestamptz C t)"

lemma column_lawsD:
  assumes "column_laws C"
  shows "timestamptz C t \<le> t" "timestamptz C (timestamptz C t) = timestamptz C t"
    "s \<le> t \<Longrightarrow> timestamptz C s \<le> timestamptz C t"
  using assms by (auto simp: column_laws_def)

lemma column_less_iff:
  assumes "column_laws C" and "timestamptz C s = s"
  shows "timestamptz C t < s \<longleftrightarrow> t < s"
  by (metis assms column_lawsD(1,3) leD leI le_less_trans)

definition max_rfc3339_bytes :: nat where "max_rfc3339_bytes = 64"

definition parse_rfc3339 :: "codec \<Rightarrow> string \<Rightarrow> instant option" where
  "parse_rfc3339 C s = (if max_rfc3339_bytes < length s then None else read_rfc3339 C s)"

section \<open>Page requests\<close>

datatype signal_error_kind =
    InvalidArgument | Unauthenticated | PermissionDenied | NotFound | AlreadyExists | Conflict
  | StaleOwner | Busy | RateLimited | Timeout | Cancelled | Unavailable | Unsupported
  | VersionMismatch | FailedPrecondition | CursorExpired | ProtocolFailed | MediaFailed
  | StorageFailed | Internal

definition max_page_size :: nat where "max_page_size = 1000"
definition max_cursor_bytes :: nat where "max_cursor_bytes = 1024"
definition cursor_format_version :: nat where "cursor_format_version = 1"

record page_request =
  req_cursor :: "string option"
  req_page_size :: nat

definition page_request_new :: "nat \<Rightarrow> signal_error_kind + page_request" where
  "page_request_new n =
     (if n = 0 then Inl InvalidArgument
      else if max_page_size < n then Inl InvalidArgument
      else Inr \<lparr>req_cursor = None, req_page_size = n\<rparr>)"

definition with_cursor :: "page_request \<Rightarrow> string \<Rightarrow> page_request" where
  "with_cursor r c = r\<lparr>req_cursor := Some c\<rparr>"

definition clamped_page_size :: "page_request \<Rightarrow> nat" where
  "clamped_page_size r = min max_page_size (max 1 (req_page_size r))"

definition limit_plus_one :: "page_request \<Rightarrow> nat" where
  "limit_plus_one r = clamped_page_size r + 1"

record 'a page =
  page_items :: "'a list"
  page_next_cursor :: "string option"

section \<open>Cursors\<close>

definition compute_checksum :: "codec \<Rightarrow> list_cursor \<Rightarrow> string" where
  "compute_checksum C c =
     sha256_base64 C (nat_to_dec (cursor_version c) @ '':'' @ cursor_updated_at c @ '':'' @ cursor_id c)"

definition list_cursor_new :: "codec \<Rightarrow> instant \<Rightarrow> uuid \<Rightarrow> signal_error_kind + list_cursor" where
  "list_cursor_new C t i =
     (case format_rfc3339 C t of
        None \<Rightarrow> Inl Internal
      | Some u \<Rightarrow>
          (let c = \<lparr>cursor_version = cursor_format_version, cursor_updated_at = u,
                    cursor_id = uuid_to_string C i, cursor_checksum = []\<rparr>
           in Inr (c\<lparr>cursor_checksum := compute_checksum C c\<rparr>)))"

definition list_cursor_encode :: "codec \<Rightarrow> list_cursor \<Rightarrow> signal_error_kind + string" where
  "list_cursor_encode C c =
     (case cursor_to_json C c of None \<Rightarrow> Inl Internal | Some s \<Rightarrow> Inr s)"

definition list_cursor_decode :: "codec \<Rightarrow> string \<Rightarrow> signal_error_kind + list_cursor" where
  "list_cursor_decode C v =
     (if max_cursor_bytes < length v then Inl CursorExpired
      else case cursor_from_json C v of
        None \<Rightarrow> Inl CursorExpired
      | Some c \<Rightarrow>
          if cursor_version c \<noteq> cursor_format_version then Inl CursorExpired
          else if cursor_checksum c \<noteq> compute_checksum C c then Inl CursorExpired
          else Inr c)"

definition list_cursor_parse :: "codec \<Rightarrow> list_cursor \<Rightarrow> signal_error_kind + instant \<times> uuid" where
  "list_cursor_parse C c =
     (case parse_rfc3339 C (cursor_updated_at c) of
        None \<Rightarrow> Inl InvalidArgument
      | Some t \<Rightarrow>
          (case uuid_parse_str C (cursor_id c) of
             None \<Rightarrow> Inl CursorExpired
           | Some i \<Rightarrow> Inr (t, i)))"

definition write_cursor :: "codec \<Rightarrow> instant \<times> uuid \<Rightarrow> signal_error_kind + string" where
  "write_cursor C k =
     (case list_cursor_new C (fst k) (snd k) of
        Inl e \<Rightarrow> Inl e
      | Inr c \<Rightarrow> list_cursor_encode C c)"

definition read_cursor :: "codec \<Rightarrow> string \<Rightarrow> signal_error_kind + instant \<times> uuid" where
  "read_cursor C s =
     (case list_cursor_decode C s of
        Inl e \<Rightarrow> Inl e
      | Inr c \<Rightarrow> list_cursor_parse C c)"

text \<open>What the code relies on, for the instants it can format (\<open>time\<close> formats the years 0 to
  9999 in at most 35 bytes) and the 16 bytes of an identifier.\<close>

definition cursor_laws :: "codec \<Rightarrow> bool" where
  "cursor_laws C \<longleftrightarrow>
     (\<forall>t u. format_rfc3339 C t = Some u \<longrightarrow>
        length u \<le> max_rfc3339_bytes \<and> read_rfc3339 C u = Some t) \<and>
     (\<forall>i. length i = 16 \<longrightarrow> uuid_parse_str C (uuid_to_string C i) = Some i) \<and>
     (\<forall>t i c. length i = 16 \<longrightarrow> list_cursor_new C t i = Inr c \<longrightarrow>
        (\<exists>s. cursor_to_json C c = Some s \<and> length s \<le> max_cursor_bytes \<and>
             cursor_from_json C s = Some c))"

lemma cursor_lawsD:
  assumes "cursor_laws C"
  shows "format_rfc3339 C t = Some u \<Longrightarrow> length u \<le> max_rfc3339_bytes \<and> read_rfc3339 C u = Some t"
    and "length i = 16 \<Longrightarrow> uuid_parse_str C (uuid_to_string C i) = Some i"
    and "length i = 16 \<Longrightarrow> list_cursor_new C t i = Inr c \<Longrightarrow>
         \<exists>s. cursor_to_json C c = Some s \<and> length s \<le> max_cursor_bytes \<and> cursor_from_json C s = Some c"
  using assms by (auto simp: cursor_laws_def)

lemma list_cursor_new_Inr:
  "list_cursor_new C t i = Inr c \<longleftrightarrow>
     (\<exists>u. format_rfc3339 C t = Some u \<and> cursor_version c = cursor_format_version \<and>
          cursor_updated_at c = u \<and> cursor_id c = uuid_to_string C i \<and>
          cursor_checksum c = compute_checksum C c)"
  by (cases c) (auto simp: list_cursor_new_def compute_checksum_def Let_def split: option.splits)

lemma cursor_roundtrip:
  assumes "cursor_laws C" and "length i = 16" and "format_rfc3339 C t \<noteq> None"
  obtains s where "write_cursor C (t, i) = Inr s" and "read_cursor C s = Inr (t, i)"
proof -
  obtain c where c: "list_cursor_new C t i = Inr c"
    using assms(3) by (auto simp: list_cursor_new_def Let_def)
  obtain s where s: "cursor_to_json C c = Some s" "length s \<le> max_cursor_bytes"
      "cursor_from_json C s = Some c"
    using cursor_lawsD(3) [OF assms(1,2) c] by blast
  obtain u where u: "format_rfc3339 C t = Some u" "cursor_version c = cursor_format_version"
      "cursor_updated_at c = u" "cursor_id c = uuid_to_string C i"
      "cursor_checksum c = compute_checksum C c"
    using c by (auto simp: list_cursor_new_Inr)
  have "write_cursor C (t, i) = Inr s"
    using c s(1) by (simp add: write_cursor_def list_cursor_encode_def)
  moreover have "read_cursor C s = Inr (t, i)"
    using s u cursor_lawsD(1) [OF assms(1) u(1)] cursor_lawsD(2) [OF assms(1,2)]
    by (simp add: read_cursor_def list_cursor_decode_def list_cursor_parse_def parse_rfc3339_def)
  ultimately show ?thesis by (rule that)
qed

section \<open>Keyset pages\<close>

text \<open>\<open>SELECT \<dots> WHERE (updated_at, id) > cursor ORDER BY updated_at, id LIMIT n\<close> on the rows that
  pass the other conditions, and the page built from it.\<close>

definition rows_after :: "('a \<Rightarrow> 'k :: linorder) \<Rightarrow> 'a list \<Rightarrow> 'k option \<Rightarrow> 'a list" where
  "rows_after key rows c =
     sort_key key (filter (\<lambda>r. case c of None \<Rightarrow> True | Some k \<Rightarrow> k < key r) rows)"

definition keyset_rows :: "('a \<Rightarrow> instant \<times> uuid) \<Rightarrow> 'a list \<Rightarrow> (instant \<times> uuid) option \<Rightarrow> nat \<Rightarrow> 'a list" where
  "keyset_rows key rows c n = take n (rows_after key rows c)"

definition request_position :: "codec \<Rightarrow> page_request \<Rightarrow> signal_error_kind + (instant \<times> uuid) option" where
  "request_position C req =
     (case req_cursor req of
        None \<Rightarrow> Inr None
      | Some s \<Rightarrow> (case read_cursor C s of Inl e \<Rightarrow> Inl InvalidArgument | Inr k \<Rightarrow> Inr (Some k)))"

definition keyset_page ::
  "codec \<Rightarrow> ('a \<Rightarrow> instant \<times> uuid) \<Rightarrow> 'a list \<Rightarrow> page_request \<Rightarrow> signal_error_kind + 'a page" where
  "keyset_page C key rows req =
     (case request_position C req of
        Inl e \<Rightarrow> Inl e
      | Inr c \<Rightarrow>
          (let fetched = keyset_rows key rows c (limit_plus_one req);
               size = clamped_page_size req
           in if size < length fetched then
                (case write_cursor C (key (fetched ! (size - 1))) of
                   Inl e \<Rightarrow> Inl Internal
                 | Inr s \<Rightarrow> Inr \<lparr>page_items = take size fetched, page_next_cursor = Some s\<rparr>)
              else Inr \<lparr>page_items = fetched, page_next_cursor = None\<rparr>))"

text \<open>The loop of the callers: request a page, take its items, go on at its cursor until there
  is none. \<open>None\<close> is a loop that does not end.\<close>

partial_function (option) follow_pages ::
  "(page_request \<Rightarrow> 'e + 'a page) \<Rightarrow> page_request \<Rightarrow> ('e + 'a list) option" where
  "follow_pages fetch req =
     (case fetch req of
        Inl e \<Rightarrow> Some (Inl e)
      | Inr p \<Rightarrow>
          (case page_next_cursor p of
             None \<Rightarrow> Some (Inr (page_items p))
           | Some s \<Rightarrow>
               do {
                 rest \<leftarrow> follow_pages fetch (with_cursor req s);
                 Some (case rest of Inl e \<Rightarrow> Inl e | Inr xs \<Rightarrow> Inr (page_items p @ xs))
               }))"

subsection \<open>The rows after a key\<close>

lemma sorted_filter_greater:
  assumes "sorted (map f ys)" "distinct (map f ys)" "n < length ys"
  shows "filter (\<lambda>r. f (ys ! n) < f r) ys = drop (Suc n) ys"
proof -
  have "ys = take (Suc n) ys @ drop (Suc n) ys" by simp
  moreover have "filter (\<lambda>r. f (ys ! n) < f r) (take (Suc n) ys) = []"
  proof (rule filter_False, rule ballI)
    fix x assume "x \<in> set (take (Suc n) ys)"
    then obtain i where "i \<le> n" "x = ys ! i"
      using assms(3) by (auto simp: in_set_conv_nth less_Suc_eq_le)
    then have "f x \<le> f (ys ! n)"
      using sorted_nth_mono [OF assms(1), of i n] assms(3) by simp
    then show "\<not> f (ys ! n) < f x" by simp
  qed
  moreover have "filter (\<lambda>r. f (ys ! n) < f r) (drop (Suc n) ys) = drop (Suc n) ys"
  proof (rule filter_True, rule ballI)
    fix x assume "x \<in> set (drop (Suc n) ys)"
    then obtain j where "j < length (drop (Suc n) ys)" "drop (Suc n) ys ! j = x"
      by (auto simp only: in_set_conv_nth)
    then have j: "Suc n + j < length ys" "x = ys ! (Suc n + j)" by auto
    have "f (ys ! n) \<le> f x"
      using sorted_nth_mono [OF assms(1), of n "Suc n + j"] j by simp
    moreover have "f (ys ! n) \<noteq> f x"
      using nth_eq_iff_index_eq [OF assms(2), of n "Suc n + j"] j assms(3) by simp
    ultimately show "f (ys ! n) < f x" by simp
  qed
  ultimately show ?thesis by (metis append_Nil filter_append)
qed

lemma rows_after_props:
  assumes "distinct (map key rows)"
  shows "set (rows_after key rows c) = {r \<in> set rows. case c of None \<Rightarrow> True | Some k \<Rightarrow> k < key r}"
    and "sorted (map key (rows_after key rows c))" and "distinct (map key (rows_after key rows c))"
proof -
  have "distinct (map key (filter P rows))" for P
    by (rule distinct_map_filter [OF assms])
  then show "distinct (map key (rows_after key rows c))"
    unfolding rows_after_def by (metis distinct_map distinct_sort set_sort)
qed (auto simp: rows_after_def sorted_sort_key)

text \<open>The rows after the last row of a page are the rest of the rows the page was taken from.\<close>

lemma rows_after_next:
  assumes "distinct (map key rows)" and "n < length (rows_after key rows c)"
  shows "rows_after key rows (Some (key (rows_after key rows c ! n))) = drop (Suc n) (rows_after key rows c)"
proof -
  let ?L = "rows_after key rows c" and ?k = "key (rows_after key rows c ! n)"
  note L = rows_after_props [OF assms(1), where c = c]
  have above: "case c of None \<Rightarrow> True | Some k \<Rightarrow> k < ?k"
    using L(1) nth_mem [OF assms(2)] by auto
  have "filter (\<lambda>r. ?k < key r) rows
      = filter (\<lambda>r. ?k < key r) (filter (\<lambda>r. case c of None \<Rightarrow> True | Some k \<Rightarrow> k < key r) rows)"
    using above by (cases c) (auto intro!: filter_cong)
  then have "rows_after key rows (Some ?k) = filter (\<lambda>r. ?k < key r) ?L"
    by (simp add: rows_after_def filter_sort)
  also have "\<dots> = drop (Suc n) ?L"
    by (rule sorted_filter_greater [OF L(2,3) assms(2)])
  finally show ?thesis .
qed

subsection \<open>Following the cursors\<close>

text \<open>\<open>key_ok\<close>: the keys of the listing can be written as cursors and are pairwise different (the
  identifier is the table's primary key).\<close>

definition key_ok :: "codec \<Rightarrow> ('a \<Rightarrow> instant \<times> uuid) \<Rightarrow> 'a list \<Rightarrow> bool" where
  "key_ok C key rows \<longleftrightarrow>
     distinct (map key rows) \<and>
     list_all (\<lambda>r. length (snd (key r)) = 16 \<and> format_rfc3339 C (fst (key r)) \<noteq> None) rows"

lemma key_okD: "key_ok C key rows \<Longrightarrow> r \<in> set rows \<Longrightarrow>
    length (snd (key r)) = 16 \<and> format_rfc3339 C (fst (key r)) \<noteq> None"
  by (auto simp: key_ok_def list_all_iff)

lemma keyset_page_eq:
  assumes laws: "cursor_laws C" and ok: "key_ok C key rows"
    and size: "clamped_page_size req = Suc k" and pos: "request_position C req = Inr c"
  shows "if Suc k < length (rows_after key rows c)
         then \<exists>s. keyset_page C key rows req
                = Inr \<lparr>page_items = take (Suc k) (rows_after key rows c), page_next_cursor = Some s\<rparr>
              \<and> read_cursor C s = Inr (key (rows_after key rows c ! k))
         else keyset_page C key rows req
                = Inr \<lparr>page_items = rows_after key rows c, page_next_cursor = None\<rparr>"
proof (cases "Suc k < length (rows_after key rows c)")
  case True
  let ?last = "rows_after key rows c ! k"
  have "?last \<in> set rows"
    using rows_after_props(1) [of key rows c] ok nth_mem [of k "rows_after key rows c"] True
    by (auto simp: key_ok_def)
  then obtain s where "write_cursor C (key ?last) = Inr s" "read_cursor C s = Inr (key ?last)"
    using cursor_roundtrip [OF laws, of "snd (key ?last)" "fst (key ?last)"] key_okD [OF ok]
    by auto
  then show ?thesis
    using True size pos by (simp add: keyset_page_def keyset_rows_def limit_plus_one_def Let_def min_absorb2)
next
  case False
  then show ?thesis
    using size pos by (simp add: keyset_page_def keyset_rows_def limit_plus_one_def Let_def)
qed

lemma request_position_cursor:
  "req_cursor req = None \<Longrightarrow> request_position C req = Inr None"
  "read_cursor C s = Inr k \<Longrightarrow> request_position C (with_cursor req s) = Inr (Some k)"
  by (simp_all add: request_position_def with_cursor_def)

lemma with_cursor_simps [simp]:
  "req_cursor (with_cursor r s) = Some s"
  "clamped_page_size (with_cursor r s) = clamped_page_size r"
  by (simp_all add: with_cursor_def clamped_page_size_def)

lemma follow_pages_from:
  assumes laws: "cursor_laws C" and ok: "key_ok C key rows"
    and "clamped_page_size req = Suc k" and "request_position C req = Inr c"
  shows "follow_pages (keyset_page C key rows) req = Some (Inr (rows_after key rows c))"
  using assms(3,4)
proof (induction "length (rows_after key rows c)" arbitrary: c req rule: less_induct)
  case less
  let ?L = "rows_after key rows c"
  have dist: "distinct (map key rows)" using ok by (simp add: key_ok_def)
  note page = keyset_page_eq [OF laws ok less.prems]
  show ?case
  proof (cases "Suc k < length ?L")
    case True
    then obtain s where s: "keyset_page C key rows req
          = Inr \<lparr>page_items = take (Suc k) ?L, page_next_cursor = Some s\<rparr>"
        "read_cursor C s = Inr (key (?L ! k))"
      using page by auto
    have rest: "rows_after key rows (Some (key (?L ! k))) = drop (Suc k) ?L"
      using True by (intro rows_after_next [OF dist]) simp
    have "follow_pages (keyset_page C key rows) (with_cursor req s) = Some (Inr (drop (Suc k) ?L))"
      using less.hyps [OF _ _ request_position_cursor(2) [OF s(2)]] rest True less.prems(1) by simp
    then show ?thesis
      using s(1) by (subst follow_pages.simps) simp
  next
    case False
    then show ?thesis
      using page by (subst follow_pages.simps) simp
  qed
qed

lemma clamped_pos: "\<exists>k. clamped_page_size req = Suc k"
  by (rule exI [of _ "clamped_page_size req - 1"]) (simp add: clamped_page_size_def max_page_size_def)

theorem follow_pages_listing:
  assumes "cursor_laws C" and "key_ok C key rows" and "req_cursor req = None"
  shows "follow_pages (keyset_page C key rows) req = Some (Inr (sort_key key rows))"
  using follow_pages_from [OF assms(1,2) _ request_position_cursor(1) [OF assms(3)]] clamped_pos [of req]
  by (auto simp: rows_after_def)

section \<open>An instance of the parameters\<close>

text \<open>A codec with the laws above, for evaluation: instants in decimal, identifiers as they are,
  a cursor as its fields in a row, columns with microseconds.\<close>

definition sample_codec :: codec where
  "sample_codec =
     \<lparr>min_instant = 0, max_instant = 10 ^ 40,
      format_rfc3339 = (\<lambda>t. if 0 \<le> t \<and> t < 10 ^ 40 then Some (nat_to_dec (nat t)) else None),
      read_rfc3339 = (\<lambda>s. map_option int (parse_uint (10 ^ 40) s)),
      uuid_to_string = (\<lambda>i. i),
      uuid_parse_str = (\<lambda>s. if length s = 16 then Some s else None),
      cursor_to_json = (\<lambda>c. Some (cursor_updated_at c @ ''|'' @ cursor_id c @ cursor_checksum c)),
      cursor_from_json = (\<lambda>s. map_option (\<lambda>(u, r).
         \<lparr>cursor_version = 1, cursor_updated_at = u, cursor_id = take 16 r, cursor_checksum = drop 16 r\<rparr>)
         (split_once (CHR ''|'') s)),
      sha256_base64 = (\<lambda>s. ''0''),
      timestamptz = (\<lambda>t. 1000 * (t div 1000))\<rparr>"

lemma length_nat_to_dec: "n < 10 ^ k \<Longrightarrow> 0 < k \<Longrightarrow> length (nat_to_dec n) \<le> k"
proof (induction n arbitrary: k rule: nat_to_dec.induct)
  case (1 n)
  show ?case
  proof (cases "n < 10")
    case False
    then obtain j where j: "k = Suc j" "0 < j"
      using "1.prems" by (cases k; cases "k - 1") auto
    then have "n div 10 < 10 ^ j"
      using "1.prems" by (simp add: less_mult_imp_div_less mult.commute)
    then show ?thesis
      using False "1.IH" [OF False] j by (subst nat_to_dec.simps) simp
  qed (use "1.prems" in \<open>subst nat_to_dec.simps; simp\<close>)
qed

lemma sample_codec_laws: "cursor_laws sample_codec" "column_laws sample_codec"
proof -
  have "length (nat_to_dec (nat t)) \<le> 64" if "0 \<le> t" "t < 10 ^ 40" for t
  proof -
    have "nat t < 10 ^ 40" using that by (simp add: nat_less_iff)
    then show ?thesis using length_nat_to_dec [of "nat t" 40] by simp
  qed
  note len = this
  have json: "\<exists>s. cursor_to_json sample_codec c = Some s \<and> length s \<le> max_cursor_bytes \<and>
      cursor_from_json sample_codec s = Some c"
    if "length i = 16" "list_cursor_new sample_codec t i = Inr c" for t i c
  proof -
    have t: "0 \<le> t" "t < 10 ^ 40" and c: "c = \<lparr>cursor_version = 1, cursor_updated_at = nat_to_dec (nat t),
        cursor_id = i, cursor_checksum = ''0''\<rparr>"
      using that(2) by (auto simp: list_cursor_new_def sample_codec_def compute_checksum_def
          cursor_format_version_def Let_def split: if_splits)
    have "CHR ''|'' \<notin> set (nat_to_dec (nat t))"
      by (rule nat_to_dec_notin) (simp add: is_ascii_digit_def)
    then show ?thesis
      using that(1) len [OF t] by (simp add: c sample_codec_def max_cursor_bytes_def)
  qed
  show "cursor_laws sample_codec"
    unfolding cursor_laws_def
  proof (intro conjI allI impI)
    fix t u assume "format_rfc3339 sample_codec t = Some u"
    then have "0 \<le> t" "t < 10 ^ 40" "u = nat_to_dec (nat t)"
      by (auto simp: sample_codec_def split: if_splits)
    then show "length u \<le> max_rfc3339_bytes" "read_rfc3339 sample_codec u = Some t"
      using len [of t] by (simp_all add: sample_codec_def max_rfc3339_bytes_def)
  qed (use json in \<open>simp_all add: sample_codec_def\<close>)
  show "column_laws sample_codec"
    by (auto simp: column_laws_def sample_codec_def intro: zdiv_mono1)
qed

end
