(* ===== verification/ClusterNodes.thy ===== *)
theory ClusterNodes
  imports Pagination
begin

text \<open>
  Cluster membership: the node record (\<open>cheetah-domain/src/node.rs\<close>), the table
  \<open>cluster_nodes\<close> with the statements of \<open>cheetah-storage-postgres/src/node.rs\<close>, the
  compatibility matrix and the lease service of \<open>cheetah-cluster-registry\<close>.

  The table is keyed by its primary key; a call of the repository is one atomic step on it, and a
  failing connection is not modelled. \<open>semver\<close> is a parameter: how a version and a requirement
  parse and when they match. The main result is that at most one process of a node can renew the
  node's lease at any time, and that it is one whose registration no other has followed.
\<close>

section \<open>The node record\<close>

record cluster_node =
  node_id :: uuid
  node_instance :: uuid
  node_zone :: string
  node_version :: string
  contract_versions :: "(string, string) table"
  started_at :: instant
  node_lease_until :: instant
  node_updated_at :: instant
  max_devices :: nat
  load_devices :: nat
  draining :: bool

definition cluster_node_new :: "uuid \<Rightarrow> uuid \<Rightarrow> string \<Rightarrow> string \<Rightarrow> instant \<Rightarrow> cluster_node" where
  "cluster_node_new n i z v t =
     \<lparr>node_id = n, node_instance = i, node_zone = z, node_version = v, contract_versions = [],
      started_at = t, node_lease_until = t, node_updated_at = t, max_devices = 0,
      load_devices = 0, draining = False\<rparr>"

definition node_is_alive :: "cluster_node \<Rightarrow> instant \<Rightarrow> bool" where
  "node_is_alive n now \<longleftrightarrow> now < node_lease_until n"

definition node_extend_lease :: "codec \<Rightarrow> instant \<Rightarrow> int \<Rightarrow> cluster_node \<Rightarrow> cluster_node option" where
  "node_extend_lease C now ms n =
     (case utc_checked_add C now ms of
        None \<Rightarrow> None
      | Some t \<Rightarrow> Some (n\<lparr>node_lease_until := t, node_updated_at := now\<rparr>))"

section \<open>The table of nodes\<close>

type_synonym node_table = "(uuid, cluster_node) table"

definition stored_node :: "codec \<Rightarrow> cluster_node \<Rightarrow> cluster_node" where
  "stored_node C n =
     n\<lparr>started_at := timestamptz C (started_at n),
       node_lease_until := timestamptz C (node_lease_until n),
       node_updated_at := timestamptz C (node_updated_at n)\<rparr>"

definition node_register :: "codec \<Rightarrow> cluster_node \<Rightarrow> node_table \<Rightarrow> node_table" where
  "node_register C n tab = AList.update (node_id n) (stored_node C n) tab"

definition node_heartbeat ::
  "codec \<Rightarrow> uuid \<Rightarrow> uuid \<Rightarrow> instant \<Rightarrow> instant \<Rightarrow> nat \<Rightarrow> node_table \<Rightarrow> node_table \<times> cluster_node option" where
  "node_heartbeat C nid iid lease upd load tab =
     (case map_of tab nid of
        None \<Rightarrow> (tab, None)
      | Some n \<Rightarrow>
          if node_instance n = iid then
            (let tab' = AList.update nid
                   (n\<lparr>node_lease_until := timestamptz C lease, node_updated_at := timestamptz C upd,
                      load_devices := load\<rparr>) tab
             in (tab', map_of tab' nid))
          else (tab, None))"

definition node_get :: "uuid \<Rightarrow> node_table \<Rightarrow> cluster_node option" where
  "node_get nid tab = map_of tab nid"

definition node_key :: "cluster_node \<Rightarrow> instant \<times> uuid" where
  "node_key n = (node_updated_at n, node_id n)"

definition alive_rows :: "codec \<Rightarrow> instant \<Rightarrow> node_table \<Rightarrow> cluster_node list" where
  "alive_rows C now tab = filter (\<lambda>n. timestamptz C now < node_lease_until n) (map snd tab)"

definition list_alive ::
  "codec \<Rightarrow> node_table \<Rightarrow> instant \<Rightarrow> page_request \<Rightarrow> signal_error_kind + cluster_node page" where
  "list_alive C tab now req = keyset_page C node_key (alive_rows C now tab) req"

definition node_mark_draining ::
  "codec \<Rightarrow> uuid \<Rightarrow> uuid \<Rightarrow> instant \<Rightarrow> node_table \<Rightarrow> node_table \<times> bool" where
  "node_mark_draining C nid iid upd tab =
     (case map_of tab nid of
        None \<Rightarrow> (tab, False)
      | Some n \<Rightarrow>
          if node_instance n = iid
          then (AList.update nid (n\<lparr>draining := True, node_updated_at := timestamptz C upd\<rparr>) tab, True)
          else (tab, False))"

text \<open>Primary key and column resolution.\<close>

definition wf_nodes :: "codec \<Rightarrow> node_table \<Rightarrow> bool" where
  "wf_nodes C tab \<longleftrightarrow>
     wf_table tab \<and>
     (\<forall>(k, n) \<in> set tab. node_id n = k \<and> timestamptz C (node_lease_until n) = node_lease_until n \<and>
        timestamptz C (node_updated_at n) = node_updated_at n)"

lemma wf_nodes_Nil [simp]: "wf_nodes C []"
  by (simp add: wf_nodes_def)

lemma wf_nodesD:
  assumes "wf_nodes C tab" and "map_of tab k = Some n"
  shows "node_id n = k" "timestamptz C (node_lease_until n) = node_lease_until n"
    "timestamptz C (node_updated_at n) = node_updated_at n"
  using assms(1) map_of_SomeD [OF assms(2)] unfolding wf_nodes_def by blast+

lemma wf_nodes_update:
  assumes "wf_nodes C tab" and "node_id n = k" and "timestamptz C (node_lease_until n) = node_lease_until n"
    and "timestamptz C (node_updated_at n) = node_updated_at n"
  shows "wf_nodes C (AList.update k n tab)"
proof -
  have "wf_table (AList.update k n tab)"
    using assms(1) by (simp add: wf_nodes_def table_simps)
  moreover have "node_id m = j \<and> timestamptz C (node_lease_until m) = node_lease_until m \<and>
      timestamptz C (node_updated_at m) = node_updated_at m"
    if "(j, m) \<in> set (AList.update k n tab)" for j m
  proof -
    have "(j, m) = (k, n) \<or> (j, m) \<in> set tab"
      using that set_table_update [of k n tab] by blast
    then show ?thesis
      using assms unfolding wf_nodes_def by blast
  qed
  ultimately show ?thesis by (auto simp: wf_nodes_def)
qed

lemma wf_node_register:
  assumes "column_laws C" and "wf_nodes C tab"
  shows "wf_nodes C (node_register C n tab)"
  unfolding node_register_def
  by (rule wf_nodes_update [OF assms(2)]) (simp_all add: stored_node_def column_lawsD(2) [OF assms(1)])

lemma wf_node_heartbeat:
  assumes "column_laws C" and "wf_nodes C tab"
  shows "wf_nodes C (fst (node_heartbeat C nid iid lease upd load tab))"
proof (cases "map_of tab nid")
  case (Some n)
  note n = wf_nodesD [OF assms(2) Some]
  have "wf_nodes C (AList.update nid (n\<lparr>node_lease_until := timestamptz C lease,
      node_updated_at := timestamptz C upd, load_devices := load\<rparr>) tab)"
    by (rule wf_nodes_update [OF assms(2)]) (simp_all add: n column_lawsD(2) [OF assms(1)])
  then show ?thesis
    using assms(2) Some by (simp add: node_heartbeat_def Let_def)
qed (use assms in \<open>simp add: node_heartbeat_def\<close>)

lemma wf_node_mark_draining:
  assumes "column_laws C" and "wf_nodes C tab"
  shows "wf_nodes C (fst (node_mark_draining C nid iid upd tab))"
proof (cases "map_of tab nid")
  case (Some n)
  note n = wf_nodesD [OF assms(2) Some]
  have "wf_nodes C (AList.update nid (n\<lparr>draining := True, node_updated_at := timestamptz C upd\<rparr>) tab)"
    by (rule wf_nodes_update [OF assms(2)]) (simp_all add: n column_lawsD(2) [OF assms(1)])
  then show ?thesis
    using assms(2) Some by (simp add: node_mark_draining_def)
qed (use assms in \<open>simp add: node_mark_draining_def\<close>)

text \<open>The instance a node's row belongs to.\<close>

definition row_instance :: "node_table \<Rightarrow> uuid \<Rightarrow> uuid option" where
  "row_instance tab nid = map_option node_instance (map_of tab nid)"

lemma row_instance_register [simp]:
  "row_instance (node_register C n tab) = (row_instance tab)(node_id n \<mapsto> node_instance n)"
  by (auto simp: row_instance_def node_register_def stored_node_def table_simps fun_eq_iff)

lemma row_instance_heartbeat [simp]:
  "row_instance (fst (node_heartbeat C nid iid lease upd load tab)) = row_instance tab"
  by (auto simp: row_instance_def node_heartbeat_def Let_def table_simps fun_eq_iff split: option.splits)

lemma row_instance_mark_draining [simp]:
  "row_instance (fst (node_mark_draining C nid iid upd tab)) = row_instance tab"
  by (auto simp: row_instance_def node_mark_draining_def table_simps fun_eq_iff split: option.splits)

lemma node_heartbeat_Some_iff:
  "snd (node_heartbeat C nid iid lease upd load tab) \<noteq> None \<longleftrightarrow> row_instance tab nid = Some iid"
  by (auto simp: row_instance_def node_heartbeat_def Let_def table_simps split: option.splits)

lemma node_mark_draining_iff:
  "snd (node_mark_draining C nid iid upd tab) \<longleftrightarrow> row_instance tab nid = Some iid"
  by (auto simp: row_instance_def node_mark_draining_def split: option.splits)

section \<open>Compatibility matrix\<close>

record ('v, 'r) semver =
  version_parse :: "string \<Rightarrow> 'v option"
  version_req_parse :: "string \<Rightarrow> 'r option"
  version_req_star :: 'r
  version_matches :: "'r \<Rightarrow> 'v \<Rightarrow> bool"

record 'r compat_matrix =
  binary_version_range :: 'r
  required_contracts :: "(string, 'r) table"

datatype compat_error =
    InvalidBinaryVersion
  | BinaryVersionOutOfRange
  | MissingContract string
  | InvalidContractVersion string
  | ContractVersionOutOfRange string
  | CompatInvalidArgument

definition max_version_bytes :: nat where "max_version_bytes = 128"
definition max_contracts :: nat where "max_contracts = 64"

definition parse_req :: "('v, 'r) semver \<Rightarrow> string \<Rightarrow> 'r option" where
  "parse_req S s =
     (if list_all (\<lambda>c. is_ascii_digit c \<or> c = CHR ''.'') s
      then version_req_parse S (''='' @ s)
      else version_req_parse S s)"

fun parse_contracts ::
  "('v, 'r) semver \<Rightarrow> (string \<times> string) list \<Rightarrow> (string, 'r) table \<Rightarrow> compat_error + (string, 'r) table" where
  "parse_contracts S [] acc = Inr acc"
| "parse_contracts S ((name, req) # rest) acc =
     (if max_version_bytes < length name then Inl CompatInvalidArgument
      else if max_version_bytes < length req then Inl CompatInvalidArgument
      else case parse_req S req of
        None \<Rightarrow> Inl (InvalidContractVersion name)
      | Some r \<Rightarrow> parse_contracts S rest (AList.update name r acc))"

definition compat_new ::
  "('v, 'r) semver \<Rightarrow> string \<Rightarrow> (string, string) table \<Rightarrow> compat_error + 'r compat_matrix" where
  "compat_new S rng contracts =
     (if max_version_bytes < length rng then Inl CompatInvalidArgument
      else if max_contracts < length contracts then Inl CompatInvalidArgument
      else case parse_req S rng of
        None \<Rightarrow> Inl InvalidBinaryVersion
      | Some r \<Rightarrow>
          (case parse_contracts S contracts [] of
             Inl e \<Rightarrow> Inl e
           | Inr cs \<Rightarrow> Inr \<lparr>binary_version_range = r, required_contracts = cs\<rparr>))"

definition compat_permissive :: "('v, 'r) semver \<Rightarrow> 'r compat_matrix" where
  "compat_permissive S = \<lparr>binary_version_range = version_req_star S, required_contracts = []\<rparr>"

fun check_contracts ::
  "('v, 'r) semver \<Rightarrow> (string \<times> 'r) list \<Rightarrow> (string, string) table \<Rightarrow> compat_error option" where
  "check_contracts S [] have_versions = None"
| "check_contracts S ((contract, req) # rest) have_versions =
     (case map_of have_versions contract of
        None \<Rightarrow> Some (MissingContract contract)
      | Some v \<Rightarrow>
          if max_version_bytes < length v then Some CompatInvalidArgument
          else case version_parse S v of
            None \<Rightarrow> Some (InvalidContractVersion contract)
          | Some ver \<Rightarrow>
              if \<not> version_matches S req ver then Some (ContractVersionOutOfRange contract)
              else check_contracts S rest have_versions)"

definition compat_check ::
  "('v, 'r) semver \<Rightarrow> 'r compat_matrix \<Rightarrow> string \<Rightarrow> (string, string) table \<Rightarrow> compat_error option" where
  "compat_check S M v contracts =
     (if max_version_bytes < length v then Some CompatInvalidArgument
      else if max_contracts < length contracts then Some CompatInvalidArgument
      else
        case (if binary_version_range M \<noteq> version_req_star S then
                (case version_parse S v of
                   None \<Rightarrow> Some InvalidBinaryVersion
                 | Some ver \<Rightarrow>
                     if \<not> version_matches S (binary_version_range M) ver
                     then Some BinaryVersionOutOfRange else None)
              else None) of
          Some e \<Rightarrow> Some e
        | None \<Rightarrow> check_contracts S (required_contracts M) contracts)"

text \<open>What passing the check means.\<close>

lemma check_contracts_None_iff:
  "check_contracts S reqs vs = None \<longleftrightarrow>
     (\<forall>(c, r) \<in> set reqs. \<exists>v ver. map_of vs c = Some v \<and> length v \<le> max_version_bytes \<and>
        version_parse S v = Some ver \<and> version_matches S r ver)"
  by (induction S reqs vs rule: check_contracts.induct) (auto split: option.splits)

lemma compat_check_None_iff:
  "compat_check S M v vs = None \<longleftrightarrow>
     length v \<le> max_version_bytes \<and> length vs \<le> max_contracts \<and>
     (binary_version_range M = version_req_star S \<or>
       (\<exists>ver. version_parse S v = Some ver \<and> version_matches S (binary_version_range M) ver)) \<and>
     (\<forall>(c, r) \<in> set (required_contracts M). \<exists>u ver. map_of vs c = Some u \<and>
        length u \<le> max_version_bytes \<and> version_parse S u = Some ver \<and> version_matches S r ver)"
  by (auto simp: compat_check_def check_contracts_None_iff split: option.splits)

section \<open>The lease service\<close>

datatype node_lease_error =
    NodeStorage | NodeInvalidArgument | NodeLeaseOverflow | NotRegistered | NodeFenced
  | Incompatible compat_error

record 'r lease_service =
  this_node :: uuid
  service_zone :: string
  service_version :: string
  node_lease_ms :: int
  compatibility :: "'r compat_matrix"
  instance_id :: "uuid option"

definition max_zone_bytes :: nat where "max_zone_bytes = 256"

definition valid_registration :: "'r lease_service \<Rightarrow> (string, string) table \<Rightarrow> bool" where
  "valid_registration s contracts \<longleftrightarrow>
     length (service_zone s) \<le> max_zone_bytes \<and> length (service_version s) \<le> max_version_bytes \<and>
     length contracts \<le> max_contracts \<and>
     list_all (\<lambda>(name, v). length name \<le> max_version_bytes \<and> length v \<le> max_version_bytes) contracts"

text \<open>\<open>fresh\<close> is what \<open>generate_node_instance_id\<close> returns.\<close>

definition service_register ::
  "codec \<Rightarrow> ('v, 'r) semver \<Rightarrow> instant \<Rightarrow> uuid \<Rightarrow> nat \<Rightarrow> (string, string) table \<Rightarrow>
   'r lease_service \<Rightarrow> node_table \<Rightarrow> ('r lease_service \<times> node_table) \<times> (node_lease_error + cluster_node)" where
  "service_register C S now fresh capacity contracts s tab =
     (if \<not> valid_registration s contracts then ((s, tab), Inl NodeInvalidArgument)
      else case compat_check S (compatibility s) (service_version s) contracts of
        Some e \<Rightarrow> ((s, tab), Inl (Incompatible e))
      | None \<Rightarrow>
          (case utc_checked_add C now (node_lease_ms s) of
             None \<Rightarrow> ((s, tab), Inl NodeLeaseOverflow)
           | Some lease \<Rightarrow>
               (let n = (cluster_node_new (this_node s) fresh (service_zone s) (service_version s) now)
                          \<lparr>node_lease_until := lease, node_updated_at := now, max_devices := capacity,
                           contract_versions := contracts\<rparr>
                in ((s\<lparr>instance_id := Some fresh\<rparr>, node_register C n tab), Inr n))))"

definition service_heartbeat ::
  "codec \<Rightarrow> instant \<Rightarrow> nat \<Rightarrow> 'r lease_service \<Rightarrow> node_table \<Rightarrow> node_table \<times> (node_lease_error + cluster_node)" where
  "service_heartbeat C now load s tab =
     (case instance_id s of
        None \<Rightarrow> (tab, Inl NotRegistered)
      | Some iid \<Rightarrow>
          (case utc_checked_add C now (node_lease_ms s) of
             None \<Rightarrow> (tab, Inl NodeLeaseOverflow)
           | Some lease \<Rightarrow>
               (let (tab', r) = node_heartbeat C (this_node s) iid lease now load tab
                in (tab', case r of Some n \<Rightarrow> Inr n | None \<Rightarrow> Inl NodeFenced))))"

definition service_mark_draining ::
  "codec \<Rightarrow> instant \<Rightarrow> 'r lease_service \<Rightarrow> node_table \<Rightarrow> node_table \<times> (node_lease_error + unit)" where
  "service_mark_draining C now s tab =
     (case instance_id s of
        None \<Rightarrow> (tab, Inl NotRegistered)
      | Some iid \<Rightarrow>
          (let (tab', ok) = node_mark_draining C (this_node s) iid now tab
           in (tab', if ok then Inr () else Inl NodeFenced)))"

definition registered_node :: "'r lease_service \<Rightarrow> node_table \<Rightarrow> cluster_node option" where
  "registered_node s tab = node_get (this_node s) tab"

subsection \<open>Processes of a cluster\<close>

text \<open>Processes, by number, sharing the table; each has its own service.\<close>

datatype node_op =
    RegisterProcess nat instant uuid nat "(string, string) table"
  | HeartbeatProcess nat instant nat
  | DrainProcess nat instant

type_synonym 'r cluster = "'r lease_service list \<times> node_table"

fun node_step :: "codec \<Rightarrow> ('v, 'r) semver \<Rightarrow> node_op \<Rightarrow> 'r cluster \<Rightarrow> 'r cluster" where
  "node_step C S (RegisterProcess p now fresh cap contracts) (ss, tab) =
     (if p < length ss then
        (let ((s, tab'), r) = service_register C S now fresh cap contracts (ss ! p) tab
         in (ss[p := s], tab'))
      else (ss, tab))"
| "node_step C S (HeartbeatProcess p now load) (ss, tab) =
     (if p < length ss then (ss, fst (service_heartbeat C now load (ss ! p) tab)) else (ss, tab))"
| "node_step C S (DrainProcess p now) (ss, tab) =
     (if p < length ss then (ss, fst (service_mark_draining C now (ss ! p) tab)) else (ss, tab))"

definition node_run :: "codec \<Rightarrow> ('v, 'r) semver \<Rightarrow> node_op list \<Rightarrow> 'r cluster \<Rightarrow> 'r cluster" where
  "node_run C S ops st = fold (node_step C S) ops st"

fun fresh_ids :: "node_op list \<Rightarrow> uuid list" where
  "fresh_ids [] = []"
| "fresh_ids (RegisterProcess p now fresh cap contracts # ops) = fresh # fresh_ids ops"
| "fresh_ids (_ # ops) = fresh_ids ops"

lemma node_run_simps [simp]:
  "node_run C S [] st = st"
  "node_run C S (x # ops) st = node_run C S ops (node_step C S x st)"
  "node_run C S (ops @ ops') st = node_run C S ops' (node_run C S ops st)"
  by (simp_all add: node_run_def)

text \<open>The identifiers of the services are pairwise different and none is still to be generated.\<close>

definition ids_ok :: "'r lease_service list \<Rightarrow> uuid set \<Rightarrow> bool" where
  "ids_ok ss future \<longleftrightarrow>
     (\<forall>p < length ss. \<forall>i. instance_id (ss ! p) = Some i \<longrightarrow> i \<notin> future) \<and>
     (\<forall>p < length ss. \<forall>q < length ss. \<forall>i. instance_id (ss ! p) = Some i \<longrightarrow>
        instance_id (ss ! q) = Some i \<longrightarrow> p = q)"

lemma service_register_cases:
  obtains (failed) e where "service_register C S now fresh cap contracts s tab = ((s, tab), Inl e)"
  | (stored) n where "service_register C S now fresh cap contracts s tab
        = ((s\<lparr>instance_id := Some fresh\<rparr>, node_register C n tab), Inr n)"
      and "node_id n = this_node s" "node_instance n = fresh"
  by (cases "valid_registration s contracts";
      cases "compat_check S (compatibility s) (service_version s) contracts";
      cases "utc_checked_add C now (node_lease_ms s)")
    (auto simp: service_register_def cluster_node_new_def Let_def)

lemma node_step_services:
  "length (fst (node_step C S op st)) = length (fst st)"
  "p < length (fst st) \<Longrightarrow> this_node (fst (node_step C S op st) ! p) = this_node (fst st ! p)"
proof -
  have "length (fst (node_step C S op st)) = length (fst st) \<and>
    (p < length (fst st) \<longrightarrow> this_node (fst (node_step C S op st) ! p) = this_node (fst st ! p))"
  proof (cases st; cases op)
    fix ss tab r now fresh cap contracts
    assume st: "st = (ss, tab)" and op: "op = RegisterProcess r now fresh cap contracts"
    show ?thesis
      unfolding st op
      by (rule service_register_cases [of C S now fresh cap contracts "ss ! r" tab])
        (auto simp: nth_list_update)
  qed auto
  then show "length (fst (node_step C S op st)) = length (fst st)"
    "p < length (fst st) \<Longrightarrow> this_node (fst (node_step C S op st) ! p) = this_node (fst st ! p)"
    by auto
qed

lemma ids_ok_mono: "ids_ok ss A \<Longrightarrow> B \<subseteq> A \<Longrightarrow> ids_ok ss B"
  unfolding ids_ok_def by blast

lemma ids_ok_update:
  assumes "ids_ok ss (insert i A)" and "i \<notin> A" and "instance_id s = Some i"
  shows "ids_ok (ss[p := s]) A"
proof -
  have new: "instance_id (ss ! q) \<noteq> Some i" if "q < length ss" for q
    using assms(1) that unfolding ids_ok_def by blast
  show ?thesis
  proof (cases "p < length ss")
    case True
    then show ?thesis
      using assms new unfolding ids_ok_def by (auto simp: nth_list_update split: if_splits)
  next
    case False
    then show ?thesis
      using ids_ok_mono [OF assms(1), of A] by (simp add: list_update_beyond subset_insertI)
  qed
qed

lemma ids_ok_step:
  assumes "ids_ok (fst st) (set (fresh_ids (op # ops)))" and "distinct (fresh_ids (op # ops))"
  shows "ids_ok (fst (node_step C S op st)) (set (fresh_ids ops))"
proof (cases st; cases op)
  fix ss tab r now fresh cap contracts
  assume st: "st = (ss, tab)" and op: "op = RegisterProcess r now fresh cap contracts"
  have ok: "ids_ok ss (insert fresh (set (fresh_ids ops)))" "fresh \<notin> set (fresh_ids ops)"
    using assms by (simp_all add: st op)
  have "ids_ok ss (set (fresh_ids ops))"
    by (rule ids_ok_mono [OF ok(1)]) auto
  moreover have "ids_ok (ss[r := (ss ! r)\<lparr>instance_id := Some fresh\<rparr>]) (set (fresh_ids ops))"
    by (rule ids_ok_update [OF ok]) simp
  ultimately show ?thesis
    unfolding st op
    by (cases rule: service_register_cases [of C S now fresh cap contracts "ss ! r" tab]) simp_all
qed (use assms in simp_all)

lemma ids_ok_run:
  "ids_ok (fst st) (set (fresh_ids ops)) \<Longrightarrow> distinct (fresh_ids ops) \<Longrightarrow>
   ids_ok (fst (node_run C S ops st)) {}"
proof (induction ops arbitrary: st)
  case (Cons x ops)
  have "ids_ok (fst (node_step C S x st)) (set (fresh_ids ops))"
    using Cons.prems by (rule ids_ok_step)
  moreover have "distinct (fresh_ids ops)"
    using Cons.prems(2) by (cases x) auto
  ultimately show ?case
    using Cons.IH by simp
qed simp

lemma service_heartbeat_ok_iff:
  "(\<exists>n. snd (service_heartbeat C now load s tab) = Inr n) \<longleftrightarrow>
     (\<exists>i. instance_id s = Some i \<and> row_instance tab (this_node s) = Some i) \<and>
     utc_checked_add C now (node_lease_ms s) \<noteq> None"
proof (cases "instance_id s"; cases "utc_checked_add C now (node_lease_ms s)")
  fix i lease
  assume "instance_id s = Some i" "utc_checked_add C now (node_lease_ms s) = Some lease"
  then show ?thesis
    using node_heartbeat_Some_iff [of C "this_node s" i lease now load tab]
    by (cases "snd (node_heartbeat C (this_node s) i lease now load tab)")
      (simp_all add: service_heartbeat_def split_beta)
qed (simp_all add: service_heartbeat_def)

lemma service_steps_row [simp]:
  "row_instance (fst (service_heartbeat C now load s tab)) = row_instance tab"
  "row_instance (fst (service_mark_draining C now s tab)) = row_instance tab"
  by (simp_all add: service_heartbeat_def service_mark_draining_def split_beta split: option.splits)

text \<open>An operation that registers no process of the node.\<close>

fun not_registering :: "'r lease_service list \<Rightarrow> uuid \<Rightarrow> node_op \<Rightarrow> bool" where
  "not_registering ss nid (RegisterProcess p now fresh cap contracts) \<longleftrightarrow>
     p < length ss \<longrightarrow> this_node (ss ! p) \<noteq> nid"
| "not_registering ss nid _ \<longleftrightarrow> True"

lemma node_step_keeps:
  assumes "not_registering (fst st) nid op"
  shows "row_instance (snd (node_step C S op st)) nid = row_instance (snd st) nid \<and>
    (p < length (fst st) \<longrightarrow> this_node (fst st ! p) = nid \<longrightarrow>
       instance_id (fst (node_step C S op st) ! p) = instance_id (fst st ! p))"
proof (cases st; cases op)
  fix ss tab r now fresh cap contracts
  assume st: "st = (ss, tab)" and op: "op = RegisterProcess r now fresh cap contracts"
  show ?thesis
    using assms unfolding st op
    by (cases rule: service_register_cases [of C S now fresh cap contracts "ss ! r" tab])
      (auto simp: nth_list_update)
qed auto

lemma not_registering_step:
  "not_registering (fst (node_step C S op st)) nid = not_registering (fst st) nid"
proof
  fix x show "not_registering (fst (node_step C S op st)) nid x = not_registering (fst st) nid x"
    by (cases x) (auto simp: node_step_services)
qed

lemma node_run_keeps:
  assumes "list_all (not_registering (fst st) nid) ops"
  shows "row_instance (snd (node_run C S ops st)) nid = row_instance (snd st) nid \<and>
    length (fst (node_run C S ops st)) = length (fst st) \<and>
    (p < length (fst st) \<longrightarrow> this_node (fst (node_run C S ops st) ! p) = this_node (fst st ! p) \<and>
      (this_node (fst st ! p) = nid \<longrightarrow>
        instance_id (fst (node_run C S ops st) ! p) = instance_id (fst st ! p)))"
  using assms
proof (induction ops arbitrary: st)
  case (Cons x ops)
  let ?st = "node_step C S x st"
  have "list_all (not_registering (fst ?st) nid) ops"
    using Cons.prems by (simp add: not_registering_step)
  note IH = Cons.IH [OF this]
  have "not_registering (fst st) nid x" using Cons.prems by simp
  note step = node_step_keeps [OF this, where C = C and S = S and p = p] node_step_services [where C = C and S = S and op = x and st = st]
  show ?case
    using IH step by auto
qed simp

lemma node_run_services:
  "length (fst (node_run C S ops st)) = length (fst st) \<and>
   (p < length (fst st) \<longrightarrow> this_node (fst (node_run C S ops st) ! p) = this_node (fst st ! p))"
  by (induction ops arbitrary: st) (auto simp: node_step_services)

text \<open>
  C11. Fencing of node incarnations. In every run of any number of processes that register,
  send heartbeats and drain, where the generated instance identifiers are all different: once a
  process has registered, and until a process of the same node registers again, a heartbeat of a
  process of that node succeeds exactly if it is that process (and its new lease end can be
  represented). Every earlier incarnation is refused, however late its heartbeats arrive.
\<close>

theorem registration_fences:
  assumes ids: "distinct (fresh_ids (ops @ RegisterProcess p now fresh cap contracts # ops'))"
    and init: "list_all (\<lambda>s. instance_id s = None) ss"
    and before: "node_run C S ops (ss, []) = (ss1, tab1)"
    and p: "p < length ss1"
    and registered: "snd (service_register C S now fresh cap contracts (ss1 ! p) tab1) = Inr n"
    and after: "node_run C S (RegisterProcess p now fresh cap contracts # ops') (ss1, tab1) = (ss2, tab2)"
    and others: "list_all (not_registering ss1 (this_node (ss1 ! p))) ops'"
    and q: "q < length ss2" "this_node (ss2 ! q) = this_node (ss1 ! p)"
  shows "(\<exists>m. snd (service_heartbeat C now' load (ss2 ! q) tab2) = Inr m) \<longleftrightarrow>
           q = p \<and> utc_checked_add C now' (node_lease_ms (ss2 ! q)) \<noteq> None"
proof -
  let ?nid = "this_node (ss1 ! p)"
  let ?st = "node_step C S (RegisterProcess p now fresh cap contracts) (ss1, tab1)"
  obtain s' tab' where st: "?st = (ss1[p := s'], tab')" "instance_id s' = Some fresh" "this_node s' = ?nid"
      "row_instance tab' ?nid = Some fresh"
    using p registered
    by (cases rule: service_register_cases [of C S now fresh cap contracts "ss1 ! p" tab1]) auto
  have "list_all (not_registering (fst ?st) ?nid) ops'"
    using others by (simp add: not_registering_step del: node_step.simps)
  note kept = node_run_keeps [OF this, where C = C and S = S]
  have run: "node_run C S ops' ?st = (ss2, tab2)"
    using after by simp
  have len: "length ss2 = length ss1"
    using kept [of p] run st(1) by simp
  have row: "row_instance tab2 ?nid = Some fresh"
    using kept [of p] run st by simp
  have inst: "instance_id (ss2 ! p) = Some fresh"
    using kept [of p] run st p by simp
  have "ids_ok (fst (ss, [])) (set (fresh_ids (ops @ RegisterProcess p now fresh cap contracts # ops')))"
    using init by (simp add: ids_ok_def list_all_length)
  from ids_ok_run [OF this ids, of C S] have "ids_ok ss2 {}"
    using before run by simp
  then have "instance_id (ss2 ! q) = Some fresh \<longleftrightarrow> q = p"
    using inst p q(1) len unfolding ids_ok_def by auto
  then show ?thesis
    using service_heartbeat_ok_iff [of C now' load "ss2 ! q" tab2] row q(2) by auto
qed

definition sample_semver :: "(string, unit) semver" where
  "sample_semver = \<lparr>version_parse = Some, version_req_parse = (\<lambda>s. Some ()), version_req_star = (),
                    version_matches = (\<lambda>r v. True)\<rparr>"

definition sample_process :: "unit lease_service" where
  "sample_process = \<lparr>this_node = ''A'', service_zone = ''z'', service_version = ''1.0.0'', node_lease_ms = 10,
     compatibility = compat_permissive sample_semver, instance_id = None\<rparr>"

lemmas sample_process_simps =
  sample_process_def sample_semver_def sample_codec_def service_register_def service_heartbeat_def
  valid_registration_def compat_check_def compat_permissive_def utc_checked_add_def ns_per_ms_def
  max_zone_bytes_def max_version_bytes_def max_contracts_def cluster_node_new_def Let_def

theorem registration_fences_witness:
  "snd (service_heartbeat sample_codec 3 0
     (fst (node_run sample_codec sample_semver [RegisterProcess 0 0 ''i'' 5 [], RegisterProcess 1 1 ''j'' 5 []]
        ([sample_process, sample_process], [])) ! 0)
     (snd (node_run sample_codec sample_semver [RegisterProcess 0 0 ''i'' 5 [], RegisterProcess 1 1 ''j'' 5 []]
        ([sample_process, sample_process], [])))) = Inl NodeFenced"
proof -
  obtain ss1 tab1 where before: "node_run sample_codec sample_semver [RegisterProcess 0 0 ''i'' 5 []]
      ([sample_process, sample_process], []) = (ss1, tab1)" by fastforce
  obtain ss2 tab2 where after: "node_run sample_codec sample_semver [RegisterProcess 1 1 ''j'' 5 []] (ss1, tab1)
      = (ss2, tab2)" by fastforce
  have ss1: "ss1 = [sample_process\<lparr>instance_id := Some ''i''\<rparr>, sample_process]"
    using before by (auto simp: sample_process_simps)
  have ss2: "ss2 = [sample_process\<lparr>instance_id := Some ''i''\<rparr>, sample_process\<lparr>instance_id := Some ''j''\<rparr>]"
    using after by (auto simp: ss1 sample_process_simps)
  obtain n where "snd (service_register sample_codec sample_semver 1 ''j'' 5 [] (ss1 ! 1) tab1) = Inr n"
    by (simp add: ss1 sample_process_simps)
  from registration_fences [of "[RegisterProcess 0 0 ''i'' 5 []]" 1 1 "''j''" 5 "[]" "[]"
      "[sample_process, sample_process]" sample_codec sample_semver ss1 tab1 n ss2 tab2 0 3 0, OF _ _ before _ this after]
  have "\<nexists>m. snd (service_heartbeat sample_codec 3 0 (ss2 ! 0) tab2) = Inr m"
    by (simp add: ss1 ss2 sample_process_def)
  moreover have "snd (service_heartbeat sample_codec 3 0 (ss2 ! 0) tab2)
      = (case snd (node_heartbeat sample_codec ''A'' ''i'' 10000003 3 0 tab2) of Some m \<Rightarrow> Inr m | None \<Rightarrow> Inl NodeFenced)"
    by (simp add: ss2 sample_process_simps split_beta)
  ultimately have "snd (service_heartbeat sample_codec 3 0 (ss2 ! 0) tab2) = Inl NodeFenced"
    by (auto split: option.splits)
  then show ?thesis
    using before after by (simp del: node_step.simps)
qed

end
