(* ===== verification/OwnerStore.thy ===== *)
theory OwnerStore
  imports ClusterNodes
begin

text \<open>
  The table \<open>device_owners\<close> with the statements of \<open>cheetah-storage-postgres/src/owner.rs\<close>
  and the acquisition inside a unit of work (\<open>unit_of_work.rs\<close>).

  Rows are keyed by the device (the primary key and the conflict target of the statements); a
  written row refers to a row of \<open>devices\<close> (the foreign key of the migration), or the statement
  fails. An epoch is a natural number: the overflow of the \<open>BIGINT\<close> after more than nine quintillion acquisitions
  is not modelled. \<open>wall\<close> is what \<open>OffsetDateTime::now_utc\<close> returns inside a call.
\<close>

record owner_info =
  owner_node_id :: uuid
  owner_epoch :: nat
  owner_lease_until :: "instant option"

record owner_row =
  row_tenant :: uuid
  row_owner_node :: uuid
  row_owner_epoch :: nat
  row_expires_at :: "instant option"
  row_updated_at :: instant

record owner_store =
  store_nodes :: node_table
  store_owners :: "(uuid, owner_row) table"
  store_devices :: "(uuid \<times> uuid) list"

datatype storage_error =
    StorageBackend | StorageMigration int | StorageConfig | StorageConnection | StorageUnavailable
  | StorageConcurrentModification nat nat | StorageInvalidArgument | StorageInternal

definition page_storage_error :: "signal_error_kind \<Rightarrow> storage_error" where
  "page_storage_error e = (case e of InvalidArgument \<Rightarrow> StorageInvalidArgument | _ \<Rightarrow> StorageInternal)"

definition row_info :: "owner_row \<Rightarrow> owner_info" where
  "row_info r = \<lparr>owner_node_id = row_owner_node r, owner_epoch = row_owner_epoch r,
                 owner_lease_until = row_expires_at r\<rparr>"

text \<open>\<open>SELECT \<dots> FROM device_owners WHERE tenant_id = \<dots> AND device_id = \<dots>\<close>\<close>

definition select_owner :: "owner_store \<Rightarrow> uuid \<Rightarrow> uuid \<Rightarrow> owner_row option" where
  "select_owner st tenant device =
     (case map_of (store_owners st) device of
        None \<Rightarrow> None
      | Some r \<Rightarrow> if row_tenant r = tenant then Some r else None)"

text \<open>Writing a row, subject to the foreign key.\<close>

definition put_owner :: "owner_store \<Rightarrow> uuid \<Rightarrow> owner_row \<Rightarrow> storage_error + owner_store" where
  "put_owner st device r =
     (if (row_tenant r, device) \<in> set (store_devices st)
      then Inr (st\<lparr>store_owners := AList.update device r (store_owners st)\<rparr>)
      else Inl StorageBackend)"

definition owner_get :: "owner_store \<Rightarrow> uuid \<Rightarrow> uuid \<Rightarrow> owner_info option" where
  "owner_get st tenant device = map_option row_info (select_owner st tenant device)"

definition owner_set ::
  "codec \<Rightarrow> instant \<Rightarrow> uuid \<Rightarrow> uuid \<Rightarrow> owner_info \<Rightarrow> owner_store \<Rightarrow> owner_store \<times> (storage_error + unit)" where
  "owner_set C wall tenant device owner st =
     (case put_owner st device
             \<lparr>row_tenant = tenant, row_owner_node = owner_node_id owner,
              row_owner_epoch = owner_epoch owner,
              row_expires_at = map_option (timestamptz C) (owner_lease_until owner),
              row_updated_at = timestamptz C wall\<rparr> of
        Inl e \<Rightarrow> (st, Inl e)
      | Inr st' \<Rightarrow> (st', Inr ()))"

definition owner_clear :: "uuid \<Rightarrow> uuid \<Rightarrow> owner_store \<Rightarrow> owner_store" where
  "owner_clear tenant device st =
     (if select_owner st tenant device = None then st
      else st\<lparr>store_owners := AList.delete device (store_owners st)\<rparr>)"

text \<open>The conditions of the acquiring statements: the node has a live lease in
  \<open>cluster_nodes\<close>; the row may be taken over.\<close>

definition live_node :: "codec \<Rightarrow> owner_store \<Rightarrow> uuid \<Rightarrow> instant \<Rightarrow> bool" where
  "live_node C st nid now =
     (case map_of (store_nodes st) nid of
        None \<Rightarrow> False
      | Some n \<Rightarrow> timestamptz C now < node_lease_until n)"

definition live_serving_node :: "codec \<Rightarrow> owner_store \<Rightarrow> uuid \<Rightarrow> instant \<Rightarrow> bool" where
  "live_serving_node C st nid now =
     (case map_of (store_nodes st) nid of
        None \<Rightarrow> False
      | Some n \<Rightarrow> timestamptz C now < node_lease_until n \<and> \<not> draining n)"

definition row_expired :: "codec \<Rightarrow> owner_row \<Rightarrow> instant \<Rightarrow> bool" where
  "row_expired C r now =
     (case row_expires_at r of None \<Rightarrow> False | Some e \<Rightarrow> e \<le> timestamptz C now)"

definition takeable :: "codec \<Rightarrow> owner_store \<Rightarrow> uuid \<Rightarrow> instant \<Rightarrow> owner_row \<Rightarrow> bool" where
  "takeable C st nid now r \<longleftrightarrow>
     row_expired C r now \<or> row_owner_node r = nid \<or> \<not> live_node C st (row_owner_node r) now"

text \<open>\<open>INSERT \<dots> ON CONFLICT(device_id) DO UPDATE SET \<dots> WHERE guard\<close>: the new store and the
  row that was written, if any.\<close>

definition upsert_owner ::
  "codec \<Rightarrow> (owner_row \<Rightarrow> bool) \<Rightarrow> uuid \<Rightarrow> uuid \<Rightarrow> uuid \<Rightarrow> instant \<Rightarrow> instant \<Rightarrow> owner_store \<Rightarrow>
   storage_error + owner_store \<times> owner_row option" where
  "upsert_owner C guard tenant device nid now lease st =
     (let fresh = \<lparr>row_tenant = tenant, row_owner_node = nid, row_owner_epoch = 1,
                   row_expires_at = Some (timestamptz C lease), row_updated_at = timestamptz C now\<rparr>;
          write = (\<lambda>r. case put_owner st device r of Inl e \<Rightarrow> Inl e | Inr st' \<Rightarrow> Inr (st', Some r))
      in case map_of (store_owners st) device of
           None \<Rightarrow> write fresh
         | Some r \<Rightarrow>
             if guard r then write (fresh\<lparr>row_owner_epoch := row_owner_epoch r + 1\<rparr>)
             else Inr (st, None))"

definition owner_acquire ::
  "codec \<Rightarrow> uuid \<Rightarrow> uuid \<Rightarrow> uuid \<Rightarrow> instant \<Rightarrow> instant \<Rightarrow> owner_store \<Rightarrow>
   owner_store \<times> (storage_error + owner_info)" where
  "owner_acquire C tenant device nid now lease st =
     (case upsert_owner C (takeable C st nid now) tenant device nid now lease st of
        Inl e \<Rightarrow> (st, Inl e)
      | Inr (st', _) \<Rightarrow>
          (case select_owner st' tenant device of
             None \<Rightarrow> (st', Inl StorageUnavailable)
           | Some r \<Rightarrow>
               if row_owner_node r = nid then (st', Inr (row_info r))
               else (st', Inl StorageUnavailable)))"

definition owner_renew ::
  "codec \<Rightarrow> instant \<Rightarrow> uuid \<Rightarrow> uuid \<Rightarrow> uuid \<Rightarrow> instant \<Rightarrow> owner_store \<Rightarrow> owner_store \<times> owner_info option" where
  "owner_renew C wall tenant device nid lease st =
     (case select_owner st tenant device of
        None \<Rightarrow> (st, None)
      | Some r \<Rightarrow>
          if row_owner_node r = nid \<and>
             (case row_expires_at r of None \<Rightarrow> True | Some e \<Rightarrow> timestamptz C wall < e)
          then
            (let st' = st\<lparr>store_owners := AList.update device
                       (r\<lparr>row_expires_at := Some (timestamptz C lease),
                          row_updated_at := timestamptz C wall\<rparr>) (store_owners st)\<rparr>
             in (st', owner_get st' tenant device))
          else (st, None))"

definition owner_release :: "uuid \<Rightarrow> uuid \<Rightarrow> uuid \<Rightarrow> nat \<Rightarrow> owner_store \<Rightarrow> owner_store" where
  "owner_release tenant device nid epoch st =
     (case select_owner st tenant device of
        None \<Rightarrow> st
      | Some r \<Rightarrow>
          if row_owner_node r = nid \<and> row_owner_epoch r = epoch
          then st\<lparr>store_owners := AList.delete device (store_owners st)\<rparr>
          else st)"

record owned_device =
  owned_tenant :: uuid
  owned_device_id :: uuid
  owned_owner :: owner_info

definition owned_key :: "uuid \<times> owner_row \<Rightarrow> instant \<times> uuid" where
  "owned_key p = (row_updated_at (snd p), fst p)"

definition owned_rows :: "owner_store \<Rightarrow> uuid \<Rightarrow> (uuid \<times> owner_row) list" where
  "owned_rows st nid = filter (\<lambda>(d, r). row_owner_node r = nid) (store_owners st)"

definition list_by_node ::
  "codec \<Rightarrow> owner_store \<Rightarrow> uuid \<Rightarrow> page_request \<Rightarrow> signal_error_kind + owned_device page" where
  "list_by_node C st nid req =
     (case keyset_page C owned_key (owned_rows st nid) req of
        Inl e \<Rightarrow> Inl e
      | Inr p \<Rightarrow>
          Inr \<lparr>page_items = map (\<lambda>(d, r). \<lparr>owned_tenant = row_tenant r, owned_device_id = d,
                                           owned_owner = row_info r\<rparr>) (page_items p),
               page_next_cursor = page_next_cursor p\<rparr>)"

text \<open>\<open>PostgresDeviceOwnerResolver::resolve\<close>: the owner unless its lease has ended.\<close>

definition owner_resolve :: "owner_store \<Rightarrow> instant \<Rightarrow> uuid \<Rightarrow> uuid \<Rightarrow> owner_info option" where
  "owner_resolve st now tenant device =
     (case select_owner st tenant device of
        None \<Rightarrow> None
      | Some r \<Rightarrow>
          if (case row_expires_at r of None \<Rightarrow> True | Some e \<Rightarrow> now < e)
          then Some (row_info r) else None)"

text \<open>\<open>UnitOfWork::acquire_ownership\<close>: \<open>Inl\<close> is the error for a candidate that may not
  own devices; otherwise the new owner with the previous one, or \<open>None\<close> if another node holds
  the device.\<close>

definition acquire_ownership ::
  "codec \<Rightarrow> uuid \<Rightarrow> uuid \<Rightarrow> uuid \<Rightarrow> instant \<Rightarrow> instant \<Rightarrow> owner_store \<Rightarrow>
   owner_store \<times> (storage_error + (owner_info \<times> owner_info option) option)" where
  "acquire_ownership C tenant device nid now lease st =
     (if \<not> live_serving_node C st nid now then (st, Inl StorageUnavailable)
      else
        (let previous = owner_get st tenant device
         in case upsert_owner C (\<lambda>r. takeable C st nid now r \<and> live_serving_node C st nid now)
                    tenant device nid now lease st of
              Inl e \<Rightarrow> (st, Inl e)
            | Inr (st', None) \<Rightarrow> (st', Inr None)
            | Inr (st', Some r) \<Rightarrow>
                if row_owner_node r = nid then (st', Inr (Some (row_info r, previous)))
                else (st', Inr None)))"

section \<open>What the statements do to the row of a device\<close>

text \<open>The tables are keyed, and a row names a device of the same tenant.\<close>

definition wf_store :: "owner_store \<Rightarrow> bool" where
  "wf_store st \<longleftrightarrow>
     wf_table (store_owners st) \<and> distinct (map snd (store_devices st)) \<and>
     (\<forall>(d, r) \<in> set (store_owners st). (row_tenant r, d) \<in> set (store_devices st))"

definition owner_row_of :: "owner_store \<Rightarrow> uuid \<Rightarrow> owner_row option" where
  "owner_row_of st device = map_of (store_owners st) device"

lemma wf_store_tenant:
  assumes "wf_store st" and "owner_row_of st device = Some r" and "(tenant, device) \<in> set (store_devices st)"
  shows "row_tenant r = tenant"
proof -
  have "(row_tenant r, device) \<in> set (store_devices st)"
    using assms(1) map_of_SomeD [OF assms(2) [unfolded owner_row_of_def]] unfolding wf_store_def by blast
  then show ?thesis
    using assms(1,3) unfolding wf_store_def distinct_map inj_on_def by fastforce
qed

lemma select_owner_row:
  assumes "wf_store st" and "(tenant, device) \<in> set (store_devices st)"
  shows "select_owner st tenant device = owner_row_of st device"
  using wf_store_tenant [OF assms(1) _ assms(2)]
  by (auto simp: select_owner_def owner_row_of_def split: option.splits)

lemma select_owner_SomeD:
  "select_owner st tenant device = Some r \<Longrightarrow> owner_row_of st device = Some r \<and> row_tenant r = tenant"
  by (auto simp: select_owner_def owner_row_of_def split: option.splits if_splits)

definition granted_row :: "codec \<Rightarrow> uuid \<Rightarrow> uuid \<Rightarrow> nat \<Rightarrow> instant \<Rightarrow> instant \<Rightarrow> owner_row" where
  "granted_row C tenant nid epoch now lease =
     \<lparr>row_tenant = tenant, row_owner_node = nid, row_owner_epoch = epoch,
      row_expires_at = Some (timestamptz C lease), row_updated_at = timestamptz C now\<rparr>"

definition next_epoch :: "owner_store \<Rightarrow> uuid \<Rightarrow> nat" where
  "next_epoch st device = (case owner_row_of st device of None \<Rightarrow> 1 | Some r \<Rightarrow> row_owner_epoch r + 1)"

definition may_take :: "codec \<Rightarrow> owner_store \<Rightarrow> uuid \<Rightarrow> instant \<Rightarrow> uuid \<Rightarrow> bool" where
  "may_take C st nid now device =
     (case owner_row_of st device of None \<Rightarrow> True | Some r \<Rightarrow> takeable C st nid now r)"

definition with_owner :: "owner_store \<Rightarrow> uuid \<Rightarrow> owner_row \<Rightarrow> owner_store" where
  "with_owner st device r = st\<lparr>store_owners := AList.update device r (store_owners st)\<rparr>"

lemma with_owner_simps [simp]:
  "store_nodes (with_owner st d r) = store_nodes st"
  "store_devices (with_owner st d r) = store_devices st"
  "owner_row_of (with_owner st d r) = (owner_row_of st)(d \<mapsto> r)"
  by (auto simp: with_owner_def owner_row_of_def table_simps fun_eq_iff)

lemma wf_with_owner:
  assumes "wf_store st" and "(row_tenant r, d) \<in> set (store_devices st)"
  shows "wf_store (with_owner st d r)"
proof -
  have "(row_tenant q, e) \<in> set (store_devices st)"
    if "(e, q) \<in> set (AList.update d r (store_owners st))" for e q
    using that assms set_table_update [of d r "store_owners st"] unfolding wf_store_def by blast
  then show ?thesis
    using assms(1) by (auto simp: wf_store_def with_owner_def table_simps)
qed

text \<open>An acquisition, for a registered device: exactly if there is no row or the row may be taken,
  the node gets the next epoch and the new lease; otherwise nothing changes.\<close>

lemma owner_acquire_eq:
  assumes "wf_store st" and "(tenant, device) \<in> set (store_devices st)"
  shows "owner_acquire C tenant device nid now lease st =
    (if may_take C st nid now device
     then (with_owner st device (granted_row C tenant nid (next_epoch st device) now lease),
           Inr \<lparr>owner_node_id = nid, owner_epoch = next_epoch st device,
                owner_lease_until = Some (timestamptz C lease)\<rparr>)
     else (st, Inl StorageUnavailable))"
proof (cases "owner_row_of st device")
  case None
  then show ?thesis
    using assms(2)
    by (simp add: owner_acquire_def upsert_owner_def put_owner_def may_take_def next_epoch_def
        owner_row_of_def select_owner_def row_info_def granted_row_def with_owner_def Let_def
        table_simps)
next
  case (Some r)
  have "row_tenant r = tenant"
    using assms(1) Some assms(2) by (rule wf_store_tenant)
  then show ?thesis
    using assms(2) Some
    by (auto simp: owner_acquire_def upsert_owner_def put_owner_def may_take_def next_epoch_def
        owner_row_of_def select_owner_def row_info_def granted_row_def with_owner_def Let_def
        takeable_def table_simps)
qed

lemma acquire_ownership_eq:
  assumes "wf_store st" and "(tenant, device) \<in> set (store_devices st)"
  shows "acquire_ownership C tenant device nid now lease st =
    (if \<not> live_serving_node C st nid now then (st, Inl StorageUnavailable)
     else if may_take C st nid now device
     then (with_owner st device (granted_row C tenant nid (next_epoch st device) now lease),
           Inr (Some (\<lparr>owner_node_id = nid, owner_epoch = next_epoch st device,
                       owner_lease_until = Some (timestamptz C lease)\<rparr>,
                      map_option row_info (owner_row_of st device))))
     else (st, Inr None))"
proof (cases "owner_row_of st device")
  case None
  then show ?thesis
    using assms(2)
    by (simp add: acquire_ownership_def upsert_owner_def put_owner_def may_take_def next_epoch_def
        owner_row_of_def owner_get_def select_owner_def row_info_def granted_row_def with_owner_def
        Let_def table_simps)
next
  case (Some r)
  have "row_tenant r = tenant"
    using assms(1) Some assms(2) by (rule wf_store_tenant)
  then show ?thesis
    using assms(2) Some
    by (simp add: acquire_ownership_def upsert_owner_def put_owner_def may_take_def next_epoch_def
        owner_row_of_def owner_get_def select_owner_def row_info_def granted_row_def with_owner_def
        Let_def table_simps)
qed

text \<open>A call for an unknown device fails and changes nothing.\<close>

lemma owner_acquire_unknown:
  assumes "wf_store st" and "(tenant, device) \<notin> set (store_devices st)"
  shows "\<exists>e. owner_acquire C tenant device nid now lease st = (st, Inl e)"
proof (cases "owner_row_of st device")
  case None
  then show ?thesis
    using assms(2) by (simp add: owner_acquire_def upsert_owner_def put_owner_def owner_row_of_def Let_def)
next
  case (Some r)
  have "row_tenant r \<noteq> tenant"
    using assms map_of_SomeD [OF Some [unfolded owner_row_of_def]] unfolding wf_store_def by blast
  then show ?thesis
    using assms(2) Some
    by (simp add: owner_acquire_def upsert_owner_def put_owner_def owner_row_of_def select_owner_def Let_def)
qed

lemma acquire_ownership_unknown:
  assumes "wf_store st" and "(tenant, device) \<notin> set (store_devices st)"
  shows "fst (acquire_ownership C tenant device nid now lease st) = st \<and>
    (\<forall>x. snd (acquire_ownership C tenant device nid now lease st) \<noteq> Inr (Some x))"
  using assms(2)
  by (simp add: acquire_ownership_def upsert_owner_def put_owner_def Let_def split: option.splits)

text \<open>A renewal changes the lease of the holder's row, and only while it runs.\<close>

lemma owner_renew_eq:
  "owner_renew C wall tenant device nid lease st =
    (case select_owner st tenant device of
       None \<Rightarrow> (st, None)
     | Some r \<Rightarrow>
         if row_owner_node r = nid \<and> \<not> row_expired C r wall
         then (with_owner st device (granted_row C tenant nid (row_owner_epoch r) wall lease),
               Some \<lparr>owner_node_id = nid, owner_epoch = row_owner_epoch r,
                     owner_lease_until = Some (timestamptz C lease)\<rparr>)
         else (st, None))"
proof (cases "select_owner st tenant device")
  case (Some r)
  have "row_tenant r = tenant" "map_of (store_owners st) device = Some r"
    using select_owner_SomeD [OF Some] by (simp_all add: owner_row_of_def)
  then show ?thesis
    using Some
    by (cases r) (auto simp: owner_renew_def row_expired_def with_owner_def granted_row_def owner_get_def
        select_owner_def row_info_def table_simps split: option.splits)
qed (simp add: owner_renew_def)

lemma owner_row_of_release:
  "owner_row_of (owner_release tenant device nid epoch st) d =
    (if d = device \<and> (\<exists>r. select_owner st tenant device = Some r \<and> row_owner_node r = nid \<and>
          row_owner_epoch r = epoch)
     then None else owner_row_of st d)"
  by (auto simp: owner_release_def owner_row_of_def table_simps split: option.splits)

lemma owner_release_simps [simp]:
  "store_nodes (owner_release tenant device nid epoch st) = store_nodes st"
  "store_devices (owner_release tenant device nid epoch st) = store_devices st"
  by (simp_all add: owner_release_def split: option.splits)

lemma wf_owner_release: "wf_store st \<Longrightarrow> wf_store (owner_release tenant device nid epoch st)"
  by (auto simp: owner_release_def wf_store_def table_simps split: option.splits)

end
