(* ===== verification/OwnerLease.thy ===== *)
theory OwnerLease
  imports OwnerStore
begin

text \<open>
  Device ownership leases (\<open>cheetah-cluster-ownership/src/lease.rs\<close>): the lease service of a
  node and the caching resolver.

  A \<open>world\<close> is the shared store together with what every node believes it holds: the answers of
  its own last acquisition or renewal of a device. Operations of different nodes interleave in any
  order, each call being one step; the table of nodes changes arbitrarily in between. The main
  results are the exclusion of leases, for nodes that stay alive and clocks that agree, and the
  growth of the epochs. The resolver's two critical sections are separate steps, so that its results
  hold for every interleaving of concurrent calls.
\<close>

section \<open>The lease service\<close>

record owner_lease_service =
  lease_node :: uuid
  lease_ms :: int

text \<open>\<open>now\<close> and \<open>now'\<close> are the two clock readings of \<open>acquire\<close>.\<close>

definition lease_acquire ::
  "codec \<Rightarrow> owner_lease_service \<Rightarrow> instant \<Rightarrow> instant \<Rightarrow> uuid \<Rightarrow> uuid \<Rightarrow> owner_store \<Rightarrow>
   owner_store \<times> (storage_error + owner_info)" where
  "lease_acquire C s now now' tenant device st =
     (case utc_checked_add C now' (lease_ms s) of
        None \<Rightarrow> (st, Inl StorageInternal)
      | Some lease \<Rightarrow> owner_acquire C tenant device (lease_node s) now lease st)"

definition lease_renew ::
  "codec \<Rightarrow> owner_lease_service \<Rightarrow> instant \<Rightarrow> instant \<Rightarrow> uuid \<Rightarrow> uuid \<Rightarrow> owner_store \<Rightarrow>
   owner_store \<times> (storage_error + owner_info option)" where
  "lease_renew C s now wall tenant device st =
     (case utc_checked_add C now (lease_ms s) of
        None \<Rightarrow> (st, Inl StorageInternal)
      | Some lease \<Rightarrow>
          (let (st', r) = owner_renew C wall tenant device (lease_node s) lease st in (st', Inr r)))"

text \<open>\<open>batch_renew\<close>: one renewal after the other, each with its own clock readings.\<close>

fun lease_batch_renew ::
  "codec \<Rightarrow> owner_lease_service \<Rightarrow> (instant \<times> instant \<times> uuid \<times> uuid) list \<Rightarrow> owner_store \<Rightarrow>
   owner_store \<times> (storage_error + owner_info option) list" where
  "lease_batch_renew C s [] st = (st, [])"
| "lease_batch_renew C s ((now, wall, tenant, device) # rest) st =
     (let (st', r) = lease_renew C s now wall tenant device st;
          (st'', rs) = lease_batch_renew C s rest st'
      in (st'', r # rs))"

definition lease_release ::
  "owner_lease_service \<Rightarrow> uuid \<Rightarrow> uuid \<Rightarrow> nat \<Rightarrow> owner_store \<Rightarrow> owner_store" where
  "lease_release s tenant device epoch st = owner_release tenant device (lease_node s) epoch st"

section \<open>Nodes sharing the store\<close>

record world =
  world_store :: owner_store
  believes :: "(uuid \<times> uuid, owner_info) table"
  granted :: "(uuid \<times> uuid \<times> nat) list"

datatype owner_op =
    AcquireOp owner_lease_service instant instant uuid uuid
  | RenewOp owner_lease_service instant instant uuid uuid
  | ReleaseOp owner_lease_service instant uuid uuid
  | TakeoverOp uuid instant instant uuid uuid
  | NodesOp instant node_table

definition note_grant :: "uuid \<Rightarrow> uuid \<Rightarrow> owner_info \<Rightarrow> world \<Rightarrow> world" where
  "note_grant n d owner w =
     w\<lparr>believes := AList.update (n, d) owner (believes w),
       granted := (d, n, owner_epoch owner) # granted w\<rparr>"

fun world_step :: "codec \<Rightarrow> owner_op \<Rightarrow> world \<Rightarrow> world" where
  "world_step C (AcquireOp s now now' tenant d) w =
     (let (st, r) = lease_acquire C s now now' tenant d (world_store w);
          w' = w\<lparr>world_store := st\<rparr>
      in case r of Inl e \<Rightarrow> w' | Inr owner \<Rightarrow> note_grant (lease_node s) d owner w')"
| "world_step C (RenewOp s now wall tenant d) w =
     (let (st, r) = lease_renew C s now wall tenant d (world_store w);
          w' = w\<lparr>world_store := st\<rparr>
      in case r of
           Inr (Some owner) \<Rightarrow> w'\<lparr>believes := AList.update (lease_node s, d) owner (believes w')\<rparr>
         | _ \<Rightarrow> w')"
| "world_step C (ReleaseOp s now tenant d) w =
     (case map_of (believes w) (lease_node s, d) of
        None \<Rightarrow> w
      | Some b \<Rightarrow>
          w\<lparr>world_store := lease_release s tenant d (owner_epoch b) (world_store w),
            believes := AList.delete (lease_node s, d) (believes w)\<rparr>)"
| "world_step C (TakeoverOp n now lease tenant d) w =
     (let (st, r) = acquire_ownership C tenant d n now lease (world_store w);
          w' = w\<lparr>world_store := st\<rparr>
      in case r of Inr (Some (owner, previous)) \<Rightarrow> note_grant n d owner w' | _ \<Rightarrow> w')"
| "world_step C (NodesOp now nodes) w =
     w\<lparr>world_store := (world_store w)\<lparr>store_nodes := nodes\<rparr>\<rparr>"

definition world_run :: "codec \<Rightarrow> owner_op list \<Rightarrow> world \<Rightarrow> world" where
  "world_run C ops w = fold (world_step C) ops w"

lemma world_run_simps [simp]:
  "world_run C [] w = w"
  "world_run C (x # ops) w = world_run C ops (world_step C x w)"
  by (simp_all add: world_run_def)

text \<open>When an operation reads the clock first and last.\<close>

fun op_start :: "owner_op \<Rightarrow> instant" where
  "op_start (AcquireOp s now now' tenant d) = now"
| "op_start (RenewOp s now wall tenant d) = now"
| "op_start (ReleaseOp s now tenant d) = now"
| "op_start (TakeoverOp n now lease tenant d) = now"
| "op_start (NodesOp now nodes) = now"

fun op_end :: "owner_op \<Rightarrow> instant" where
  "op_end (AcquireOp s now now' tenant d) = now'"
| "op_end (RenewOp s now wall tenant d) = wall"
| "op_end x = op_start x"

text \<open>One clock: no operation reads an earlier time than a previous one.\<close>

fun clocked :: "instant \<Rightarrow> owner_op list \<Rightarrow> instant \<Rightarrow> bool" where
  "clocked t [] t' \<longleftrightarrow> t \<le> t'"
| "clocked t (x # ops) t' \<longleftrightarrow> t \<le> op_start x \<and> op_start x \<le> op_end x \<and> clocked (op_end x) ops t'"

text \<open>The node has a live lease whenever an operation starts.\<close>

fun stays_alive :: "codec \<Rightarrow> uuid \<Rightarrow> owner_op list \<Rightarrow> world \<Rightarrow> bool" where
  "stays_alive C n [] w \<longleftrightarrow> True"
| "stays_alive C n (x # ops) w \<longleftrightarrow>
     live_node C (world_store w) n (op_start x) \<and> stays_alive C n ops (world_step C x w)"

definition lease_running :: "owner_info \<Rightarrow> instant \<Rightarrow> bool" where
  "lease_running b now = (case owner_lease_until b of None \<Rightarrow> True | Some l \<Rightarrow> now < l)"

subsection \<open>The effect of a step on the store\<close>

text \<open>Either the store keeps its rows; or a node that may take the device gets its next epoch; or
  the holder renews; or the holder releases.\<close>

lemma lease_acquire_cases:
  assumes "wf_store st"
  obtains (refused) e where "lease_acquire C s now now' tenant d st = (st, Inl e)"
  | (taken) lease where
      "lease_acquire C s now now' tenant d st =
        (with_owner st d (granted_row C tenant (lease_node s) (next_epoch st d) now lease),
         Inr \<lparr>owner_node_id = lease_node s, owner_epoch = next_epoch st d,
              owner_lease_until = Some (timestamptz C lease)\<rparr>)"
      and "may_take C st (lease_node s) now d" and "(tenant, d) \<in> set (store_devices st)"
proof (cases "utc_checked_add C now' (lease_ms s)")
  case None
  then show ?thesis using refused by (simp add: lease_acquire_def)
next
  case (Some lease)
  show ?thesis
  proof (cases "(tenant, d) \<in> set (store_devices st) \<and> may_take C st (lease_node s) now d")
    case True
    then show ?thesis
      using Some taken [of lease] owner_acquire_eq [OF assms] by (simp add: lease_acquire_def)
  next
    case False
    then show ?thesis
      using Some refused owner_acquire_eq [OF assms, of tenant d C "lease_node s" now lease]
        owner_acquire_unknown [OF assms, of tenant d C "lease_node s" now lease]
      by (auto simp: lease_acquire_def)
  qed
qed

lemma lease_renew_cases:
  assumes "wf_store st"
  obtains (refused) r where "lease_renew C s now wall tenant d st = (st, r)" and "\<forall>x. r \<noteq> Inr (Some x)"
  | (renewed) r lease where
      "lease_renew C s now wall tenant d st =
        (with_owner st d (granted_row C tenant (lease_node s) (row_owner_epoch r) wall lease),
         Inr (Some \<lparr>owner_node_id = lease_node s, owner_epoch = row_owner_epoch r,
                    owner_lease_until = Some (timestamptz C lease)\<rparr>))"
      and "owner_row_of st d = Some r" and "row_owner_node r = lease_node s"
      and "(tenant, d) \<in> set (store_devices st)"
proof (cases "utc_checked_add C now (lease_ms s)")
  case None
  then show ?thesis using refused by (simp add: lease_renew_def)
next
  case (Some lease)
  note add = this
  show ?thesis
  proof (cases "select_owner st tenant d")
    case None
    then show ?thesis
      using add refused owner_renew_eq [of C wall tenant d "lease_node s" lease st]
      by (simp add: lease_renew_def)
  next
    case (Some r)
    have r: "owner_row_of st d = Some r" "row_tenant r = tenant"
      using select_owner_SomeD [OF Some] by simp_all
    have dev: "(tenant, d) \<in> set (store_devices st)"
      using assms map_of_SomeD [OF r(1) [unfolded owner_row_of_def]] r(2) unfolding wf_store_def by blast
    show ?thesis
      using add Some refused renewed [OF _ r(1) _ dev, of lease]
        owner_renew_eq [of C wall tenant d "lease_node s" lease st]
      by (cases "row_owner_node r = lease_node s \<and> \<not> row_expired C r wall")
        (auto simp: lease_renew_def)
  qed
qed

lemma acquire_ownership_cases:
  assumes "wf_store st"
  obtains (refused) r where "acquire_ownership C tenant d n now lease st = (st, r)"
      and "\<forall>x. r \<noteq> Inr (Some x)"
  | (taken) p where
      "acquire_ownership C tenant d n now lease st =
        (with_owner st d (granted_row C tenant n (next_epoch st d) now lease),
         Inr (Some (\<lparr>owner_node_id = n, owner_epoch = next_epoch st d,
                     owner_lease_until = Some (timestamptz C lease)\<rparr>, p)))"
      and "may_take C st n now d" and "(tenant, d) \<in> set (store_devices st)"
proof (cases "(tenant, d) \<in> set (store_devices st)")
  case True
  then show ?thesis
    using refused taken acquire_ownership_eq [OF assms True, of C n now lease]
    by (cases "live_serving_node C st n now"; cases "may_take C st n now d") auto
next
  case False
  then show ?thesis
    using refused [of "snd (acquire_ownership C tenant d n now lease st)"]
      acquire_ownership_unknown [OF assms False, of C n now lease]
    by (metis prod.collapse)
qed

text \<open>The three ways an operation changes the world.\<close>

inductive world_effect :: "codec \<Rightarrow> owner_op \<Rightarrow> world \<Rightarrow> world \<Rightarrow> bool" where
  idle: "world_effect C x w w"
| nodes: "world_effect C (NodesOp now nodes) w (w\<lparr>world_store := (world_store w)\<lparr>store_nodes := nodes\<rparr>\<rparr>)"
| grant: "may_take C (world_store w) n (op_start x) d \<Longrightarrow>
    (tenant, d) \<in> set (store_devices (world_store w)) \<Longrightarrow>
    world_effect C x w
      (note_grant n d \<lparr>owner_node_id = n, owner_epoch = next_epoch (world_store w) d,
                        owner_lease_until = Some (timestamptz C lease)\<rparr>
        (w\<lparr>world_store := with_owner (world_store w) d
             (granted_row C tenant n (next_epoch (world_store w) d) (op_start x) lease)\<rparr>))"
| renew: "owner_row_of (world_store w) d = Some r \<Longrightarrow> row_owner_node r = n \<Longrightarrow>
    (tenant, d) \<in> set (store_devices (world_store w)) \<Longrightarrow>
    world_effect C x w
      (w\<lparr>world_store := with_owner (world_store w) d
           (granted_row C tenant n (row_owner_epoch r) wall lease),
         believes := AList.update (n, d) \<lparr>owner_node_id = n, owner_epoch = row_owner_epoch r,
                        owner_lease_until = Some (timestamptz C lease)\<rparr> (believes w)\<rparr>)"
| release: "world_effect C (ReleaseOp s now tenant d) w
      (w\<lparr>world_store := owner_release tenant d (lease_node s) epoch (world_store w),
         believes := AList.delete (lease_node s, d) (believes w)\<rparr>)"

lemma world_step_effect:
  assumes "wf_store (world_store w)"
  shows "world_effect C x w (world_step C x w)"
proof (cases x)
  case (AcquireOp s now now' tenant d)
  show ?thesis
    using assms
  proof (cases rule: lease_acquire_cases [of "world_store w" C s now now' tenant d])
    case (refused e)
    then show ?thesis by (simp add: AcquireOp idle)
  next
    case (taken lease)
    then show ?thesis
      using grant [of C w "lease_node s" x d tenant lease] by (simp add: AcquireOp)
  qed
next
  case (RenewOp s now wall tenant d)
  show ?thesis
    using assms
  proof (cases rule: lease_renew_cases [of "world_store w" C s now wall tenant d])
    case (refused r)
    then show ?thesis by (auto simp: RenewOp idle split: sum.splits option.splits)
  next
    case (renewed r lease)
    then show ?thesis
      using world_effect.renew [of w d r "lease_node s" tenant C x lease wall] by (simp add: RenewOp)
  qed
next
  case (ReleaseOp s now tenant d)
  then show ?thesis
    using world_effect.release [of C s now tenant d w] idle
    by (auto simp: lease_release_def split: option.splits)
next
  case (TakeoverOp n now lease tenant d)
  show ?thesis
    using assms
  proof (cases rule: acquire_ownership_cases [of "world_store w" C tenant d n now lease])
    case (refused r)
    then show ?thesis by (auto simp: TakeoverOp idle split: sum.splits option.splits)
  next
    case (taken p)
    then show ?thesis
      using grant [of C w n x d tenant lease] by (simp add: TakeoverOp)
  qed
next
  case (NodesOp now nodes)
  then show ?thesis
    using world_effect.nodes [of C now nodes w] by simp
qed

lemma world_effect_wf:
  assumes "world_effect C x w w'" and "wf_store (world_store w)"
  shows "wf_store (world_store w')"
  using assms
proof cases
  case (nodes now nodes)
  then show ?thesis using assms(2) by (simp add: wf_store_def)
next
  case (grant n d tenant lease)
  then show ?thesis using assms(2) by (simp add: note_grant_def wf_with_owner granted_row_def)
next
  case (renew d r n tenant wall lease)
  then show ?thesis using assms(2) by (simp add: wf_with_owner granted_row_def)
next
  case (release s now tenant d epoch)
  then show ?thesis using assms(2) by (simp add: wf_owner_release)
qed simp

section \<open>Exclusion of leases\<close>

text \<open>The beliefs of the nodes of a set that still run are the rows of the store.\<close>

definition synced :: "uuid set \<Rightarrow> instant \<Rightarrow> world \<Rightarrow> bool" where
  "synced A now w \<longleftrightarrow>
     (\<forall>n d b. n \<in> A \<longrightarrow> map_of (believes w) (n, d) = Some b \<longrightarrow> lease_running b now \<longrightarrow>
        (\<exists>r. owner_row_of (world_store w) d = Some r \<and> row_owner_node r = n \<and> row_info r = b))"

lemma syncedD:
  "synced A now w \<Longrightarrow> n \<in> A \<Longrightarrow> map_of (believes w) (n, d) = Some b \<Longrightarrow> lease_running b now \<Longrightarrow>
   \<exists>r. owner_row_of (world_store w) d = Some r \<and> row_owner_node r = n \<and> row_info r = b"
  by (auto simp: synced_def)

lemma lease_running_mono: "lease_running b t' \<Longrightarrow> t \<le> t' \<Longrightarrow> lease_running b t"
  by (auto simp: lease_running_def split: option.splits)

lemma synced_mono: "synced A t w \<Longrightarrow> t \<le> t' \<Longrightarrow> synced A t' w"
  using lease_running_mono unfolding synced_def by blast

lemma granted_row_info [simp]:
  "row_info (granted_row C tenant n e now lease) =
     \<lparr>owner_node_id = n, owner_epoch = e, owner_lease_until = Some (timestamptz C lease)\<rparr>"
  "row_owner_node (granted_row C tenant n e now lease) = n"
  "row_owner_epoch (granted_row C tenant n e now lease) = e"
  by (simp_all add: granted_row_def row_info_def)

lemma running_not_takeable:
  assumes "column_laws C" and "lease_running (row_info r) now" and "live_node C st (row_owner_node r) now"
    and "takeable C st n now r"
  shows "row_owner_node r = n"
proof -
  have "\<not> row_expired C r now"
    using assms(2) column_lawsD(1) [OF assms(1), of now]
    by (auto simp: row_expired_def lease_running_def row_info_def split: option.splits)
  then show ?thesis
    using assms(3,4) by (simp add: takeable_def)
qed

lemma synced_effect:
  assumes "column_laws C" and "world_effect C x w w'" and sync: "synced A (op_start x) w"
    and alive: "\<forall>n \<in> A. live_node C (world_store w) n (op_start x)"
  shows "synced A (op_start x) w'"
  using assms(2)
proof cases
  case idle
  then show ?thesis using sync by simp
next
  case (nodes now nodes)
  then show ?thesis using sync by (simp add: synced_def owner_row_of_def)
next
  case (grant m d tenant lease)
  show ?thesis
    unfolding synced_def
  proof (intro allI impI)
    fix n e b assume n: "n \<in> A" "map_of (believes w') (n, e) = Some b" "lease_running b (op_start x)"
    show "\<exists>r. owner_row_of (world_store w') e = Some r \<and> row_owner_node r = n \<and> row_info r = b"
    proof (cases "(n, e) = (m, d)")
      case True
      then show ?thesis using n(2) grant(1) by (auto simp: note_grant_def table_simps)
    next
      case False
      have "map_of (believes w) (n, e) = Some b"
        using n(2) grant(1) False by (auto simp: note_grant_def table_simps)
      then obtain r where r: "owner_row_of (world_store w) e = Some r" "row_owner_node r = n" "row_info r = b"
        using syncedD [OF sync n(1) _ n(3)] by blast
      have "e \<noteq> d"
      proof
        assume "e = d"
        then have "takeable C (world_store w) m (op_start x) r"
          using grant(2) r(1) by (simp add: may_take_def)
        then have "row_owner_node r = m"
          using running_not_takeable [OF assms(1), of r "op_start x" "world_store w" m] n(1,3) r(2,3) alive
          by simp
        then show False using False r(2) \<open>e = d\<close> by simp
      qed
      then show ?thesis using r grant(1) by (simp add: note_grant_def)
    qed
  qed
next
  case (renew d r m tenant wall lease)
  show ?thesis
    unfolding synced_def
  proof (intro allI impI)
    fix n e b assume n: "n \<in> A" "map_of (believes w') (n, e) = Some b" "lease_running b (op_start x)"
    show "\<exists>r. owner_row_of (world_store w') e = Some r \<and> row_owner_node r = n \<and> row_info r = b"
    proof (cases "(n, e) = (m, d)")
      case True
      then show ?thesis using n(2) renew(1) by (auto simp: table_simps)
    next
      case False
      have "map_of (believes w) (n, e) = Some b"
        using n(2) renew(1) False by (auto simp: table_simps)
      then obtain q where q: "owner_row_of (world_store w) e = Some q" "row_owner_node q = n" "row_info q = b"
        using syncedD [OF sync n(1) _ n(3)] by blast
      then have "e \<noteq> d" using renew(2,3) False by auto
      then show ?thesis using q renew(1) by simp
    qed
  qed
next
  case (release s now tenant d epoch)
  show ?thesis
    unfolding synced_def
  proof (intro allI impI)
    fix n e b assume n: "n \<in> A" "map_of (believes w') (n, e) = Some b" "lease_running b (op_start x)"
    have old: "map_of (believes w) (n, e) = Some b" "(n, e) \<noteq> (lease_node s, d)"
      using n(2) release(2) by (auto simp: table_simps split: if_splits)
    then obtain q where q: "owner_row_of (world_store w) e = Some q" "row_owner_node q = n" "row_info q = b"
      using syncedD [OF sync n(1) _ n(3)] by blast
    then show "\<exists>r. owner_row_of (world_store w') e = Some r \<and> row_owner_node r = n \<and> row_info r = b"
      using old(2) release(2) select_owner_SomeD [of "world_store w" tenant d]
      by (auto simp: owner_row_of_release)
  qed
qed

lemma synced_run:
  "column_laws C \<Longrightarrow> wf_store (world_store w) \<Longrightarrow> synced A t w \<Longrightarrow> clocked t ops t' \<Longrightarrow>
   (\<forall>n \<in> A. stays_alive C n ops w) \<Longrightarrow> synced A t' (world_run C ops w)"
proof (induction ops arbitrary: w t)
  case Nil
  then show ?case by (simp add: synced_mono)
next
  case (Cons x ops)
  note effect = world_step_effect [OF Cons.prems(2), of C x]
  have "synced A (op_start x) w"
    using Cons.prems(3,4) synced_mono by auto
  then have "synced A (op_start x) (world_step C x w)"
    using synced_effect [OF Cons.prems(1) effect] Cons.prems(5) by simp
  then have "synced A (op_end x) (world_step C x w)"
    using Cons.prems(4) synced_mono by auto
  then show ?case
    using Cons.IH [OF Cons.prems(1) world_effect_wf [OF effect Cons.prems(2)]] Cons.prems(4,5) by simp
qed

section \<open>Epochs\<close>

text \<open>The latest grant of a device first; a later grant has a larger epoch.\<close>

definition epochs_ordered :: "(uuid \<times> uuid \<times> nat) list \<Rightarrow> bool" where
  "epochs_ordered gs \<longleftrightarrow>
     sorted_wrt (\<lambda>later earlier. fst later = fst earlier \<longrightarrow> snd (snd earlier) < snd (snd later)) gs"

definition epochs_covered :: "world \<Rightarrow> bool" where
  "epochs_covered w \<longleftrightarrow>
     (\<forall>(d, n, e) \<in> set (granted w). \<exists>r. owner_row_of (world_store w) d = Some r \<and> e \<le> row_owner_epoch r)"

definition no_release :: "owner_op \<Rightarrow> bool" where
  "no_release x = (case x of ReleaseOp s now tenant d \<Rightarrow> False | _ \<Rightarrow> True)"

lemma epochs_effect:
  assumes "world_effect C x w w'" and "no_release x" and "epochs_covered w" and "epochs_ordered (granted w)"
  shows "epochs_covered w' \<and> epochs_ordered (granted w')"
  using assms(1)
proof cases
  case idle
  then show ?thesis using assms by simp
next
  case (nodes now nodes)
  then show ?thesis using assms(3,4) by (simp add: epochs_covered_def owner_row_of_def)
next
  case (grant m d tenant lease)
  have below: "e < next_epoch (world_store w) d" if "(d, n, e) \<in> set (granted w)" for n e
    using assms(3) that by (auto simp: epochs_covered_def next_epoch_def)
  have "epochs_covered w'"
    using assms(3) below grant(1) by (fastforce simp: epochs_covered_def note_grant_def)
  moreover have "epochs_ordered (granted w')"
    using assms(4) below grant(1) by (auto simp: epochs_ordered_def note_grant_def)
  ultimately show ?thesis by simp
next
  case (renew d r m tenant wall lease)
  then have "epochs_covered w'"
    using assms(3) by (fastforce simp: epochs_covered_def)
  then show ?thesis using assms(4) renew(1) by simp
next
  case (release s now tenant d epoch)
  then show ?thesis using assms(2) by (simp add: no_release_def)
qed

lemma epochs_run:
  "wf_store (world_store w) \<Longrightarrow> list_all no_release ops \<Longrightarrow> epochs_covered w \<Longrightarrow>
   epochs_ordered (granted w) \<Longrightarrow> epochs_ordered (granted (world_run C ops w))"
proof (induction ops arbitrary: w)
  case (Cons x ops)
  note effect = world_step_effect [OF Cons.prems(1), of C x]
  show ?case
    using Cons.IH [OF world_effect_wf [OF effect Cons.prems(1)]] epochs_effect [OF effect] Cons.prems
    by simp
qed simp

text \<open>
  C2. Exclusion of device leases. Any number of nodes acquire, renew, release and take over
  devices in any interleaving, reading one clock; whatever happens in the table of nodes in
  between. If two nodes that kept a live node lease during the run both still believe that they hold a
  device (the lease they were last given has not ended), they are the same node with the same lease,
  and it is the one the store resolves the device to.
\<close>

theorem lease_exclusive:
  assumes "column_laws C" and "wf_store (world_store w)" and "believes w = []"
    and "clocked t ops now"
    and "stays_alive C n ops w" and "stays_alive C m ops w"
    and "map_of (believes (world_run C ops w)) (n, d) = Some b" and "lease_running b now"
    and "map_of (believes (world_run C ops w)) (m, d) = Some c" and "lease_running c now"
  shows "n = m \<and> b = c \<and>
    (\<exists>tenant. owner_resolve (world_store (world_run C ops w)) now tenant d = Some b)"
proof -
  have "synced {n, m} t w"
    using assms(3) by (simp add: synced_def)
  then have sync: "synced {n, m} now (world_run C ops w)"
    by (rule synced_run [OF assms(1,2) _ assms(4)]) (use assms(5,6) in simp)
  obtain r where r: "owner_row_of (world_store (world_run C ops w)) d = Some r" "row_owner_node r = n"
      "row_info r = b"
    using syncedD [OF sync _ assms(7,8)] by auto
  obtain q where q: "owner_row_of (world_store (world_run C ops w)) d = Some q" "row_owner_node q = m"
      "row_info q = c"
    using syncedD [OF sync _ assms(9,10)] by auto
  have "owner_resolve (world_store (world_run C ops w)) now (row_tenant r) d = Some b"
    using r assms(8)
    by (auto simp: owner_resolve_def select_owner_def owner_row_of_def lease_running_def row_info_def
        split: option.splits)
  then show ?thesis
    using r q by auto
qed

definition sample_node :: "uuid \<Rightarrow> cluster_node" where
  "sample_node i =
     (cluster_node_new i (''i'' @ i) ''z'' ''1.0.0'' 0)\<lparr>node_lease_until := 9000000000, max_devices := 10\<rparr>"

definition sample_world :: world where
  "sample_world =
     \<lparr>world_store = \<lparr>store_nodes = [(''A'', sample_node ''A''), (''B'', sample_node ''B'')],
                     store_owners = [], store_devices = [(''t'', ''d'')]\<rparr>,
      believes = [], granted = []\<rparr>"

definition sample_service :: "uuid \<Rightarrow> owner_lease_service" where
  "sample_service n = \<lparr>lease_node = n, lease_ms = 30\<rparr>"

lemmas sample_world_simps =
  sample_world_def sample_node_def sample_service_def sample_codec_def cluster_node_new_def
  lease_acquire_def lease_renew_def owner_acquire_def owner_renew_def upsert_owner_def put_owner_def
  select_owner_def owner_get_def row_info_def takeable_def row_expired_def live_node_def
  utc_checked_add_def ns_per_ms_def note_grant_def lease_running_def owner_row_of_def
  lease_release_def owner_release_def Let_def

theorem lease_exclusive_witness:
  "\<exists>tenant. owner_resolve (world_store (world_run sample_codec
      [AcquireOp (sample_service ''A'') 0 0 ''t'' ''d'', AcquireOp (sample_service ''B'') 1000 1000 ''t'' ''d'',
       RenewOp (sample_service ''A'') 20000000 20000000 ''t'' ''d''] sample_world)) 40000000 tenant ''d''
    = Some \<lparr>owner_node_id = ''A'', owner_epoch = 1, owner_lease_until = Some 50000000\<rparr>"
  using lease_exclusive [of sample_codec sample_world 0
      "[AcquireOp (sample_service ''A'') 0 0 ''t'' ''d'', AcquireOp (sample_service ''B'') 1000 1000 ''t'' ''d'',
        RenewOp (sample_service ''A'') 20000000 20000000 ''t'' ''d'']" 40000000 "''A''" "''A''" "''d''"
      "\<lparr>owner_node_id = ''A'', owner_epoch = 1, owner_lease_until = Some 50000000\<rparr>"
      "\<lparr>owner_node_id = ''A'', owner_epoch = 1, owner_lease_until = Some 50000000\<rparr>"]
    sample_codec_laws(2)
  by (simp add: sample_world_simps wf_store_def)

text \<open>
  C21. Epochs grow. As long as no ownership is released, every grant of a device, by whichever
  node and through whichever of the two acquiring statements, has a larger epoch than all grants of
  the device before it: an epoch never belongs to two grants, and a holder that was replaced carries
  a smaller epoch than its successor.
\<close>

theorem epochs_increase:
  assumes "wf_store (world_store w)" and "granted w = []" and "list_all no_release ops"
  shows "sorted_wrt (\<lambda>later earlier. fst later = fst earlier \<longrightarrow> snd (snd earlier) < snd (snd later))
           (granted (world_run C ops w))"
  using epochs_run [OF assms(1,3), of C] assms(2)
  by (simp add: epochs_ordered_def epochs_covered_def)

theorem epochs_increase_witness:
  "map (snd \<circ> snd) (granted (world_run sample_codec
      [AcquireOp (sample_service ''A'') 0 0 ''t'' ''d'', AcquireOp (sample_service ''B'') 40000000 40000000 ''t'' ''d'']
      sample_world)) = [2, 1] \<and>
   sorted_wrt (\<lambda>later earlier. snd (snd earlier) < snd (snd later)) (granted (world_run sample_codec
      [AcquireOp (sample_service ''A'') 0 0 ''t'' ''d'', AcquireOp (sample_service ''B'') 40000000 40000000 ''t'' ''d'']
      sample_world))"
  using epochs_increase [of sample_world
      "[AcquireOp (sample_service ''A'') 0 0 ''t'' ''d'',
        AcquireOp (sample_service ''B'') 40000000 40000000 ''t'' ''d'']" sample_codec]
  by (simp add: sample_world_simps wf_store_def no_release_def)

text \<open>
  C40. A release restarts the epochs. When the holder of a device releases it, the row is
  deleted, and whichever node acquires the device next is granted epoch 1, however large the epoch
  of the previous holder was.
\<close>

theorem release_restarts_epochs:
  assumes "wf_store st" and "select_owner st tenant d = Some r" and "row_owner_node r = lease_node s"
    and "utc_checked_add C now' (lease_ms s') \<noteq> None"
  shows "\<exists>owner. snd (lease_acquire C s' now now' tenant d
             (lease_release s tenant d (row_owner_epoch r) st)) = Inr owner \<and>
           owner_node_id owner = lease_node s' \<and> owner_epoch owner = 1"
proof -
  let ?st = "lease_release s tenant d (row_owner_epoch r) st"
  have none: "owner_row_of ?st d = None"
    using assms(2,3) by (simp add: lease_release_def owner_row_of_release)
  have dev: "(tenant, d) \<in> set (store_devices ?st)"
    using assms(1) select_owner_SomeD [OF assms(2)] map_of_SomeD [of "store_owners st" d r]
    unfolding wf_store_def owner_row_of_def lease_release_def owner_release_simps by blast
  have "wf_store ?st"
    using assms(1) by (simp add: lease_release_def wf_owner_release)
  then show ?thesis
    using owner_acquire_eq [OF _ dev] none assms(4)
    by (auto simp: lease_acquire_def may_take_def next_epoch_def)
qed

theorem release_restarts_epochs_witness:
  "\<exists>owner. snd (lease_acquire sample_codec (sample_service ''B'') 3000 3000 ''t'' ''d''
      (lease_release (sample_service ''A'') ''t'' ''d'' 7
         (with_owner (world_store sample_world) ''d''
            (granted_row sample_codec ''t'' ''A'' 7 2000 40000000)))) = Inr owner \<and>
    owner_node_id owner = ''B'' \<and> owner_epoch owner = 1"
proof -
  let ?row = "granted_row sample_codec ''t'' ''A'' 7 2000 40000000"
  let ?st = "with_owner (world_store sample_world) ''d'' ?row"
  have "wf_store ?st" "select_owner ?st ''t'' ''d'' = Some ?row"
    by (simp_all add: wf_store_def with_owner_def sample_world_def select_owner_def granted_row_def)
  from release_restarts_epochs [OF this, of "sample_service ''A''" sample_codec 3000 "sample_service ''B''" 3000]
  show ?thesis
    by (simp add: sample_service_def sample_codec_def utc_checked_add_def ns_per_ms_def Let_def)
qed

end
