(* ===== verification/OwnerCache.thy ===== *)
theory OwnerCache
  imports OwnerLease
begin

text \<open>
  The caching owner resolver of \<open>cheetah-cluster-ownership/src/lease.rs\<close>.

  \<open>resolve\<close> locks the cache twice, around the lookup and around the insertion, and asks the
  repository in between without the lock. The two critical sections are the steps of a run, so
  concurrent calls interleave in every way. The results: the cache never holds more entries than
  its capacity and its two structures agree; an answer from the cache was read from the repository
  less than the time to live ago and its lease has not ended.
\<close>

type_synonym owner_key = "uuid \<times> uuid"

record cache_entry =
  entry_owner :: owner_info
  entry_valid_until :: instant

record cache_state =
  cache_entries :: "(owner_key, cache_entry) table"
  cache_order :: "owner_key list"
  cache_capacity :: nat

definition cache_new :: "nat \<Rightarrow> cache_state" where
  "cache_new capacity = \<lparr>cache_entries = [], cache_order = [], cache_capacity = capacity\<rparr>"

definition move_to_back :: "owner_key \<Rightarrow> cache_state \<Rightarrow> cache_state" where
  "move_to_back k c = c\<lparr>cache_order := filter (\<lambda>j. j \<noteq> k) (cache_order c) @ [k]\<rparr>"

definition evict_expired :: "instant \<Rightarrow> cache_state \<Rightarrow> cache_state" where
  "evict_expired now c =
     (let expired_keys = map fst (filter (\<lambda>(k, e). entry_valid_until e \<le> now) (cache_entries c))
      in c\<lparr>cache_entries := fold AList.delete expired_keys (cache_entries c),
           cache_order := filter (\<lambda>k. k \<notin> set expired_keys) (cache_order c)\<rparr>)"

definition evict_lru :: "cache_state \<Rightarrow> cache_state" where
  "evict_lru c =
     (case cache_order c of
        [] \<Rightarrow> c
      | k # ks \<Rightarrow> c\<lparr>cache_order := ks, cache_entries := AList.delete k (cache_entries c)\<rparr>)"

definition cache_insert :: "instant \<Rightarrow> owner_key \<Rightarrow> cache_entry \<Rightarrow> cache_state \<Rightarrow> cache_state" where
  "cache_insert now k e c =
     (if map_of (cache_entries c) k \<noteq> None
      then move_to_back k (c\<lparr>cache_entries := AList.update k e (cache_entries c)\<rparr>)
      else
        (let c1 = (if cache_capacity c \<le> length (cache_entries c) then
                     (let c2 = evict_expired now c
                      in if cache_capacity c2 \<le> length (cache_entries c2) then evict_lru c2 else c2)
                   else c)
         in c1\<lparr>cache_entries := AList.update k e (cache_entries c1),
               cache_order := cache_order c1 @ [k]\<rparr>))"

definition resolver_new :: "nat \<Rightarrow> cache_state" where
  "resolver_new max_capacity = cache_new (max max_capacity 1)"

definition cache_valid_until :: "codec \<Rightarrow> int \<Rightarrow> owner_info \<Rightarrow> instant \<Rightarrow> instant" where
  "cache_valid_until C ttl_ms owner cached_at =
     (let ttl_deadline = (case utc_checked_add C cached_at ttl_ms of None \<Rightarrow> cached_at | Some t \<Rightarrow> t)
      in case owner_lease_until owner of
           Some lease \<Rightarrow> min lease ttl_deadline
         | None \<Rightarrow> ttl_deadline)"

text \<open>The two critical sections of \<open>resolve\<close> and their composition with the answer of the
  repository.\<close>

definition resolve_lookup :: "instant \<Rightarrow> owner_key \<Rightarrow> cache_state \<Rightarrow> cache_state \<times> owner_info option" where
  "resolve_lookup now k c =
     (case map_of (cache_entries c) k of
        None \<Rightarrow> (c, None)
      | Some e \<Rightarrow>
          if now < entry_valid_until e then (move_to_back k c, Some (entry_owner e))
          else (c\<lparr>cache_entries := AList.delete k (cache_entries c),
                  cache_order := filter (\<lambda>j. j \<noteq> k) (cache_order c)\<rparr>, None))"

definition resolve_store ::
  "codec \<Rightarrow> int \<Rightarrow> instant \<Rightarrow> owner_key \<Rightarrow> owner_info option \<Rightarrow> cache_state \<Rightarrow> cache_state \<times> owner_info option" where
  "resolve_store C ttl_ms now k answer c =
     (case answer of
        None \<Rightarrow> (c, None)
      | Some o' \<Rightarrow>
          (let valid = cache_valid_until C ttl_ms o' now
           in if now < valid
              then (cache_insert now k \<lparr>entry_owner = o', entry_valid_until = valid\<rparr> c, Some o')
              else (c, None)))"

definition resolve ::
  "codec \<Rightarrow> int \<Rightarrow> (uuid \<Rightarrow> uuid \<Rightarrow> storage_error + owner_info option) \<Rightarrow> instant \<Rightarrow> uuid \<Rightarrow> uuid \<Rightarrow>
   cache_state \<Rightarrow> cache_state \<times> (storage_error + owner_info option)" where
  "resolve C ttl_ms repository_get now tenant device c =
     (case resolve_lookup now (tenant, device) c of
        (c1, Some owner) \<Rightarrow> (c1, Inr (Some owner))
      | (c1, None) \<Rightarrow>
          (case repository_get tenant device of
             Inl e \<Rightarrow> (c1, Inl e)
           | Inr answer \<Rightarrow>
               (let (c2, r) = resolve_store C ttl_ms now (tenant, device) answer c1 in (c2, Inr r))))"

section \<open>The invariant of the cache\<close>

definition wf_cache :: "cache_state \<Rightarrow> bool" where
  "wf_cache c \<longleftrightarrow>
     wf_table (cache_entries c) \<and> distinct (cache_order c) \<and>
     set (cache_order c) = fst ` set (cache_entries c) \<and>
     0 < cache_capacity c \<and> length (cache_entries c) \<le> cache_capacity c"

lemma fold_delete: "fold AList.delete ks t = filter (\<lambda>(k, v). k \<notin> set ks) t"
  by (induction ks arbitrary: t) (auto simp: AList.delete_eq filter_filter case_prod_beta intro!: filter_cong)

lemma table_update_new: "k \<notin> fst ` set t \<Longrightarrow> AList.update k v t = t @ [(k, v)]"
  by (induction t) auto

lemma wf_cache_new: "0 < n \<Longrightarrow> wf_cache (cache_new n)"
  by (simp add: wf_cache_def cache_new_def)

lemma wf_move_to_back:
  "wf_cache c \<Longrightarrow> map_of (cache_entries c) k \<noteq> None \<Longrightarrow> wf_cache (move_to_back k c)"
  by (auto simp: wf_cache_def move_to_back_def map_of_eq_None_iff)

lemma wf_cache_remove:
  "wf_cache c \<Longrightarrow> wf_cache (c\<lparr>cache_entries := AList.delete k (cache_entries c),
                              cache_order := filter (\<lambda>j. j \<noteq> k) (cache_order c)\<rparr>)"
  using le_trans [OF length_delete_le' [of k "cache_entries c"]]
  by (auto simp: wf_cache_def table_simps)

lemma evict_expired_entries:
  assumes "wf_cache c"
  shows "cache_entries (evict_expired now c) = filter (\<lambda>(k, e). now < entry_valid_until e) (cache_entries c)"
proof -
  let ?old = "map fst (filter (\<lambda>(k, e). entry_valid_until e \<le> now) (cache_entries c))"
  have "k \<notin> set ?old \<longleftrightarrow> now < entry_valid_until e" if "(k, e) \<in> set (cache_entries c)" for k e
  proof
    show "now < entry_valid_until e" if "k \<notin> set ?old"
      using that \<open>(k, e) \<in> set (cache_entries c)\<close> by force
    show "k \<notin> set ?old" if now: "now < entry_valid_until e"
    proof
      assume "k \<in> set ?old"
      then obtain e' where "(k, e') \<in> set (cache_entries c)" "entry_valid_until e' \<le> now" by auto
      moreover have "e' = e"
        using assms calculation(1) \<open>(k, e) \<in> set (cache_entries c)\<close> eq_key_imp_eq_value
        unfolding wf_cache_def by metis
      ultimately show False using now by simp
    qed
  qed
  then have "filter (\<lambda>(k, v). k \<notin> set ?old) (cache_entries c)
      = filter (\<lambda>(k, e). now < entry_valid_until e) (cache_entries c)"
    by (intro filter_cong refl) (simp add: case_prod_beta)
  then show ?thesis
    by (simp add: evict_expired_def fold_delete Let_def del: set_map)
qed

lemma evict_expired_order:
  assumes "wf_cache c"
  shows "cache_order (evict_expired now c)
    = filter (\<lambda>k. k \<in> fst ` set (cache_entries (evict_expired now c))) (cache_order c)"
proof -
  let ?old = "map fst (filter (\<lambda>(k, e). entry_valid_until e \<le> now) (cache_entries c))"
  have "k \<notin> set ?old \<longleftrightarrow> k \<in> fst ` set (filter (\<lambda>(k, v). k \<notin> set ?old) (cache_entries c))"
    if "k \<in> set (cache_order c)" for k
  proof -
    have "k \<in> fst ` set (cache_entries c)"
      using assms that unfolding wf_cache_def by blast
    then show ?thesis by (auto simp del: set_map)
  qed
  then have "filter (\<lambda>k. k \<notin> set ?old) (cache_order c)
      = filter (\<lambda>k. k \<in> fst ` set (filter (\<lambda>(k, v). k \<notin> set ?old) (cache_entries c))) (cache_order c)"
    by (intro filter_cong refl)
  then show ?thesis
    by (simp add: evict_expired_def fold_delete Let_def del: set_map)
qed

lemma wf_evict_expired:
  assumes "wf_cache c"
  shows "wf_cache (evict_expired now c)"
proof -
  note entries = evict_expired_entries [OF assms, of now] and order = evict_expired_order [OF assms, of now]
  have "set (cache_order (evict_expired now c)) = fst ` set (cache_entries (evict_expired now c))"
  proof -
    have "fst ` set (cache_entries (evict_expired now c)) \<subseteq> set (cache_order c)"
      using assms unfolding entries wf_cache_def by auto
    then show ?thesis unfolding order by auto
  qed
  moreover have "wf_table (cache_entries (evict_expired now c))"
    "length (cache_entries (evict_expired now c)) \<le> length (cache_entries c)"
    using assms unfolding entries wf_cache_def by (simp_all add: distinct_map_filter)
  moreover have "distinct (cache_order (evict_expired now c))"
    using assms unfolding order wf_cache_def by simp
  moreover have "cache_capacity (evict_expired now c) = cache_capacity c"
    by (simp add: evict_expired_def Let_def)
  ultimately show ?thesis
    using assms by (simp add: wf_cache_def)
qed

lemma wf_evict_lru:
  assumes "wf_cache c"
  shows "wf_cache (evict_lru c)" and "length (cache_entries (evict_lru c)) < cache_capacity (evict_lru c)"
proof -
  have "wf_cache (evict_lru c) \<and> length (cache_entries (evict_lru c)) < cache_capacity (evict_lru c)"
  proof (cases "cache_order c")
    case Nil
    then show ?thesis using assms by (simp add: wf_cache_def evict_lru_def)
  next
    case (Cons k ks)
    then have "k \<in> fst ` set (cache_entries c)"
      using assms by (auto simp: wf_cache_def)
    then have "length (AList.delete k (cache_entries c)) < length (cache_entries c)"
      by (rule length_delete_less)
    moreover have "set ks = fst ` set (AList.delete k (cache_entries c))"
    proof -
      have "set ks = fst ` set (cache_entries c) - {k}"
        using assms Cons by (auto simp: wf_cache_def)
      then show ?thesis by (force simp: table_simps)
    qed
    ultimately show ?thesis
      using assms Cons by (auto simp: wf_cache_def evict_lru_def table_simps)
  qed
  then show "wf_cache (evict_lru c)" "length (cache_entries (evict_lru c)) < cache_capacity (evict_lru c)"
    by simp_all
qed

definition make_cache_room :: "instant \<Rightarrow> cache_state \<Rightarrow> cache_state" where
  "make_cache_room now c =
     (if cache_capacity c \<le> length (cache_entries c) then
        (let c2 = evict_expired now c
         in if cache_capacity c2 \<le> length (cache_entries c2) then evict_lru c2 else c2)
      else c)"

lemma make_cache_room:
  assumes "wf_cache c"
  shows "wf_cache (make_cache_room now c)"
    and "length (cache_entries (make_cache_room now c)) < cache_capacity (make_cache_room now c)"
    and "set (cache_entries (make_cache_room now c)) \<subseteq> set (cache_entries c)"
proof -
  have "set (cache_entries (evict_expired now c)) \<subseteq> set (cache_entries c)"
    by (auto simp: evict_expired_entries [OF assms])
  moreover have "set (cache_entries (evict_lru (evict_expired now c))) \<subseteq> set (cache_entries (evict_expired now c))"
    by (auto simp: evict_lru_def table_simps split: list.splits)
  ultimately show "set (cache_entries (make_cache_room now c)) \<subseteq> set (cache_entries c)"
    by (auto simp: make_cache_room_def Let_def)
  show "wf_cache (make_cache_room now c)"
    "length (cache_entries (make_cache_room now c)) < cache_capacity (make_cache_room now c)"
    using assms wf_evict_expired [OF assms, of now] wf_evict_lru [OF wf_evict_expired [OF assms, of now]]
    by (simp_all add: make_cache_room_def Let_def)
qed

lemma cache_insert_eq:
  "cache_insert now k e c =
     (if map_of (cache_entries c) k \<noteq> None
      then move_to_back k (c\<lparr>cache_entries := AList.update k e (cache_entries c)\<rparr>)
      else (make_cache_room now c)\<lparr>cache_entries := AList.update k e (cache_entries (make_cache_room now c)),
             cache_order := cache_order (make_cache_room now c) @ [k]\<rparr>)"
  by (simp add: cache_insert_def make_cache_room_def Let_def)

lemma wf_cache_insert:
  assumes "wf_cache c"
  shows "wf_cache (cache_insert now k e c)"
proof (cases "map_of (cache_entries c) k = None")
  case True
  let ?c = "make_cache_room now c"
  have "k \<notin> fst ` set (cache_entries ?c)"
    using True make_cache_room(3) [OF assms, of now] by (force simp: map_of_eq_None_iff)
  then have "AList.update k e (cache_entries ?c) = cache_entries ?c @ [(k, e)]"
    by (rule table_update_new)
  then show ?thesis
    using True make_cache_room(1,2) [OF assms, of now] \<open>k \<notin> fst ` set (cache_entries ?c)\<close>
    by (auto simp: cache_insert_eq wf_cache_def)
next
  case False
  then have "wf_cache (c\<lparr>cache_entries := AList.update k e (cache_entries c)\<rparr>)"
    using assms by (auto simp: wf_cache_def table_simps update_keys map_of_eq_None_iff dom_update)
  then show ?thesis
    using False by (simp add: cache_insert_eq wf_move_to_back table_simps)
qed

section \<open>Concurrent resolutions\<close>

datatype cache_op =
    LookupOp instant owner_key
  | StoreOp instant owner_key "owner_info option"

fun cache_step :: "codec \<Rightarrow> int \<Rightarrow> cache_op \<Rightarrow> cache_state \<Rightarrow> cache_state" where
  "cache_step C ttl (LookupOp now k) c = fst (resolve_lookup now k c)"
| "cache_step C ttl (StoreOp now k answer) c = fst (resolve_store C ttl now k answer c)"

definition cache_run :: "codec \<Rightarrow> int \<Rightarrow> cache_op list \<Rightarrow> cache_state \<Rightarrow> cache_state" where
  "cache_run C ttl ops c = fold (cache_step C ttl) ops c"

text \<open>Every entry was stored by an operation, with a lifetime that had begun.\<close>

definition entries_stored :: "codec \<Rightarrow> int \<Rightarrow> cache_op set \<Rightarrow> cache_state \<Rightarrow> bool" where
  "entries_stored C ttl past c \<longleftrightarrow>
     (\<forall>(k, e) \<in> set (cache_entries c). \<exists>now. StoreOp now k (Some (entry_owner e)) \<in> past \<and>
        entry_valid_until e = cache_valid_until C ttl (entry_owner e) now \<and> now < entry_valid_until e)"

lemma entries_storedD:
  "entries_stored C ttl past c \<Longrightarrow> (k, e) \<in> set (cache_entries c) \<Longrightarrow>
   \<exists>now. StoreOp now k (Some (entry_owner e)) \<in> past \<and>
     entry_valid_until e = cache_valid_until C ttl (entry_owner e) now \<and> now < entry_valid_until e"
  unfolding entries_stored_def by blast

lemma entries_stored_subset:
  "entries_stored C ttl past c \<Longrightarrow> set (cache_entries c') \<subseteq> set (cache_entries c) \<Longrightarrow> past \<subseteq> past' \<Longrightarrow>
   entries_stored C ttl past' c'"
  unfolding entries_stored_def by blast

lemma cache_insert_entries:
  assumes "wf_cache c"
  shows "set (cache_entries (cache_insert now k e c)) \<subseteq> insert (k, e) (set (cache_entries c))"
  using make_cache_room(3) [OF assms, of now] set_table_update [of k e "cache_entries c"]
    set_table_update [of k e "cache_entries (make_cache_room now c)"]
  by (auto simp: cache_insert_eq move_to_back_def)

lemma resolve_lookup_wf:
  assumes "wf_cache c"
  shows "wf_cache (fst (resolve_lookup now k c))"
    and "set (cache_entries (fst (resolve_lookup now k c))) \<subseteq> set (cache_entries c)"
  using assms wf_move_to_back [OF assms, of k] wf_cache_remove [OF assms, of k]
  by (auto simp: resolve_lookup_def move_to_back_def table_simps split: option.splits)

lemma cache_step_inv:
  assumes "wf_cache c" and "entries_stored C ttl past c"
  shows "wf_cache (cache_step C ttl x c) \<and> entries_stored C ttl (insert x past) (cache_step C ttl x c) \<and>
    cache_capacity (cache_step C ttl x c) = cache_capacity c"
proof (cases x)
  case (LookupOp now k)
  have "cache_capacity (fst (resolve_lookup now k c)) = cache_capacity c"
    by (simp add: resolve_lookup_def move_to_back_def split: option.splits)
  then show ?thesis
    using resolve_lookup_wf [OF assms(1), of now k] entries_stored_subset [OF assms(2)]
    by (simp add: LookupOp subset_insertI)
next
  case (StoreOp now k answer)
  show ?thesis
  proof (cases "\<exists>owner. answer = Some owner \<and> now < cache_valid_until C ttl owner now")
    case True
    then obtain owner where owner: "answer = Some owner" "now < cache_valid_until C ttl owner now" by blast
    let ?e = "\<lparr>entry_owner = owner, entry_valid_until = cache_valid_until C ttl owner now\<rparr>"
    have c: "cache_step C ttl x c = cache_insert now k ?e c"
      using owner by (simp add: StoreOp resolve_store_def)
    have "entries_stored C ttl (insert x past) (cache_insert now k ?e c)"
      unfolding entries_stored_def
    proof (intro ballI, clarify)
      fix t d f assume "((t, d), f) \<in> set (cache_entries (cache_insert now k ?e c))"
      then have "((t, d), f) = (k, ?e) \<or> ((t, d), f) \<in> set (cache_entries c)"
        using cache_insert_entries [OF assms(1)] by blast
      then show "\<exists>now. StoreOp now (t, d) (Some (entry_owner f)) \<in> insert x past \<and>
          entry_valid_until f = cache_valid_until C ttl (entry_owner f) now \<and> now < entry_valid_until f"
        using owner StoreOp entries_storedD [OF assms(2), of "(t, d)" f] by auto
    qed
    moreover have "cache_capacity (cache_insert now k ?e c) = cache_capacity c"
      by (simp add: cache_insert_eq move_to_back_def make_cache_room_def evict_expired_def evict_lru_def
          Let_def split: list.splits)
    ultimately show ?thesis
      using wf_cache_insert [OF assms(1)] by (simp add: c)
  next
    case False
    then have "cache_step C ttl x c = c"
      by (auto simp: StoreOp resolve_store_def split: option.splits)
    then show ?thesis
      using assms entries_stored_subset [OF assms(2) subset_refl] by (simp add: subset_insertI)
  qed
qed

lemma cache_run_inv:
  "wf_cache c \<Longrightarrow> entries_stored C ttl past c \<Longrightarrow>
   wf_cache (cache_run C ttl ops c) \<and> entries_stored C ttl (past \<union> set ops) (cache_run C ttl ops c) \<and>
   cache_capacity (cache_run C ttl ops c) = cache_capacity c"
proof (induction ops arbitrary: c past)
  case (Cons x ops)
  show ?case
    using cache_step_inv [OF Cons.prems, of x] Cons.IH [of "cache_step C ttl x c" "insert x past"]
    by (simp add: cache_run_def)
qed (simp add: cache_run_def)

lemma valid_until_bounds:
  assumes "cached_at < cache_valid_until C ttl owner cached_at" and "now < cache_valid_until C ttl owner cached_at"
  shows "lease_running owner now \<and> now < cached_at + ttl * ns_per_ms"
  using assms utc_checked_add_SomeD [of C cached_at ttl]
  by (auto simp: cache_valid_until_def lease_running_def Let_def split: option.splits)

lemma resolve_lookup_hit:
  assumes "entries_stored C ttl past c" and "resolve_lookup now k c = (c', Some owner)"
  shows "lease_running owner now \<and>
    (\<exists>now0. StoreOp now0 k (Some owner) \<in> past \<and> now < now0 + ttl * ns_per_ms)"
proof -
  obtain e where "map_of (cache_entries c) k = Some e" "now < entry_valid_until e" "owner = entry_owner e"
    using assms(2) by (auto simp: resolve_lookup_def split: option.splits if_splits)
  then show ?thesis
    using entries_storedD [OF assms(1) map_of_SomeD] valid_until_bounds by metis
qed

text \<open>
  C20. The caching resolver is bounded and fresh. After any interleaving of the critical sections
  of concurrent resolutions, the cache holds at most its configured number of entries (at least
  one). A resolution that then answers with an owner answers with one whose lease has not ended;
  and either the repository returned it in this very call, or an earlier call stored what the
  repository had returned for the device, less than the time to live ago.
\<close>

theorem resolver_bounded_and_fresh:
  assumes "c = cache_run C ttl ops (resolver_new n)"
  shows "length (cache_entries c) \<le> max n 1 \<and>
    (resolve C ttl repository_get now tenant device c = (c', Inr (Some owner)) \<longrightarrow>
       lease_running owner now \<and>
       (repository_get tenant device = Inr (Some owner) \<or>
        (\<exists>now0. StoreOp now0 (tenant, device) (Some owner) \<in> set ops \<and> now < now0 + ttl * ns_per_ms)))"
proof (intro conjI impI)
  have "wf_cache (resolver_new n)" "entries_stored C ttl {} (resolver_new n)"
    by (simp_all add: resolver_new_def wf_cache_new) (simp add: entries_stored_def cache_new_def)
  then have inv: "wf_cache c" "entries_stored C ttl (set ops) c" "cache_capacity c = max n 1"
    using cache_run_inv [of "resolver_new n" C ttl "{}" ops]
    by (simp_all add: assms) (simp add: resolver_new_def cache_new_def)
  then show "length (cache_entries c) \<le> max n 1"
    by (simp add: wf_cache_def)
  assume res: "resolve C ttl repository_get now tenant device c = (c', Inr (Some owner))"
  obtain c1 r where look: "resolve_lookup now (tenant, device) c = (c1, r)" by fastforce
  have "lease_running owner now \<and> (repository_get tenant device = Inr (Some owner) \<or>
    (\<exists>now0. StoreOp now0 (tenant, device) (Some owner) \<in> set ops \<and> now < now0 + ttl * ns_per_ms))"
  proof (cases r)
    case None
    then have "repository_get tenant device = Inr (Some owner)"
      "now < cache_valid_until C ttl owner now"
      using res look by (auto simp: resolve_def resolve_store_def Let_def
          split: sum.splits option.splits if_splits)
    then show ?thesis using valid_until_bounds [of now C ttl owner now] by simp
  next
    case (Some o')
    then have "r = Some owner" using res look by (simp add: resolve_def)
    then show ?thesis using resolve_lookup_hit [OF inv(2)] look by blast
  qed
  then show "lease_running owner now" and "repository_get tenant device = Inr (Some owner) \<or>
    (\<exists>now0. StoreOp now0 (tenant, device) (Some owner) \<in> set ops \<and> now < now0 + ttl * ns_per_ms)"
    by blast+
qed

definition sample_owner :: owner_info where
  "sample_owner = \<lparr>owner_node_id = ''A'', owner_epoch = 3, owner_lease_until = Some 9000000\<rparr>"

theorem resolver_bounded_and_fresh_witness:
  "\<exists>now0. StoreOp now0 (''t'', ''d'') (Some sample_owner) \<in> set [LookupOp 0 (''t'', ''d''),
      StoreOp 0 (''t'', ''d'') (Some sample_owner)] \<and> 2000000 < now0 + 5 * ns_per_ms"
proof -
  let ?ops = "[LookupOp 0 (''t'', ''d''), StoreOp 0 (''t'', ''d'') (Some sample_owner)]"
  have "resolve sample_codec 5 (\<lambda>t d. Inr None) 2000000 ''t'' ''d'' (cache_run sample_codec 5 ?ops (resolver_new 8))
      = (cache_run sample_codec 5 ?ops (resolver_new 8), Inr (Some sample_owner))"
    by (simp add: cache_run_def resolver_new_def cache_new_def resolve_def resolve_lookup_def
        resolve_store_def cache_insert_def cache_valid_until_def move_to_back_def sample_owner_def
        sample_codec_def utc_checked_add_def ns_per_ms_def Let_def)
  with resolver_bounded_and_fresh [OF refl, of sample_codec 5 ?ops 8 "\<lambda>t d. Inr None" 2000000 "''t''" "''d''"]
  show ?thesis by simp
qed

end
