(* ===== verification/Assignment.thy ===== *)
theory Assignment
  imports
    OwnerLease
    "HOL-Library.Option_ord"
    "HOL-Library.Multiset"
begin

unbundle bit_operations_syntax

text \<open>
  Device assignment (\<open>cheetah-cluster-ownership/src/assignment.rs\<close>): the sliding-window rate
  limiter with its permits, the choice of a node by rendezvous hashing over all pages of live
  nodes, and \<open>assign\<close>.

  Monotonic times are milliseconds (\<^typ>\<open>int\<close>), whose differences fit in 64 bits; the hash is computed on 64-bit words. \<open>assign\<close>
  runs in the two phases between which it releases the repositories: looking up and selecting, then
  acquiring. The results: the limiter admits no more assignments in any second than configured; the
  selection ends and yields the eligible node with the least score whatever the page boundaries;
  \<open>assign\<close> leaves the store, the answer and the reserved slots consistent.
\<close>

section \<open>The rate limiter\<close>

record sliding_window =
  max_per_window :: nat
  window_ms :: int
  window_events :: "int list"
  window_pending :: nat
  window_last_used :: "int option"

definition window_new :: "nat \<Rightarrow> int \<Rightarrow> sliding_window" where
  "window_new mx ms = \<lparr>max_per_window = mx, window_ms = ms, window_events = [], window_pending = 0,
                      window_last_used = None\<rparr>"

definition window_prune :: "int \<Rightarrow> sliding_window \<Rightarrow> sliding_window" where
  "window_prune now w = w\<lparr>window_events := dropWhile (\<lambda>f. window_ms w < now - f) (window_events w)\<rparr>"

definition window_reserve :: "int \<Rightarrow> sliding_window \<Rightarrow> sliding_window \<times> bool" where
  "window_reserve now w =
     (let w' = window_prune now w
      in if max_per_window w' \<le> length (window_events w') + window_pending w' then (w', False)
         else (w'\<lparr>window_pending := window_pending w' + 1\<rparr>, True))"

definition window_commit :: "int \<Rightarrow> sliding_window \<Rightarrow> sliding_window" where
  "window_commit now w =
     w\<lparr>window_last_used := Some now, window_pending := window_pending w - 1,
       window_events := window_events w @ [now]\<rparr>"

definition window_rollback :: "sliding_window \<Rightarrow> sliding_window" where
  "window_rollback w = w\<lparr>window_pending := window_pending w - 1\<rparr>"

definition window_is_active :: "int \<Rightarrow> sliding_window \<Rightarrow> sliding_window \<times> bool" where
  "window_is_active now w =
     (let w' = window_prune now w in (w', window_events w' \<noteq> [] \<or> 0 < window_pending w'))"

record rate_limit_config =
  global_per_second :: nat
  per_node_per_second :: nat
  max_tracked_nodes :: nat

definition tracked_nodes_limit :: nat where "tracked_nodes_limit = 1000000"

record assign_limiter =
  limiter_global :: sliding_window
  limiter_per_node :: "(uuid, sliding_window) table"
  limiter_config :: rate_limit_config

definition limiter_new :: "rate_limit_config \<Rightarrow> assign_limiter" where
  "limiter_new cfg =
     \<lparr>limiter_global = window_new (global_per_second cfg) 1000, limiter_per_node = [],
      limiter_config = cfg\<lparr>max_tracked_nodes := min (max_tracked_nodes cfg) tracked_nodes_limit\<rparr>\<rparr>"

definition limiter_reserve :: "int \<Rightarrow> uuid \<Rightarrow> assign_limiter \<Rightarrow> assign_limiter \<times> bool" where
  "limiter_reserve now n l =
     (let (g, ok) = window_reserve now (limiter_global l)
      in if \<not> ok then (l\<lparr>limiter_global := g\<rparr>, False)
         else
           (let w = (case map_of (limiter_per_node l) n of
                       None \<Rightarrow> window_new (per_node_per_second (limiter_config l)) 1000
                     | Some w \<Rightarrow> w);
                (w', ok') = window_reserve now w;
                per_node = AList.update n w' (limiter_per_node l)
            in if ok' then (l\<lparr>limiter_global := g, limiter_per_node := per_node\<rparr>, True)
               else (l\<lparr>limiter_global := window_rollback g, limiter_per_node := per_node\<rparr>, False)))"

definition trim_per_node :: "int \<Rightarrow> assign_limiter \<Rightarrow> assign_limiter" where
  "trim_per_node now l =
     (if length (limiter_per_node l) \<le> max_tracked_nodes (limiter_config l) then l
      else
        (let kept = map (\<lambda>(n, w). (n, fst (window_is_active now w)))
                      (filter (\<lambda>(n, w). snd (window_is_active now w)) (limiter_per_node l))
         in if max_tracked_nodes (limiter_config l) < length kept then
              (let ordered = sort_key snd (map (\<lambda>(n, w). (n, window_last_used w)) kept);
                   excess = length kept - max_tracked_nodes (limiter_config l)
               in l\<lparr>limiter_per_node := fold AList.delete (map fst (take excess ordered)) kept\<rparr>)
            else l\<lparr>limiter_per_node := kept\<rparr>))"

definition update_window :: "uuid \<Rightarrow> (sliding_window \<Rightarrow> sliding_window) \<Rightarrow> (uuid, sliding_window) table \<Rightarrow>
    (uuid, sliding_window) table" where
  "update_window n f t = (case map_of t n of None \<Rightarrow> t | Some w \<Rightarrow> AList.update n (f w) t)"

definition limiter_commit :: "int \<Rightarrow> uuid \<Rightarrow> assign_limiter \<Rightarrow> assign_limiter" where
  "limiter_commit now n l =
     trim_per_node now
       (l\<lparr>limiter_global := window_commit now (limiter_global l),
          limiter_per_node := update_window n (window_commit now) (limiter_per_node l)\<rparr>)"

definition limiter_rollback :: "uuid \<Rightarrow> assign_limiter \<Rightarrow> assign_limiter" where
  "limiter_rollback n l =
     l\<lparr>limiter_global := window_rollback (limiter_global l),
       limiter_per_node := update_window n window_rollback (limiter_per_node l)\<rparr>"

subsection \<open>Permits\<close>

text \<open>A granted reservation is an open permit (its time and node) until it is committed or dropped.\<close>

record limiter_run =
  run_limiter :: assign_limiter
  open_permits :: "(int \<times> uuid) list"
  committed :: "(int \<times> uuid) list"

datatype limiter_op = ReserveSlot int uuid | CommitPermit nat | DropPermit nat

definition remove_nth :: "nat \<Rightarrow> 'a list \<Rightarrow> 'a list" where
  "remove_nth i xs = take i xs @ drop (Suc i) xs"

fun limiter_step :: "limiter_op \<Rightarrow> limiter_run \<Rightarrow> limiter_run" where
  "limiter_step (ReserveSlot now n) s =
     (let (l, ok) = limiter_reserve now n (run_limiter s)
      in s\<lparr>run_limiter := l, open_permits := (if ok then open_permits s @ [(now, n)] else open_permits s)\<rparr>)"
| "limiter_step (CommitPermit i) s =
     (if i < length (open_permits s) then
        (let (now, n) = open_permits s ! i
         in s\<lparr>run_limiter := limiter_commit now n (run_limiter s),
              open_permits := remove_nth i (open_permits s), committed := (now, n) # committed s\<rparr>)
      else s)"
| "limiter_step (DropPermit i) s =
     (if i < length (open_permits s) then
        (let (now, n) = open_permits s ! i
         in s\<lparr>run_limiter := limiter_rollback n (run_limiter s),
              open_permits := remove_nth i (open_permits s)\<rparr>)
      else s)"

fun op_clock :: "limiter_op \<Rightarrow> int \<Rightarrow> int" where
  "op_clock (ReserveSlot now n) t = now"
| "op_clock _ t = t"

fun reserve_clocked :: "int \<Rightarrow> limiter_op list \<Rightarrow> bool" where
  "reserve_clocked t [] \<longleftrightarrow> True"
| "reserve_clocked t (x # ops) \<longleftrightarrow> t \<le> op_clock x t \<and> reserve_clocked (op_clock x t) ops"

text \<open>Admitted assignments (committed or still open) whose reservation lies in the second from
  \<open>a\<close>.\<close>

definition admitted_in :: "int \<Rightarrow> limiter_run \<Rightarrow> nat" where
  "admitted_in a s = length (filter (\<lambda>(t, n). a \<le> t \<and> t \<le> a + 1000) (committed s @ open_permits s))"

definition limiter_inv :: "int \<Rightarrow> limiter_run \<Rightarrow> bool" where
  "limiter_inv clock s \<longleftrightarrow>
     (let g = limiter_global (run_limiter s)
      in window_ms g = 1000 \<and> window_pending g = length (open_permits s) \<and>
         filter_mset (\<lambda>t. clock - 1000 \<le> t) (mset (map fst (committed s))) \<subseteq># mset (window_events g) \<and>
         (\<forall>(t, n) \<in> set (committed s @ open_permits s). t \<le> clock) \<and>
         (\<forall>a. admitted_in a s \<le> max_per_window g))"

lemma trim_global [simp]: "limiter_global (trim_per_node now l) = limiter_global l"
  by (simp add: trim_per_node_def Let_def)

lemma mset_remove_nth: "i < length xs \<Longrightarrow> mset xs = add_mset (xs ! i) (mset (remove_nth i xs))"
  by (metis add_mset_add_single id_take_nth_drop mset.simps(2) mset_append remove_nth_def
      union_mset_add_mset_right add_mset_remove_trivial mset_append)

lemma length_remove_nth: "i < length xs \<Longrightarrow> length (remove_nth i xs) = length xs - 1"
  by (auto simp: remove_nth_def)

lemma admitted_in_mset:
  "admitted_in a s = size (filter_mset (\<lambda>(t, n). a \<le> t \<and> t \<le> a + 1000)
     (mset (committed s) + mset (open_permits s)))"
  by (simp add: admitted_in_def flip: mset_filter)

lemma filter_dropWhile:
  "filter (\<lambda>t. now - 1000 \<le> t) (dropWhile (\<lambda>f. 1000 < now - f) es) = filter (\<lambda>t. now - 1000 \<le> (t :: int)) es"
  by (induction es) auto

lemma prune_keeps_recent:
  assumes "filter_mset (\<lambda>t. clock - 1000 \<le> t) M \<subseteq># mset (window_events g)" and "window_ms g = 1000"
    and "clock \<le> now"
  shows "filter_mset (\<lambda>t. now - 1000 \<le> t) M \<subseteq># mset (window_events (window_prune now g))"
proof -
  have "filter_mset (\<lambda>t. now - 1000 \<le> t) M
      = filter_mset (\<lambda>t. now - 1000 \<le> t) (filter_mset (\<lambda>t. clock - 1000 \<le> t) M)"
    using assms(3) by (auto intro!: filter_mset_cong simp: filter_filter_mset)
  also have "\<dots> \<subseteq># filter_mset (\<lambda>t. now - 1000 \<le> t) (mset (window_events g))"
    using assms(1) by (rule multiset_filter_mono)
  also have "\<dots> = mset (filter (\<lambda>t. now - 1000 \<le> t) (window_events g))"
    by simp
  also have "filter (\<lambda>t. now - 1000 \<le> t) (window_events g)
      = filter (\<lambda>t. now - 1000 \<le> t) (window_events (window_prune now g))"
    using assms(2) by (simp add: window_prune_def filter_dropWhile)
  also have "mset \<dots> \<subseteq># mset (window_events (window_prune now g))"
    by (simp add: multiset_filter_subset)
  finally show ?thesis .
qed

lemma window_prune_simps [simp]:
  "window_ms (window_prune now w) = window_ms w"
  "window_pending (window_prune now w) = window_pending w"
  "max_per_window (window_prune now w) = max_per_window w"
  by (simp_all add: window_prune_def)

text \<open>What a reservation does to the global window.\<close>

lemma limiter_reserve_global:
  obtains (admitted) l where "limiter_reserve now n l0 = (l, True)"
      "limiter_global l = (window_prune now (limiter_global l0))
         \<lparr>window_pending := window_pending (limiter_global l0) + 1\<rparr>"
      "length (window_events (window_prune now (limiter_global l0))) + window_pending (limiter_global l0)
         < max_per_window (limiter_global l0)"
  | (refused) l where "limiter_reserve now n l0 = (l, False)"
      "limiter_global l = window_prune now (limiter_global l0)"
proof (cases "snd (window_reserve now (limiter_global l0))")
  case False
  then have "limiter_reserve now n l0 = (l0\<lparr>limiter_global := window_prune now (limiter_global l0)\<rparr>, False)"
    by (auto simp: limiter_reserve_def window_reserve_def Let_def split: if_splits)
  then show ?thesis using refused by simp
next
  case True
  let ?w = "case map_of (limiter_per_node l0) n of
      None \<Rightarrow> window_new (per_node_per_second (limiter_config l0)) 1000 | Some w \<Rightarrow> w"
  have room: "length (window_events (window_prune now (limiter_global l0))) + window_pending (limiter_global l0)
      < max_per_window (limiter_global l0)"
    using True by (auto simp: window_reserve_def Let_def split: if_splits)
  then have g: "window_reserve now (limiter_global l0) = ((window_prune now (limiter_global l0))
      \<lparr>window_pending := window_pending (limiter_global l0) + 1\<rparr>, True)"
    by (simp add: window_reserve_def Let_def)
  show ?thesis
  proof (cases "snd (window_reserve now ?w)")
    case True
    then show ?thesis
      using admitted [OF _ _ room] g by (auto simp: limiter_reserve_def Let_def split_beta)
  next
    case False
    then show ?thesis
      using refused g by (auto simp: limiter_reserve_def window_rollback_def Let_def split_beta)
  qed
qed

lemma size_filter_le: "size (filter_mset P (M :: 'a multiset)) \<le> size M"
  by (simp add: size_filter_mset_lesseq)

lemma recent_bound:
  fixes now a :: int
  assumes "filter_mset (\<lambda>t. now - 1000 \<le> t) (mset (map fst cs)) \<subseteq># mset es" and "now - 1000 \<le> a"
  shows "length (filter (\<lambda>(t, n). a \<le> t \<and> t \<le> a + 1000) cs) \<le> length es"
proof -
  have "length (filter (\<lambda>(t, n). a \<le> t \<and> t \<le> a + 1000) cs) \<le> length (filter (\<lambda>(t, n). now - 1000 \<le> t) cs)"
    using assms(2) by (induction cs) auto
  also have "\<dots> = length (filter (\<lambda>t. now - 1000 \<le> t) (map fst cs))"
    by (induction cs) auto
  also have "\<dots> \<le> length es"
    using size_mset_mono [OF assms(1)] by (metis mset_filter size_mset)
  finally show ?thesis .
qed

lemma limiter_inv_new:
  "limiter_inv t \<lparr>run_limiter = limiter_new cfg, open_permits = [], committed = []\<rparr>"
  by (simp add: limiter_inv_def limiter_new_def window_new_def admitted_in_def)

lemma limiter_inv_reserve:
  assumes inv: "limiter_inv clock s" and "clock \<le> now"
  shows "limiter_inv now (limiter_step (ReserveSlot now n) s)"
proof -
  let ?g = "limiter_global (run_limiter s)"
  have g: "window_ms ?g = 1000" "window_pending ?g = length (open_permits s)"
      "filter_mset (\<lambda>t. clock - 1000 \<le> t) (mset (map fst (committed s))) \<subseteq># mset (window_events ?g)"
      "\<forall>a. admitted_in a s \<le> max_per_window ?g"
    and times: "\<forall>(t, n) \<in> set (committed s @ open_permits s). t \<le> clock"
    using inv by (auto simp: limiter_inv_def Let_def)
  have recent: "filter_mset (\<lambda>t. now - 1000 \<le> t) (mset (map fst (committed s)))
      \<subseteq># mset (window_events (window_prune now ?g))"
    using g(3,1) assms(2) by (rule prune_keeps_recent)
  have times': "\<forall>(t, n) \<in> set (committed s @ open_permits s). t \<le> now"
    using times assms(2) by fastforce
  show ?thesis
  proof (cases rule: limiter_reserve_global [of now n "run_limiter s"])
    case (admitted l)
    let ?s = "s\<lparr>run_limiter := l, open_permits := open_permits s @ [(now, n)]\<rparr>"
    have "admitted_in a ?s \<le> max_per_window ?g" for a
    proof (cases "a \<le> now \<and> now \<le> a + 1000")
      case True
      have "length (filter (\<lambda>(t, n). a \<le> t \<and> t \<le> a + 1000) (committed s))
          \<le> length (window_events (window_prune now ?g))"
        using recent True by (intro recent_bound [where now = now]) auto
      moreover have "length (filter (\<lambda>(t, n). a \<le> t \<and> t \<le> a + 1000) (open_permits s)) \<le> window_pending ?g"
        using g(2) by simp
      ultimately show ?thesis
        using admitted(3) True by (simp add: admitted_in_def)
    next
      case False
      then have "admitted_in a ?s = admitted_in a s" by (auto simp: admitted_in_def)
      then show ?thesis using g(4) by simp
    qed
    then show ?thesis
      using admitted(1,2) g(1,2) recent times' by (auto simp: limiter_inv_def Let_def)
  next
    case (refused l)
    then show ?thesis
      using g recent times' by (auto simp: limiter_inv_def Let_def admitted_in_def)
  qed
qed

lemma limiter_inv_iff:
  "limiter_inv clock s \<longleftrightarrow>
     window_ms (limiter_global (run_limiter s)) = 1000 \<and>
     window_pending (limiter_global (run_limiter s)) = length (open_permits s) \<and>
     filter_mset (\<lambda>t. clock - 1000 \<le> t) (mset (map fst (committed s)))
       \<subseteq># mset (window_events (limiter_global (run_limiter s))) \<and>
     (\<forall>p \<in> set (committed s) \<union> set (open_permits s). fst p \<le> clock) \<and>
     (\<forall>a. admitted_in a s \<le> max_per_window (limiter_global (run_limiter s)))"
  by (auto simp: limiter_inv_def Let_def case_prod_beta)

lemma limiter_commit_global [simp]:
  "limiter_global (limiter_commit now n l) = window_commit now (limiter_global l)"
  "limiter_global (limiter_rollback n l) = window_rollback (limiter_global l)"
  by (simp_all add: limiter_commit_def limiter_rollback_def)

lemma limiter_inv_commit:
  assumes inv: "limiter_inv clock s"
  shows "limiter_inv clock (limiter_step (CommitPermit i) s)"
proof (cases "i < length (open_permits s)")
  case True
  obtain now n where i: "open_permits s ! i = (now, n)" by fastforce
  let ?g = "limiter_global (run_limiter s)"
  let ?s = "s\<lparr>run_limiter := limiter_commit now n (run_limiter s),
      open_permits := remove_nth i (open_permits s), committed := (now, n) # committed s\<rparr>"
  note split = mset_remove_nth [OF True, unfolded i]
  have "set (open_permits s) = insert (now, n) (set (remove_nth i (open_permits s)))"
    using arg_cong [OF split, of set_mset] by simp
  then have times: "\<forall>p \<in> set (committed ?s) \<union> set (open_permits ?s). fst p \<le> clock"
    using inv unfolding limiter_inv_iff by simp
  have "admitted_in a ?s = admitted_in a s" for a
    using split by (simp add: admitted_in_mset)
  then have bound: "\<forall>a. admitted_in a ?s \<le> max_per_window ?g"
    using inv unfolding limiter_inv_iff by simp
  have "filter_mset (\<lambda>t. clock - 1000 \<le> t) (mset (map fst (committed s))) \<subseteq># mset (window_events ?g)"
    using inv unfolding limiter_inv_iff by blast
  then have events: "filter_mset (\<lambda>t. clock - 1000 \<le> t) (mset (map fst (committed ?s)))
      \<subseteq># mset (window_events ?g @ [now])"
    using subset_mset.order_trans [of _ "mset (window_events ?g)" "add_mset now (mset (window_events ?g))"]
    by simp
  have "limiter_step (CommitPermit i) s = ?s"
    using True i by simp
  then show ?thesis
    using inv times bound events
    by (simp add: limiter_inv_iff window_commit_def length_remove_nth [OF True])
qed (use inv in simp)

lemma limiter_inv_drop:
  assumes inv: "limiter_inv clock s"
  shows "limiter_inv clock (limiter_step (DropPermit i) s)"
proof (cases "i < length (open_permits s)")
  case True
  obtain now n where i: "open_permits s ! i = (now, n)" by fastforce
  let ?g = "limiter_global (run_limiter s)"
  let ?s = "s\<lparr>run_limiter := limiter_rollback n (run_limiter s),
      open_permits := remove_nth i (open_permits s)\<rparr>"
  note split = mset_remove_nth [OF True, unfolded i]
  have "set (remove_nth i (open_permits s)) \<subseteq> set (open_permits s)"
    using arg_cong [OF split, of set_mset] by auto
  then have times: "\<forall>p \<in> set (committed ?s) \<union> set (open_permits ?s). fst p \<le> clock"
    using inv unfolding limiter_inv_iff by auto
  have "admitted_in a ?s \<le> admitted_in a s" for a
    using split by (simp add: admitted_in_mset)
  then have bound: "\<forall>a. admitted_in a ?s \<le> max_per_window ?g"
    using inv le_trans unfolding limiter_inv_iff by blast
  have "limiter_step (DropPermit i) s = ?s"
    using True i by simp
  then show ?thesis
    using inv times bound
    by (simp add: limiter_inv_iff window_rollback_def length_remove_nth [OF True])
qed (use inv in simp)

lemma limiter_inv_run:
  "limiter_inv clock s \<Longrightarrow> reserve_clocked clock ops \<Longrightarrow> \<exists>t. limiter_inv t (fold limiter_step ops s)"
proof (induction ops arbitrary: clock s)
  case (Cons x ops)
  have "limiter_inv (op_clock x clock) (limiter_step x s)"
    using Cons.prems limiter_inv_reserve limiter_inv_commit limiter_inv_drop by (cases x) auto
  then show ?case
    using Cons.IH Cons.prems(2) by auto
qed auto

lemma limiter_step_max [simp]:
  "max_per_window (limiter_global (run_limiter (limiter_step x s))) = max_per_window (limiter_global (run_limiter s))"
proof (cases x)
  case (ReserveSlot now n)
  then show ?thesis
    by (cases rule: limiter_reserve_global [of now n "run_limiter s"]) simp_all
qed (auto simp: window_commit_def window_rollback_def split: prod.splits)

lemma limiter_run_max [simp]:
  "max_per_window (limiter_global (run_limiter (fold limiter_step ops s)))
    = max_per_window (limiter_global (run_limiter s))"
  by (induction ops arbitrary: s) simp_all

text \<open>
  C18. The assignment limiter keeps its promise. Whatever reservations, commits and dropped
  permits follow each other, with reservation times that do not go back: of the assignments that
  were admitted, no more than the configured number per second were reserved within any second,
  wherever the second begins.
\<close>

theorem assignments_rate_bounded:
  assumes "reserve_clocked t ops"
  shows "admitted_in a (fold limiter_step ops
           \<lparr>run_limiter = limiter_new cfg, open_permits = [], committed = []\<rparr>) \<le> global_per_second cfg"
  using limiter_inv_run [OF limiter_inv_new assms, of cfg]
  by (auto simp: limiter_inv_iff limiter_new_def window_new_def)

definition sample_limits :: rate_limit_config where
  "sample_limits = \<lparr>global_per_second = 2, per_node_per_second = 2, max_tracked_nodes = 4\<rparr>"

theorem assignments_rate_bounded_witness:
  "admitted_in 0 (fold limiter_step
      [ReserveSlot 0 ''A'', CommitPermit 0, ReserveSlot 500 ''B'', ReserveSlot 600 ''B'', DropPermit 0,
       ReserveSlot 900 ''A'', ReserveSlot 1001 ''A'']
      \<lparr>run_limiter = limiter_new sample_limits, open_permits = [], committed = []\<rparr>) \<le> 2"
  using assignments_rate_bounded [of 0 "[ReserveSlot 0 ''A'', CommitPermit 0, ReserveSlot 500 ''B'',
      ReserveSlot 600 ''B'', DropPermit 0, ReserveSlot 900 ''A'', ReserveSlot 1001 ''A'']" 0 sample_limits]
  by (simp add: sample_limits_def)

section \<open>Choosing a node\<close>

datatype assignment_error =
    NoAvailableNode | RateLimited | AssignStorage storage_error | AssignDomain | AssignInvalidArgument signal_error_kind

definition is_owner_alive :: "cluster_node \<Rightarrow> string \<Rightarrow> instant \<Rightarrow> bool" where
  "is_owner_alive n protocol now \<longleftrightarrow>
     \<not> node_lease_until n \<le> now \<and>
     (protocol = [] \<or> map_of (contract_versions n) protocol \<noteq> None)"

definition is_eligible :: "cluster_node \<Rightarrow> string \<Rightarrow> instant \<Rightarrow> bool" where
  "is_eligible n protocol now \<longleftrightarrow>
     is_owner_alive n protocol now \<and> \<not> draining n \<and> \<not> max_devices n \<le> load_devices n"

definition fnv_step :: "64 word \<Rightarrow> char \<Rightarrow> 64 word" where
  "fnv_step hash b = (hash XOR of_nat (of_char b)) * 0x100000001b3"

definition hash_score :: "uuid \<Rightarrow> uuid \<Rightarrow> 64 word" where
  "hash_score device node = foldl fnv_step (foldl fnv_step 0xcbf29ce484222325 device) node"

definition candidate_key :: "uuid \<Rightarrow> cluster_node \<Rightarrow> 64 word \<times> uuid" where
  "candidate_key device n = (hash_score device (node_id n), node_id n)"

definition zone_candidates :: "string option \<Rightarrow> cluster_node list \<Rightarrow> cluster_node list" where
  "zone_candidates preferred candidates =
     (case preferred of
        None \<Rightarrow> candidates
      | Some z \<Rightarrow>
          (let inside = filter (\<lambda>n. node_zone n = z) candidates
           in if inside \<noteq> [] then inside else candidates))"

text \<open>\<open>select_node\<close>; \<open>None\<close> would be a loop over the pages that does not end.\<close>

definition select_node ::
  "codec \<Rightarrow> node_table \<Rightarrow> uuid \<Rightarrow> string \<Rightarrow> string option \<Rightarrow> instant \<Rightarrow>
   (assignment_error + cluster_node) option" where
  "select_node C tab device protocol preferred now =
     (case page_request_new max_page_size of
        Inl e \<Rightarrow> Some (Inl (AssignInvalidArgument e))
      | Inr req \<Rightarrow>
          do {
            listed \<leftarrow> follow_pages (list_alive C tab now) req;
            Some (case listed of
                Inl e \<Rightarrow> Inl (AssignStorage (page_storage_error e))
              | Inr nodes \<Rightarrow>
                  (let candidates = zone_candidates preferred
                         (filter (\<lambda>n. is_eligible n protocol now) nodes)
                   in if candidates = [] then Inl NoAvailableNode
                      else Inr (hd (sort_key (candidate_key device) candidates))))
          })"

text \<open>The nodes it chooses from, as a set.\<close>

definition eligible_nodes :: "node_table \<Rightarrow> string \<Rightarrow> string option \<Rightarrow> instant \<Rightarrow> cluster_node set" where
  "eligible_nodes tab protocol preferred now =
     (let live = {n. \<exists>i. (i, n) \<in> set tab \<and> is_eligible n protocol now};
          inside = {n \<in> live. \<exists>z. preferred = Some z \<and> node_zone n = z}
      in if inside = {} then live else inside)"

text \<open>Rows whose keys can be written as cursors.\<close>

definition listable :: "codec \<Rightarrow> node_table \<Rightarrow> bool" where
  "listable C tab \<longleftrightarrow>
     list_all (\<lambda>(i, n). length i = 16 \<and> format_rfc3339 C (node_updated_at n) \<noteq> None) tab"

lemma alive_rows_key_ok:
  assumes "wf_nodes C tab" and "listable C tab"
  shows "key_ok C node_key (alive_rows C now tab)"
proof -
  have ids: "node_id n = i" if "(i, n) \<in> set tab" for i n
    using assms(1) that unfolding wf_nodes_def by blast
  have "map node_id (map snd tab) = map fst tab"
    using ids by (auto intro!: map_cong)
  then have "distinct (map node_id (map snd tab))"
    using assms(1) by (simp add: wf_nodes_def del: map_map)
  then have "distinct (map node_id (alive_rows C now tab))"
    unfolding alive_rows_def by (rule distinct_map_filter)
  then have "distinct (map snd (map node_key (alive_rows C now tab)))"
    by (simp add: node_key_def o_def)
  then have "distinct (map node_key (alive_rows C now tab))"
    by (rule conjunct1 [OF iffD1 [OF distinct_map]])
  moreover have "length (snd (node_key n)) = 16 \<and> format_rfc3339 C (fst (node_key n)) \<noteq> None"
    if "n \<in> set (alive_rows C now tab)" for n
    using that assms(2) ids by (fastforce simp: alive_rows_def listable_def list_all_iff node_key_def)
  ultimately show ?thesis
    by (simp add: key_ok_def list_all_iff)
qed

lemma alive_rows_eligible:
  assumes "column_laws C" and "wf_nodes C tab"
  shows "n \<in> set (filter (\<lambda>n. is_eligible n protocol now) (alive_rows C now tab)) \<longleftrightarrow>
    (\<exists>i. (i, n) \<in> set tab \<and> is_eligible n protocol now)"
proof -
  have "timestamptz C now < node_lease_until n"
    if "(i, n) \<in> set tab" "is_eligible n protocol now" for i
  proof -
    have "timestamptz C (node_lease_until n) = node_lease_until n"
      using assms(2) that(1) unfolding wf_nodes_def by blast
    then show ?thesis
      using column_less_iff [OF assms(1)] that(2) by (simp add: is_eligible_def is_owner_alive_def)
  qed
  then show ?thesis
    by (auto simp: alive_rows_def image_iff) force
qed

lemma hd_sort_key_least:
  assumes "xs \<noteq> []"
  shows "hd (sort_key f xs) \<in> set xs \<and> (\<forall>x \<in> set xs. f (hd (sort_key f xs)) \<le> f x)"
proof -
  obtain y ys where y: "sort_key f xs = y # ys"
    using assms by (metis list.exhaust sort_key_simps(1) length_0_conv length_sort)
  have "sorted (map f (y # ys))" by (metis sorted_sort_key y)
  then have "\<forall>x \<in> set (y # ys). f y \<le> f x" by auto
  then show ?thesis
    using y by (metis list.sel(1) list.set_intros(1) set_sort)
qed

lemma set_zone_candidates:
  assumes "set xs = {n. \<exists>i. (i, n) \<in> set tab \<and> is_eligible n protocol now}"
  shows "set (zone_candidates preferred xs) = eligible_nodes tab protocol preferred now"
  using assms by (cases preferred) (auto simp: zone_candidates_def eligible_nodes_def Let_def filter_empty_conv)

lemma select_node_eq:
  assumes "cursor_laws C" and "column_laws C" and "wf_nodes C tab" and "listable C tab"
  shows "\<exists>cs. set cs = eligible_nodes tab protocol preferred now \<and>
    select_node C tab device protocol preferred now =
      Some (if cs = [] then Inl NoAvailableNode else Inr (hd (sort_key (candidate_key device) cs)))"
proof -
  let ?all = "sort_key node_key (alive_rows C now tab)"
  let ?cs = "zone_candidates preferred (filter (\<lambda>n. is_eligible n protocol now) ?all)"
  obtain req where req: "page_request_new max_page_size = Inr req" "req_cursor req = None"
    by (simp add: page_request_new_def max_page_size_def)
  have "follow_pages (list_alive C tab now) req = Some (Inr ?all)"
    using follow_pages_listing [OF assms(1) alive_rows_key_ok [OF assms(3,4)] req(2), of now]
    by (simp add: list_alive_def [abs_def])
  then have "select_node C tab device protocol preferred now =
      Some (if ?cs = [] then Inl NoAvailableNode else Inr (hd (sort_key (candidate_key device) ?cs)))"
    using req(1) by (simp add: select_node_def Let_def)
  moreover have "set ?cs = eligible_nodes tab protocol preferred now"
    using alive_rows_eligible [OF assms(2,3), of _ protocol now] by (intro set_zone_candidates) auto
  ultimately show ?thesis by blast
qed

subsection \<open>Sample nodes\<close>

definition sample_member :: "uuid \<Rightarrow> cluster_node" where
  "sample_member i =
     (cluster_node_new i ''instance'' ''z'' ''1.0.0'' 0)\<lparr>node_lease_until := 9000000000, max_devices := 10\<rparr>"

abbreviation node_A :: uuid where "node_A \<equiv> ''AAAAAAAAAAAAAAAA''"
abbreviation node_B :: uuid where "node_B \<equiv> ''BBBBBBBBBBBBBBBB''"
abbreviation device_d :: uuid where "device_d \<equiv> ''dddddddddddddddd''"

definition sample_members :: node_table where
  "sample_members = [(node_A, sample_member node_A), (node_B, sample_member node_B)]"

lemma sample_members_ok:
  "wf_nodes sample_codec sample_members" "listable sample_codec sample_members"
  "wf_nodes sample_codec [(node_B, sample_member node_B)]" "listable sample_codec [(node_B, sample_member node_B)]"
  by (simp_all add: wf_nodes_def listable_def sample_members_def sample_member_def sample_codec_def
      cluster_node_new_def)

lemma sample_member_eligible: "is_eligible (sample_member i) [] 0"
  by (simp add: is_eligible_def is_owner_alive_def sample_member_def cluster_node_new_def)

lemma sample_eligible:
  "eligible_nodes sample_members [] None 0 = {sample_member node_A, sample_member node_B}"
  "eligible_nodes [(node_B, sample_member node_B)] [] None 0 = {sample_member node_B}"
proof -
  have live: "{n. \<exists>i. (i, n) \<in> set sample_members \<and> is_eligible n [] 0}
      = {sample_member node_A, sample_member node_B}"
    using sample_member_eligible unfolding sample_members_def list.set by blast
  have live': "{n. \<exists>i. (i, n) \<in> set [(node_B, sample_member node_B)] \<and> is_eligible n [] 0}
      = {sample_member node_B}"
    using sample_member_eligible unfolding list.set by blast
  show "eligible_nodes sample_members [] None 0 = {sample_member node_A, sample_member node_B}"
    "eligible_nodes [(node_B, sample_member node_B)] [] None 0 = {sample_member node_B}"
    by (simp_all only: eligible_nodes_def Let_def live live') simp_all
qed

lemma sample_scores:
  "hash_score device_d node_A = 6598409707145403381" "hash_score device_d node_B = 452342481181905061"
  by (simp_all add: hash_score_def fnv_step_def)

text \<open>
  C13. Selection ends with the best node. Whatever the number of live nodes and however they fall
  into pages, collecting the pages ends. If no node is eligible (alive, speaking the protocol, not
  draining, with capacity left) the answer is that none is available; otherwise it is an eligible
  node, inside the preferred zone if that zone has one, with the least hash score of all those, the
  identifier breaking ties.
\<close>

theorem selection_ends_with_best_node:
  assumes "cursor_laws C" and "column_laws C" and "wf_nodes C tab" and "listable C tab"
  shows "\<exists>r. select_node C tab device protocol preferred now = Some r \<and>
    (case r of
       Inl e \<Rightarrow> e = NoAvailableNode \<and> eligible_nodes tab protocol preferred now = {}
     | Inr n \<Rightarrow> n \<in> eligible_nodes tab protocol preferred now \<and>
         (\<forall>m \<in> eligible_nodes tab protocol preferred now. candidate_key device n \<le> candidate_key device m))"
proof -
  obtain cs where cs: "set cs = eligible_nodes tab protocol preferred now"
    "select_node C tab device protocol preferred now =
      Some (if cs = [] then Inl NoAvailableNode else Inr (hd (sort_key (candidate_key device) cs)))"
    using select_node_eq [OF assms] by blast
  then show ?thesis
    using hd_sort_key_least [of cs "candidate_key device"] by (auto simp flip: cs(1))
qed

theorem selection_ends_with_best_node_witness:
  "\<exists>n. select_node sample_codec sample_members device_d [] None 0 = Some (Inr n) \<and>
     n \<in> {sample_member node_A, sample_member node_B}"
proof -
  let ?nodes = "{sample_member node_A, sample_member node_B}"
  obtain r where r: "select_node sample_codec sample_members device_d [] None 0 = Some r"
    "case r of Inl e \<Rightarrow> e = NoAvailableNode \<and> ?nodes = {}
      | Inr n \<Rightarrow> n \<in> ?nodes \<and> (\<forall>m \<in> ?nodes. candidate_key device_d n \<le> candidate_key device_d m)"
    using selection_ends_with_best_node [OF sample_codec_laws sample_members_ok(1,2), of device_d "[]" None 0]
    unfolding sample_eligible by blast
  show ?thesis
  proof (cases r)
    case (Inl e)
    then show ?thesis using r(2) by simp
  next
    case (Inr n)
    then have "n \<in> ?nodes" using r(2) by (simp only: sum.case)
    then show ?thesis using r(1) Inr by blast
  qed
qed

lemma eligible_nodes_mem: "n \<in> eligible_nodes tab protocol preferred now \<Longrightarrow> \<exists>i. (i, n) \<in> set tab"
  by (auto simp: eligible_nodes_def Let_def split: if_splits)

lemma candidate_key_unique:
  assumes "wf_nodes C tab" and "n \<in> eligible_nodes tab protocol preferred now"
    and "m \<in> eligible_nodes tab protocol preferred now" and "candidate_key device n = candidate_key device m"
  shows "n = m"
proof -
  obtain i j where ij: "(i, n) \<in> set tab" "(j, m) \<in> set tab"
    using eligible_nodes_mem assms(2,3) by blast
  have "node_id n = i" "node_id m = j"
    using ij assms(1) unfolding wf_nodes_def by blast+
  then have "i = j"
    using assms(4) by (simp add: candidate_key_def)
  then show ?thesis
    using ij assms(1) eq_key_imp_eq_value [of tab i n m] unfolding wf_nodes_def by simp
qed

text \<open>
  C32. Assignments are stable. When nodes leave, fill up or start draining, a device whose chosen
  node is still eligible is given the same node again: removing candidates moves only the devices of
  the removed ones.
\<close>

theorem selection_stable:
  assumes laws: "cursor_laws C" "column_laws C"
    and tab: "wf_nodes C tab" "listable C tab" and tab': "wf_nodes C tab'" "listable C tab'"
    and chosen: "select_node C tab device protocol preferred now = Some (Inr n)"
    and fewer: "eligible_nodes tab' protocol preferred now' \<subseteq> eligible_nodes tab protocol preferred now"
    and still: "n \<in> eligible_nodes tab' protocol preferred now'"
  shows "select_node C tab' device protocol preferred now' = Some (Inr n)"
proof -
  obtain cs where cs: "set cs = eligible_nodes tab protocol preferred now"
    "Some (Inr n) = Some (if cs = [] then Inl NoAvailableNode else Inr (hd (sort_key (candidate_key device) cs)))"
    using select_node_eq [OF laws tab, of protocol preferred now device] chosen by auto
  then have least: "\<forall>m \<in> set cs. candidate_key device n \<le> candidate_key device m"
    using hd_sort_key_least [of cs "candidate_key device"] by (auto split: if_splits)
  obtain ds where ds: "set ds = eligible_nodes tab' protocol preferred now'"
    "select_node C tab' device protocol preferred now' =
      Some (if ds = [] then Inl NoAvailableNode else Inr (hd (sort_key (candidate_key device) ds)))"
    using select_node_eq [OF laws tab'] by blast
  have ne: "ds \<noteq> []" using still ds(1) by auto
  let ?m = "hd (sort_key (candidate_key device) ds)"
  have m: "?m \<in> set ds" "candidate_key device ?m \<le> candidate_key device n"
    using hd_sort_key_least [OF ne, of "candidate_key device"] still ds(1) by auto
  then have "candidate_key device ?m = candidate_key device n"
    using least fewer cs(1) ds(1) by (intro antisym) blast+
  then have "?m = n"
    using candidate_key_unique [OF tab'(1)] m(1) still ds(1) by blast
  then show ?thesis using ds(2) ne by simp
qed

theorem selection_stable_witness:
  "select_node sample_codec [(node_B, sample_member node_B)] device_d [] None 0 = Some (Inr (sample_member node_B))"
proof -
  obtain cs where cs: "set cs = {sample_member node_A, sample_member node_B}"
    "select_node sample_codec sample_members device_d [] None 0 =
      Some (if cs = [] then Inl NoAvailableNode else Inr (hd (sort_key (candidate_key device_d) cs)))"
    using select_node_eq [OF sample_codec_laws sample_members_ok(1,2), of "[]" None 0 device_d]
    unfolding sample_eligible by blast
  have "hd (sort_key (candidate_key device_d) cs) = sample_member node_B"
  proof -
    have "cs \<noteq> []" using cs(1) by auto
    note least = hd_sort_key_least [OF this, of "candidate_key device_d", unfolded cs(1)]
    have "\<not> candidate_key device_d (sample_member node_A) \<le> candidate_key device_d (sample_member node_B)"
      by (simp add: candidate_key_def sample_member_def cluster_node_new_def sample_scores less_eq_prod_def)
    then show ?thesis using least by auto
  qed
  then have "select_node sample_codec sample_members device_d [] None 0 = Some (Inr (sample_member node_B))"
    using cs by auto
  from selection_stable [OF sample_codec_laws sample_members_ok this, of 0]
  show ?thesis unfolding sample_eligible by simp
qed

section \<open>Assigning a device\<close>

datatype assign_choice = KeepOwner owner_info | TryNode cluster_node

text \<open>The first phase: the current owner if it is valid, otherwise a selected node.\<close>

definition assign_lookup ::
  "codec \<Rightarrow> owner_store \<Rightarrow> instant \<Rightarrow> uuid \<Rightarrow> uuid \<Rightarrow> string \<Rightarrow> string option \<Rightarrow>
   (assignment_error + assign_choice) option" where
  "assign_lookup C st now tenant device protocol preferred =
     (let selected = map_option (map_sum id TryNode)
            (select_node C (store_nodes st) device protocol preferred now)
      in case owner_get st tenant device of
           None \<Rightarrow> selected
         | Some owner \<Rightarrow>
             if lease_running owner now then
               (case node_get (owner_node_id owner) (store_nodes st) of
                  None \<Rightarrow> selected
                | Some n \<Rightarrow>
                    if is_owner_alive n protocol now then Some (Inr (KeepOwner owner)) else selected)
             else selected)"

text \<open>The second phase: reserve a slot, acquire, and commit or drop the permit.\<close>

definition assign_acquire ::
  "codec \<Rightarrow> instant \<Rightarrow> instant \<Rightarrow> int \<Rightarrow> uuid \<Rightarrow> uuid \<Rightarrow> owner_info option \<Rightarrow> cluster_node \<Rightarrow>
   owner_store \<Rightarrow> assign_limiter \<Rightarrow>
   (owner_store \<times> assign_limiter) \<times> (assignment_error + owner_info)" where
  "assign_acquire C now lease now_mono tenant device maybe_owner candidate st l =
     (let (l1, ok) = limiter_reserve now_mono (node_id candidate) l
      in if \<not> ok then ((st, l1), Inl RateLimited)
         else
           (let (st', r) = owner_acquire C tenant device (node_id candidate) now lease st;
                dropped = limiter_rollback (node_id candidate) l1
            in case r of
                 Inr owner \<Rightarrow>
                   (let changed = (case maybe_owner of None \<Rightarrow> True
                          | Some previous \<Rightarrow> owner_node_id previous \<noteq> owner_node_id owner \<or>
                                             owner_epoch previous \<noteq> owner_epoch owner)
                    in ((st', if changed then limiter_commit now_mono (node_id candidate) l1 else dropped),
                        Inr owner))
               | Inl StorageUnavailable \<Rightarrow>
                   (case owner_get st' tenant device of
                      Some owner \<Rightarrow> ((st', dropped), Inr owner)
                    | None \<Rightarrow> ((st', dropped), Inl NoAvailableNode))
               | Inl e \<Rightarrow> ((st', dropped), Inl (AssignStorage e))))"

definition assign ::
  "codec \<Rightarrow> int \<Rightarrow> instant \<Rightarrow> int \<Rightarrow> uuid \<Rightarrow> uuid \<Rightarrow> string \<Rightarrow> string option \<Rightarrow>
   owner_store \<Rightarrow> assign_limiter \<Rightarrow>
   ((owner_store \<times> assign_limiter) \<times> (assignment_error + owner_info)) option" where
  "assign C ms now now_mono tenant device protocol preferred st l =
     (case utc_checked_add C now ms of
        None \<Rightarrow> Some ((st, l), Inl AssignDomain)
      | Some lease \<Rightarrow>
          do {
            choice \<leftarrow> assign_lookup C st now tenant device protocol preferred;
            Some (case choice of
                Inl e \<Rightarrow> ((st, l), Inl e)
              | Inr (KeepOwner owner) \<Rightarrow> ((st, l), Inr owner)
              | Inr (TryNode n) \<Rightarrow>
                  assign_acquire C now lease now_mono tenant device (owner_get st tenant device) n st l)
          })"

lemma limiter_reserve_pending:
  "limiter_reserve now n l = (l1, ok) \<Longrightarrow>
   window_pending (limiter_global l1) = window_pending (limiter_global l) + (if ok then 1 else 0)"
  by (rule limiter_reserve_global [of now n l]) auto

lemma owner_get_row:
  assumes "wf_store st" and "(tenant, device) \<in> set (store_devices st)"
  shows "owner_get st tenant device = map_option row_info (owner_row_of st device)"
  using select_owner_row [OF assms] by (simp add: owner_get_def)

text \<open>The second phase on the store of the first: a changed store has consumed a slot; otherwise
  nothing is consumed.\<close>

lemma assign_acquire_consistent:
  assumes wf: "wf_store st" and dev: "(tenant, device) \<in> set (store_devices st)"
    and res: "assign_acquire C now lease now_mono tenant device (owner_get st tenant device) n st l = ((st', l'), r)"
  shows "(case r of Inl e \<Rightarrow> st' = st | Inr owner \<Rightarrow> owner_get st' tenant device = Some owner) \<and>
    window_pending (limiter_global l') = window_pending (limiter_global l) \<and>
    (st' \<noteq> st \<longrightarrow> window_last_used (limiter_global l') = Some now_mono)"
proof -
  obtain l1 ok where reserve: "limiter_reserve now_mono (node_id n) l = (l1, ok)" by fastforce
  note pending = limiter_reserve_pending [OF reserve]
  show ?thesis
  proof (cases "ok \<and> may_take C st (node_id n) now device")
    case True
    let ?row = "granted_row C tenant (node_id n) (next_epoch st device) now lease"
    let ?st = "with_owner st device ?row"
    have "owner_get ?st tenant device = Some (row_info ?row)"
      using owner_get_row [OF wf_with_owner [OF wf], of ?row device tenant] dev
      by (simp add: granted_row_def)
    moreover have "owner_epoch previous \<noteq> next_epoch st device"
      if "owner_get st tenant device = Some previous" for previous
      using that by (auto simp: owner_get_row [OF wf dev] next_epoch_def row_info_def)
    then have "((st', l'), r) = ((?st, limiter_commit now_mono (node_id n) l1), Inr (row_info ?row))"
      using res reserve True owner_acquire_eq [OF wf dev, of C "node_id n" now lease]
      by (simp add: assign_acquire_def Let_def split: option.splits)
    ultimately show ?thesis
      using pending True by (simp add: window_commit_def)
  next
    case False
    show ?thesis
    proof (cases ok)
      case True
      then have acq: "owner_acquire C tenant device (node_id n) now lease st = (st, Inl StorageUnavailable)"
        using False owner_acquire_eq [OF wf dev, of C "node_id n" now lease] by simp
      then have "((st', l'), r) = ((st, limiter_rollback (node_id n) l1),
          case owner_get st tenant device of None \<Rightarrow> Inl NoAvailableNode | Some owner \<Rightarrow> Inr owner)"
        using res reserve True by (simp add: assign_acquire_def Let_def split: option.splits)
      then show ?thesis
        using pending True by (simp add: window_rollback_def split: option.splits)
    next
      case False
      then show ?thesis
        using res reserve pending by (auto simp: assign_acquire_def)
    qed
  qed
qed

text \<open>
  C19. Assignment is consistent. For a known device \<open>assign\<close> always returns. If it returns an
  owner, that owner is what the store now says; a valid owner on a live node is returned unchanged,
  without consuming a slot. If it returns an error the store is unchanged. In every case no slot
  stays reserved, and the store changes only together with a slot consumed at this call's time.
\<close>

theorem assign_consistent:
  assumes laws: "cursor_laws C" "column_laws C" and nodes: "wf_nodes C (store_nodes st)" "listable C (store_nodes st)"
    and wf: "wf_store st" and dev: "(tenant, device) \<in> set (store_devices st)"
  shows "\<exists>st' l' r. assign C ms now now_mono tenant device protocol preferred st l = Some ((st', l'), r) \<and>
    (case r of Inl e \<Rightarrow> st' = st | Inr owner \<Rightarrow> owner_get st' tenant device = Some owner) \<and>
    window_pending (limiter_global l') = window_pending (limiter_global l) \<and>
    (st' \<noteq> st \<longrightarrow> window_last_used (limiter_global l') = Some now_mono) \<and>
    (\<forall>owner n. owner_get st tenant device = Some owner \<and> lease_running owner now \<and>
        node_get (owner_node_id owner) (store_nodes st) = Some n \<and> is_owner_alive n protocol now \<and>
        utc_checked_add C now ms \<noteq> None \<longrightarrow> r = Inr owner \<and> st' = st \<and> l' = l)"
proof (cases "utc_checked_add C now ms")
  case None
  then show ?thesis by (simp add: assign_def)
next
  case (Some lease)
  note add = this
  obtain sel where sel: "select_node C (store_nodes st) device protocol preferred now = Some sel"
    using select_node_eq [OF laws nodes, of protocol preferred now device] by blast
  let ?keep = "\<lambda>owner n. owner_get st tenant device = Some owner \<and> lease_running owner now \<and>
      node_get (owner_node_id owner) (store_nodes st) = Some n \<and> is_owner_alive n protocol now"
  show ?thesis
  proof (cases "\<exists>owner n. ?keep owner n")
    case True
    then obtain owner n where keep: "?keep owner n" by blast
    then have "assign C ms now now_mono tenant device protocol preferred st l = Some ((st, l), Inr owner)"
      using add by (simp add: assign_def assign_lookup_def Let_def)
    then show ?thesis using keep by simp
  next
    case False
    then have not_kept: "\<not> ?keep owner n" for owner n by blast
    have look: "assign_lookup C st now tenant device protocol preferred = Some (map_sum id TryNode sel)"
      using sel not_kept by (simp add: assign_lookup_def Let_def split: option.splits)
    show ?thesis
    proof (cases sel)
      case (Inl e)
      then have eq: "assign C ms now now_mono tenant device protocol preferred st l = Some ((st, l), Inl e)"
        using add look by (simp add: assign_def)
      show ?thesis
        by (rule exI [of _ st], rule exI [of _ l], rule exI [of _ "Inl e"])
          (intro conjI eq, simp_all, use not_kept in blast)
    next
      case (Inr n)
      obtain st' l' r where acq:
        "assign_acquire C now lease now_mono tenant device (owner_get st tenant device) n st l = ((st', l'), r)"
        by (metis prod.collapse)
      have eq: "assign C ms now now_mono tenant device protocol preferred st l = Some ((st', l'), r)"
        using add look Inr acq by (simp add: assign_def)
      note ok = assign_acquire_consistent [OF wf dev acq]
      show ?thesis
        by (rule exI [of _ st'], rule exI [of _ l'], rule exI [of _ r])
          (intro conjI eq ok [THEN conjunct1] ok [THEN conjunct2, THEN conjunct1]
            ok [THEN conjunct2, THEN conjunct2], use not_kept in blast)
    qed
  qed
qed

definition sample_assign_store :: owner_store where
  "sample_assign_store =
     \<lparr>store_nodes = sample_members, store_owners = [], store_devices = [(''t'', device_d)]\<rparr>"

theorem assign_consistent_witness:
  "\<exists>st' l' r. assign sample_codec 30 0 0 ''t'' device_d [] None sample_assign_store
       (limiter_new sample_limits) = Some ((st', l'), r) \<and> window_pending (limiter_global l') = 0"
proof -
  have ok: "wf_nodes sample_codec (store_nodes sample_assign_store)"
    "listable sample_codec (store_nodes sample_assign_store)" "wf_store sample_assign_store"
    "(''t'', device_d) \<in> set (store_devices sample_assign_store)"
    using sample_members_ok(1,2) by (simp_all add: sample_assign_store_def wf_store_def)
  have "window_pending (limiter_global (limiter_new sample_limits)) = 0"
    by (simp add: limiter_new_def window_new_def)
  then show ?thesis
    using assign_consistent [OF sample_codec_laws ok, of 30 0 0 "[]" None "limiter_new sample_limits"]
    by metis
qed

end
