(* ===== verification/RollingUpgrade.thy ===== *)
theory RollingUpgrade
  imports Assignment
begin

text \<open>
  Draining a node (\<open>cheetah-cluster-ownership/src/rolling_upgrade.rs\<close>): \<open>migrate_device\<close>
  and the loop of \<open>drain_node\<close> over the pages of the devices a node owns.

  The pages are read from the store while the loop changes it: a migrated device disappears from
  the listing, a restored one comes back with a new time stamp, possibly behind the cursor. The
  protocol lookup is a parameter. The clock readings of the call for the \<open>k\<close>-th device are
  \<open>clock k\<close>: the wall and monotonic times of \<open>assign\<close> and the time a restored row is
  stamped with. No other process changes the store during the call, and the set of attempted devices
  is assumed to fit in memory (the code reserves room for the configured limit). The main result is that the
  loop ends and that its report accounts for every device.
\<close>

record drain_report =
  report_migrated :: nat
  report_failed :: nat
  report_skipped :: nat
  report_truncated :: bool

datatype rolling_error =
    NodeNotFound | NotDraining | DrainFenced | DrainAssignment assignment_error
  | DrainStorage storage_error | DrainLookup | DrainInvalidArgument signal_error_kind

record drain_service =
  drain_batch_size :: nat
  drain_max_devices :: nat
  drain_lease_ms :: int

definition drain_service_new :: "int \<Rightarrow> nat \<Rightarrow> nat \<Rightarrow> drain_service" where
  "drain_service_new ms batch_size devices =
     \<lparr>drain_batch_size = min max_page_size (max 1 batch_size), drain_max_devices = max devices 1,
      drain_lease_ms = ms\<rparr>"

record clock_reading =
  read_now :: instant
  read_mono :: int
  read_wall :: instant

type_synonym cluster_state = "owner_store \<times> assign_limiter"

definition migrate_device ::
  "codec \<Rightarrow> drain_service \<Rightarrow> clock_reading \<Rightarrow> uuid \<Rightarrow> uuid \<Rightarrow> string \<Rightarrow> uuid \<Rightarrow> cluster_state \<Rightarrow>
   (cluster_state \<times> (rolling_error + owner_info)) option" where
  "migrate_device C s t tenant device protocol from cs =
     (case node_get from (store_nodes (fst cs)) of
        None \<Rightarrow> Some (cs, Inl NodeNotFound)
      | Some n \<Rightarrow>
          if \<not> draining n then Some (cs, Inl NotDraining)
          else
            (let current = owner_get (fst cs) tenant device
             in case current of
                  Some owner \<Rightarrow>
                    if owner_node_id owner \<noteq> from then Some (cs, Inr owner)
                    else
                      do {
                        ((st, l), r) \<leftarrow> assign C (drain_lease_ms s) (read_now t) (read_mono t) tenant device
                             protocol None (owner_clear tenant device (fst cs)) (snd cs);
                        Some (case r of
                            Inr o' \<Rightarrow> ((st, l), Inr o')
                          | Inl e \<Rightarrow> ((fst (owner_set C (read_wall t) tenant device owner st), l),
                                      Inl (DrainAssignment e)))
                      }
                | None \<Rightarrow>
                    do {
                      ((st, l), r) \<leftarrow> assign C (drain_lease_ms s) (read_now t) (read_mono t) tenant device
                           protocol None (fst cs) (snd cs);
                      Some ((st, l), map_sum DrainAssignment id r)
                    }))"

record drain_state =
  drain_cluster :: cluster_state
  drain_report :: drain_report
  drain_attempted :: "(uuid \<times> uuid) list"
  drain_processed :: nat

text \<open>The body of the loop over the items of a page; the flag is \<open>break 'drain\<close>.\<close>

definition drain_one ::
  "codec \<Rightarrow> drain_service \<Rightarrow> (nat \<Rightarrow> clock_reading) \<Rightarrow> (uuid \<Rightarrow> uuid \<Rightarrow> unit + string option) \<Rightarrow> uuid \<Rightarrow>
   owned_device \<Rightarrow> drain_state \<Rightarrow> drain_state option" where
  "drain_one C s clock lookup nid owned ds =
     (let ds' = ds\<lparr>drain_attempted := (owned_tenant owned, owned_device_id owned) # drain_attempted ds,
                   drain_processed := drain_processed ds + 1\<rparr>;
          rep = drain_report ds
      in case lookup (owned_tenant owned) (owned_device_id owned) of
           Inr (Some protocol) \<Rightarrow>
             do {
               (cs, r) \<leftarrow> migrate_device C s (clock (drain_processed ds)) (owned_tenant owned)
                    (owned_device_id owned) protocol nid (drain_cluster ds);
               Some (ds'\<lparr>drain_cluster := cs,
                        drain_report := (case r of
                            Inr _ \<Rightarrow> rep\<lparr>report_migrated := report_migrated rep + 1\<rparr>
                          | Inl _ \<Rightarrow> rep\<lparr>report_failed := report_failed rep + 1\<rparr>)\<rparr>)
             }
         | Inr None \<Rightarrow> Some (ds'\<lparr>drain_report := rep\<lparr>report_skipped := report_skipped rep + 1\<rparr>\<rparr>)
         | Inl _ \<Rightarrow> Some (ds'\<lparr>drain_report := rep\<lparr>report_failed := report_failed rep + 1\<rparr>\<rparr>))"

fun drain_items ::
  "codec \<Rightarrow> drain_service \<Rightarrow> (nat \<Rightarrow> clock_reading) \<Rightarrow> (uuid \<Rightarrow> uuid \<Rightarrow> unit + string option) \<Rightarrow> uuid \<Rightarrow>
   owned_device list \<Rightarrow> drain_state \<Rightarrow> (drain_state \<times> bool) option" where
  "drain_items C s clock lookup nid [] ds = Some (ds, False)"
| "drain_items C s clock lookup nid (owned # rest) ds =
     (if drain_max_devices s \<le> drain_processed ds
      then Some (ds\<lparr>drain_report := (drain_report ds)\<lparr>report_truncated := True\<rparr>\<rparr>, True)
      else if (owned_tenant owned, owned_device_id owned) \<in> set (drain_attempted ds)
      then drain_items C s clock lookup nid rest ds
      else do {
        ds' \<leftarrow> drain_one C s clock lookup nid owned ds;
        drain_items C s clock lookup nid rest ds'
      })"

partial_function (option) drain_loop ::
  "codec \<Rightarrow> drain_service \<Rightarrow> (nat \<Rightarrow> clock_reading) \<Rightarrow> (uuid \<Rightarrow> uuid \<Rightarrow> unit + string option) \<Rightarrow> uuid \<Rightarrow>
   page_request \<Rightarrow> drain_state \<Rightarrow> (drain_state \<times> rolling_error option) option" where
  "drain_loop C s clock lookup nid req ds =
     (case list_by_node C (fst (drain_cluster ds)) nid req of
        Inl e \<Rightarrow> Some (ds, Some (DrainStorage (page_storage_error e)))
      | Inr p \<Rightarrow>
          do {
            (ds', broken) \<leftarrow> drain_items C s clock lookup nid (page_items p) ds;
            if broken then Some (ds', None)
            else (case page_next_cursor p of
                    None \<Rightarrow> Some (ds', None)
                  | Some c \<Rightarrow> drain_loop C s clock lookup nid (with_cursor req c) ds')
          })"

definition drain_node ::
  "codec \<Rightarrow> drain_service \<Rightarrow> instant \<Rightarrow> (nat \<Rightarrow> clock_reading) \<Rightarrow> (uuid \<Rightarrow> uuid \<Rightarrow> unit + string option) \<Rightarrow>
   uuid \<Rightarrow> cluster_state \<Rightarrow> (cluster_state \<times> (rolling_error + drain_report)) option" where
  "drain_node C s now clock lookup nid cs =
     (case node_get nid (store_nodes (fst cs)) of
        None \<Rightarrow> Some (cs, Inl NodeNotFound)
      | Some n \<Rightarrow>
          (let (nodes, marked) = node_mark_draining C nid (node_instance n) now (store_nodes (fst cs));
               cs1 = ((fst cs)\<lparr>store_nodes := nodes\<rparr>, snd cs)
           in if \<not> marked then Some (cs1, Inl DrainFenced)
              else case page_request_new (drain_batch_size s) of
                Inl e \<Rightarrow> Some (cs1, Inl (DrainInvalidArgument e))
              | Inr req \<Rightarrow>
                  do {
                    (ds, failure) \<leftarrow> drain_loop C s clock lookup nid req
                       \<lparr>drain_cluster = cs1,
                        drain_report = \<lparr>report_migrated = 0, report_failed = 0, report_skipped = 0,
                                        report_truncated = False\<rparr>,
                        drain_attempted = [], drain_processed = 0\<rparr>;
                    Some (drain_cluster ds, case failure of Some e \<Rightarrow> Inl e | None \<Rightarrow> Inr (drain_report ds))
                  }))"

section \<open>One migration\<close>

definition owned_devices :: "owner_store \<Rightarrow> uuid \<Rightarrow> uuid set" where
  "owned_devices st nid = {d. \<exists>r. owner_row_of st d = Some r \<and> row_owner_node r = nid}"

text \<open>The standing assumptions on the store while node \<open>nid\<close> drains.\<close>

definition drain_ok :: "codec \<Rightarrow> uuid \<Rightarrow> owner_store \<Rightarrow> bool" where
  "drain_ok C nid st \<longleftrightarrow>
     wf_store st \<and> wf_nodes C (store_nodes st) \<and> listable C (store_nodes st) \<and>
     (\<exists>n. map_of (store_nodes st) nid = Some n \<and> draining n) \<and>
     (\<forall>(t, d) \<in> set (store_devices st). length d = 16) \<and>
     (\<forall>(d, r) \<in> set (store_owners st). row_owner_node r = nid \<longrightarrow> format_rfc3339 C (row_updated_at r) \<noteq> None)"

text \<open>Only the row of the device changes, its node still drains.\<close>

definition same_elsewhere :: "uuid \<Rightarrow> owner_store \<Rightarrow> owner_store \<Rightarrow> bool" where
  "same_elsewhere d st st' \<longleftrightarrow>
     store_nodes st' = store_nodes st \<and> store_devices st' = store_devices st \<and>
     (\<forall>e. e \<noteq> d \<longrightarrow> owner_row_of st' e = owner_row_of st e)"

lemma same_elsewhere_refl [simp]: "same_elsewhere d st st"
  by (simp add: same_elsewhere_def)

lemma same_elsewhere_trans: "same_elsewhere d a b \<Longrightarrow> same_elsewhere d b c \<Longrightarrow> same_elsewhere d a c"
  by (simp add: same_elsewhere_def)

lemma same_elsewhere_with_owner [simp]: "same_elsewhere d st (with_owner st d r)"
  by (simp add: same_elsewhere_def)

lemma owner_clear_eq:
  assumes "wf_store st" and "owner_row_of st d = Some r"
  shows "owner_clear (row_tenant r) d st = st\<lparr>store_owners := AList.delete d (store_owners st)\<rparr>"
  using assms(2) by (simp add: owner_clear_def select_owner_def owner_row_of_def)

lemma cleared_store:
  assumes "wf_store st" and "st' = st\<lparr>store_owners := AList.delete d (store_owners st)\<rparr>"
  shows "wf_store st'" "same_elsewhere d st st'" "owner_row_of st' d = None"
  using assms by (auto simp: wf_store_def same_elsewhere_def owner_row_of_def table_simps)

lemma owner_set_eq:
  assumes "(tenant, d) \<in> set (store_devices st)"
  shows "fst (owner_set C wall tenant d owner st) = with_owner st d
     \<lparr>row_tenant = tenant, row_owner_node = owner_node_id owner, row_owner_epoch = owner_epoch owner,
      row_expires_at = map_option (timestamptz C) (owner_lease_until owner),
      row_updated_at = timestamptz C wall\<rparr>"
  using assms by (simp add: owner_set_def put_owner_def with_owner_def)

text \<open>Assigning a device without an owner, away from a draining node.\<close>

lemma assign_away:
  assumes laws: "cursor_laws C" "column_laws C" and nodes: "wf_nodes C (store_nodes st)" "listable C (store_nodes st)"
    and wf: "wf_store st" and dev: "(tenant, d) \<in> set (store_devices st)" and none: "owner_row_of st d = None"
    and dr: "map_of (store_nodes st) nid = Some m" "draining m"
  obtains st' l' r where "assign C ms now mt tenant d protocol None st l = Some ((st', l'), r)"
    and "case r of Inl e \<Rightarrow> st' = st
         | Inr owner \<Rightarrow> \<exists>row. st' = with_owner st d row \<and> row_owner_node row \<noteq> nid \<and> row_tenant row = tenant"
proof -
  have get: "owner_get st tenant d = None"
    using none by (simp add: owner_get_row [OF wf dev])
  obtain cs where cs: "set cs = eligible_nodes (store_nodes st) protocol None now"
      "select_node C (store_nodes st) d protocol None now =
        Some (if cs = [] then Inl NoAvailableNode else Inr (hd (sort_key (candidate_key d) cs)))"
    using select_node_eq [OF laws nodes, of protocol None now d] by blast
  then obtain sel where sel: "select_node C (store_nodes st) d protocol None now = Some sel"
      "\<And>n. sel = Inr n \<Longrightarrow> n \<in> eligible_nodes (store_nodes st) protocol None now"
    using hd_sort_key_least [of cs "candidate_key d"] by (simp split: if_splits)
  have away: "node_id n \<noteq> nid" if chosen: "sel = Inr n" for n
  proof
    assume nid: "node_id n = nid"
    obtain i where n: "(i, n) \<in> set (store_nodes st)" "\<not> draining n"
      using sel(2) [OF chosen] by (auto simp: eligible_nodes_def is_eligible_def Let_def)
    then have "i = nid"
      using nodes(1) nid unfolding wf_nodes_def by blast
    then have "n = m"
      using n(1) nodes(1) dr(1) wf_table_map_of [of "store_nodes st" nid n] unfolding wf_nodes_def by simp
    then show False using n(2) dr(2) by simp
  qed
  show ?thesis
  proof (cases "utc_checked_add C now ms")
    case None
    then show ?thesis using that by (simp add: assign_def)
  next
    case (Some lease)
    have look: "assign_lookup C st now tenant d protocol None = Some (map_sum id TryNode sel)"
      using get sel(1) by (simp add: assign_lookup_def)
    show ?thesis
    proof (cases sel)
      case (Inl e)
      then show ?thesis using that Some look by (simp add: assign_def)
    next
      case (Inr n)
      obtain l1 ok where reserve: "limiter_reserve mt (node_id n) l = (l1, ok)" by fastforce
      have acq: "owner_acquire C tenant d (node_id n) now lease st =
          (with_owner st d (granted_row C tenant (node_id n) 1 now lease),
           Inr \<lparr>owner_node_id = node_id n, owner_epoch = 1, owner_lease_until = Some (timestamptz C lease)\<rparr>)"
        using owner_acquire_eq [OF wf dev] none by (simp add: may_take_def next_epoch_def)
      have "assign C ms now mt tenant d protocol None st l =
          Some (if ok then ((with_owner st d (granted_row C tenant (node_id n) 1 now lease),
              limiter_commit mt (node_id n) l1),
              Inr \<lparr>owner_node_id = node_id n, owner_epoch = 1, owner_lease_until = Some (timestamptz C lease)\<rparr>)
            else ((st, l1), Inl RateLimited))"
        using Some look Inr get reserve acq by (simp add: assign_def assign_acquire_def Let_def)
      note eq = this
      have "\<exists>row. with_owner st d (granted_row C tenant (node_id n) 1 now lease) = with_owner st d row \<and>
          row_owner_node row \<noteq> nid \<and> row_tenant row = tenant"
        using away [OF Inr]
        by (intro exI [of _ "granted_row C tenant (node_id n) 1 now lease"]) (simp add: granted_row_def)
      then show ?thesis
        using that eq by (cases ok) simp_all
    qed
  qed
qed

lemma drain_ok_same:
  assumes ok: "drain_ok C nid st" and "wf_store st'" and same: "same_elsewhere d st st'"
    and row: "\<And>r. owner_row_of st' d = Some r \<Longrightarrow> row_owner_node r = nid \<Longrightarrow> format_rfc3339 C (row_updated_at r) \<noteq> None"
  shows "drain_ok C nid st'"
proof -
  have "format_rfc3339 C (row_updated_at r) \<noteq> None"
    if "(e, r) \<in> set (store_owners st')" "row_owner_node r = nid" for e r
  proof (cases "e = d")
    case True
    then show ?thesis
      using row that assms(2) wf_table_map_of [of "store_owners st'" d r]
      by (simp add: wf_store_def owner_row_of_def)
  next
    case False
    have "owner_row_of st' e = Some r"
      using that(1) assms(2) wf_table_map_of [of "store_owners st'" e r] by (simp add: wf_store_def owner_row_of_def)
    then have "(e, r) \<in> set (store_owners st)"
      using same False map_of_SomeD by (fastforce simp: same_elsewhere_def owner_row_of_def)
    then show ?thesis using ok that(2) unfolding drain_ok_def by blast
  qed
  then show ?thesis
    using ok assms(2) same unfolding drain_ok_def same_elsewhere_def by auto
qed

lemma owned_known:
  assumes "wf_store st" and "owner_row_of st d = Some r"
  shows "(row_tenant r, d) \<in> set (store_devices st)"
  using assms(1) map_of_SomeD [OF assms(2) [unfolded owner_row_of_def]] unfolding wf_store_def by blast

lemma migrate_owned:
  assumes laws: "cursor_laws C" "column_laws C" and ok: "drain_ok C nid st"
    and row: "owner_row_of st d = Some r" "row_owner_node r = nid"
    and wall: "format_rfc3339 C (timestamptz C (read_wall t)) \<noteq> None"
  obtains st' l' res where "migrate_device C s t (row_tenant r) d protocol nid (st, l) = Some ((st', l'), res)"
    and "drain_ok C nid st'" and "same_elsewhere d st st'"
    and "\<forall>owner. res = Inr owner \<longrightarrow> d \<notin> owned_devices st' nid"
proof -
  let ?st = "st\<lparr>store_owners := AList.delete d (store_owners st)\<rparr>"
  have wf: "wf_store st" and nodes: "wf_nodes C (store_nodes st)" "listable C (store_nodes st)"
    using ok by (auto simp: drain_ok_def)
  obtain m where m: "map_of (store_nodes st) nid = Some m" "draining m"
    using ok by (auto simp: drain_ok_def)
  note cl = cleared_store [OF wf refl, of d]
  have dev: "(row_tenant r, d) \<in> set (store_devices ?st)"
    using owned_known [OF wf row(1)] by simp
  have get: "owner_get st (row_tenant r) d = Some (row_info r)"
    using row(1) dev by (simp add: owner_get_row [OF wf])
  obtain st' l' res where asg:
      "assign C (drain_lease_ms s) (read_now t) (read_mono t) (row_tenant r) d protocol None ?st l = Some ((st', l'), res)"
      "case res of Inl e \<Rightarrow> st' = ?st
       | Inr owner \<Rightarrow> \<exists>q. st' = with_owner ?st d q \<and> row_owner_node q \<noteq> nid \<and> row_tenant q = row_tenant r"
    by (rule assign_away [OF laws _ _ cl(1) dev cl(3), of nid m "drain_lease_ms s" "read_now t" "read_mono t"
            protocol l]) (use nodes m in simp_all)
  have mine: "owner_node_id (row_info r) = nid"
    using row(2) by (simp add: row_info_def)
  have mig: "migrate_device C s t (row_tenant r) d protocol nid (st, l) =
      Some (case res of Inr o' \<Rightarrow> ((st', l'), Inr o')
        | Inl e \<Rightarrow> ((fst (owner_set C (read_wall t) (row_tenant r) d (row_info r) st'), l'), Inl (DrainAssignment e)))"
    using m get asg(1) owner_clear_eq [OF wf row(1)] mine
    by (simp add: migrate_device_def node_get_def)
  show ?thesis
  proof (cases res)
    case (Inl e)
    let ?q = "\<lparr>row_tenant = row_tenant r, row_owner_node = owner_node_id (row_info r),
        row_owner_epoch = owner_epoch (row_info r),
        row_expires_at = map_option (timestamptz C) (owner_lease_until (row_info r)),
        row_updated_at = timestamptz C (read_wall t)\<rparr>"
    have set: "fst (owner_set C (read_wall t) (row_tenant r) d (row_info r) st') = with_owner ?st d ?q"
      using asg(2) Inl dev by (simp add: owner_set_eq)
    have "wf_store (with_owner ?st d ?q)"
      using cl(1) dev by (intro wf_with_owner) simp_all
    moreover have same: "same_elsewhere d st (with_owner ?st d ?q)"
      using same_elsewhere_trans [OF cl(2) same_elsewhere_with_owner] .
    ultimately have "drain_ok C nid (with_owner ?st d ?q)"
      using wall by (intro drain_ok_same [OF ok]) auto
    then show ?thesis
      using that [of "with_owner ?st d ?q" l'] mig set same Inl by simp
  next
    case (Inr owner)
    then obtain q where q: "st' = with_owner ?st d q" "row_owner_node q \<noteq> nid" "row_tenant q = row_tenant r"
      using asg(2) by auto
    have "wf_store st'"
      using q cl(1) dev by (simp add: wf_with_owner)
    moreover have same: "same_elsewhere d st st'"
      using same_elsewhere_trans [OF cl(2) same_elsewhere_with_owner] q(1) by simp
    ultimately have "drain_ok C nid st'"
      using q by (intro drain_ok_same [OF ok]) auto
    moreover have "d \<notin> owned_devices st' nid"
      using q by (simp add: owned_devices_def)
    ultimately show ?thesis
      using that [of st' l'] mig same Inr by simp
  qed
qed

section \<open>The loop\<close>

text \<open>The rows of the node the loop has still to attempt.\<close>

definition waiting :: "uuid \<Rightarrow> drain_state \<Rightarrow> (uuid \<times> owner_row) set" where
  "waiting nid ds =
     {(d, r). owner_row_of (fst (drain_cluster ds)) d = Some r \<and> row_owner_node r = nid \<and>
        (row_tenant r, d) \<notin> set (drain_attempted ds)}"

definition drain_inv :: "codec \<Rightarrow> drain_service \<Rightarrow> uuid \<Rightarrow> drain_state \<Rightarrow> bool" where
  "drain_inv C s nid ds \<longleftrightarrow>
     drain_ok C nid (fst (drain_cluster ds)) \<and>
     set (drain_attempted ds) \<subseteq> set (store_devices (fst (drain_cluster ds))) \<and>
     drain_processed ds \<le> drain_max_devices s \<and>
     report_migrated (drain_report ds) + report_failed (drain_report ds) + report_skipped (drain_report ds)
       = drain_processed ds \<and>
     card (owned_devices (fst (drain_cluster ds)) nid \<inter> snd ` set (drain_attempted ds))
       \<le> report_failed (drain_report ds) + report_skipped (drain_report ds)"

definition item_of :: "uuid \<times> owner_row \<Rightarrow> owned_device" where
  "item_of p = \<lparr>owned_tenant = row_tenant (snd p), owned_device_id = fst p, owned_owner = row_info (snd p)\<rparr>"

text \<open>What one attempt does, and that it keeps the invariant.\<close>

definition attempt_effect :: "codec \<Rightarrow> uuid \<Rightarrow> uuid \<Rightarrow> uuid \<Rightarrow> drain_state \<Rightarrow> drain_state \<Rightarrow> bool" where
  "attempt_effect C nid tenant d ds ds' \<longleftrightarrow>
     drain_attempted ds' = (tenant, d) # drain_attempted ds \<and> drain_processed ds' = drain_processed ds + 1 \<and>
     drain_ok C nid (fst (drain_cluster ds')) \<and>
     same_elsewhere d (fst (drain_cluster ds)) (fst (drain_cluster ds')) \<and>
     (let rep = drain_report ds
      in d \<notin> owned_devices (fst (drain_cluster ds')) nid \<and>
           drain_report ds' = rep\<lparr>report_migrated := report_migrated rep + 1\<rparr> \<or>
         drain_report ds' = rep\<lparr>report_failed := report_failed rep + 1\<rparr> \<or>
         drain_report ds' = rep\<lparr>report_skipped := report_skipped rep + 1\<rparr>)"

lemma attempt_remaining:
  assumes "same_elsewhere d st st'" and "finite A"
  shows "card (owned_devices st' nid \<inter> insert d A) \<le> Suc (card (owned_devices st nid \<inter> A))"
    and "d \<notin> owned_devices st' nid \<Longrightarrow>
         card (owned_devices st' nid \<inter> insert d A) \<le> card (owned_devices st nid \<inter> A)"
proof -
  have others: "owned_devices st' nid - {d} = owned_devices st nid - {d}"
    using assms(1) by (auto simp: owned_devices_def same_elsewhere_def)
  have "owned_devices st' nid \<inter> insert d A \<subseteq> insert d (owned_devices st nid \<inter> A)"
    using others by blast
  then have "card (owned_devices st' nid \<inter> insert d A) \<le> card (insert d (owned_devices st nid \<inter> A))"
    using assms(2) by (intro card_mono) auto
  also have "\<dots> \<le> Suc (card (owned_devices st nid \<inter> A))"
    using assms(2) by (simp add: card_insert_if)
  finally show "card (owned_devices st' nid \<inter> insert d A) \<le> Suc (card (owned_devices st nid \<inter> A))" .
  assume "d \<notin> owned_devices st' nid"
  then have "owned_devices st' nid \<inter> insert d A \<subseteq> owned_devices st nid \<inter> A"
    using others by blast
  then show "card (owned_devices st' nid \<inter> insert d A) \<le> card (owned_devices st nid \<inter> A)"
    using assms(2) by (intro card_mono) auto
qed

lemma drain_inv_attempt:
  assumes inv: "drain_inv C s nid ds" and room: "drain_processed ds < drain_max_devices s"
    and dev: "(tenant, d) \<in> set (store_devices (fst (drain_cluster ds)))"
    and eff: "attempt_effect C nid tenant d ds ds'"
  shows "drain_inv C s nid ds'"
proof -
  let ?A = "snd ` set (drain_attempted ds)"
  have same: "same_elsewhere d (fst (drain_cluster ds)) (fst (drain_cluster ds'))"
    and att: "drain_attempted ds' = (tenant, d) # drain_attempted ds"
    and rep: "d \<notin> owned_devices (fst (drain_cluster ds')) nid \<and> drain_report ds' =
        (drain_report ds)\<lparr>report_migrated := report_migrated (drain_report ds) + 1\<rparr> \<or>
      drain_report ds' = (drain_report ds)\<lparr>report_failed := report_failed (drain_report ds) + 1\<rparr> \<or>
      drain_report ds' = (drain_report ds)\<lparr>report_skipped := report_skipped (drain_report ds) + 1\<rparr>"
    using eff by (simp_all add: attempt_effect_def Let_def)
  note card = attempt_remaining [OF same, of ?A nid]
  have "card (owned_devices (fst (drain_cluster ds')) nid \<inter> snd ` set (drain_attempted ds'))
      \<le> report_failed (drain_report ds') + report_skipped (drain_report ds')"
    using rep card inv att by (auto simp: drain_inv_def)
  moreover have "report_migrated (drain_report ds') + report_failed (drain_report ds') +
      report_skipped (drain_report ds') = drain_processed ds + 1"
    using rep inv by (auto simp: drain_inv_def)
  ultimately show ?thesis
    using inv eff dev room same by (simp add: drain_inv_def attempt_effect_def same_elsewhere_def)
qed

lemma drain_one_effect:
  assumes laws: "cursor_laws C" "column_laws C"
    and wall: "\<forall>k. format_rfc3339 C (timestamptz C (read_wall (clock k))) \<noteq> None"
    and ok: "drain_ok C nid (fst (drain_cluster ds))" and w: "(d, r) \<in> waiting nid ds"
  shows "\<exists>ds'. drain_one C s clock lookup nid (item_of (d, r)) ds = Some ds' \<and>
    attempt_effect C nid (row_tenant r) d ds ds'"
proof -
  have row: "owner_row_of (fst (drain_cluster ds)) d = Some r" "row_owner_node r = nid"
    using w by (auto simp: waiting_def)
  consider (unknown) "\<exists>e. lookup (row_tenant r) d = Inl e" | (none) "lookup (row_tenant r) d = Inr None"
    | (known) protocol where "lookup (row_tenant r) d = Inr (Some protocol)"
    by (metis option.exhaust sum.exhaust)
  then show ?thesis
  proof cases
    case known
    obtain st' l' res where mig: "migrate_device C s (clock (drain_processed ds)) (row_tenant r) d protocol nid
          (fst (drain_cluster ds), snd (drain_cluster ds)) = Some ((st', l'), res)"
        "drain_ok C nid st'" "same_elsewhere d (fst (drain_cluster ds)) st'"
        "\<forall>owner. res = Inr owner \<longrightarrow> d \<notin> owned_devices st' nid"
      using migrate_owned [OF laws ok row wall [rule_format]] by blast
    then show ?thesis
      using known by (cases res) (simp_all add: drain_one_def item_of_def attempt_effect_def Let_def)
  qed (use ok in \<open>auto simp: drain_one_def item_of_def attempt_effect_def Let_def\<close>)
qed

lemma waiting_attempt:
  assumes eff: "attempt_effect C nid (row_tenant r) d ds ds'" and w: "(d, r) \<in> waiting nid ds"
    and wf: "wf_store (fst (drain_cluster ds))"
  shows "waiting nid ds' = waiting nid ds - {(d, r)}"
proof -
  let ?st = "fst (drain_cluster ds)" and ?st' = "fst (drain_cluster ds')"
  have same: "same_elsewhere d ?st ?st'" and att: "drain_attempted ds' = (row_tenant r, d) # drain_attempted ds"
    and wf': "wf_store ?st'"
    using eff by (simp_all add: attempt_effect_def drain_ok_def)
  have row: "owner_row_of ?st d = Some r"
    using w by (simp add: waiting_def)
  have "(row_tenant r, d) \<in> set (store_devices ?st')"
    using owned_known [OF wf row] same by (simp add: same_elsewhere_def)
  then have new: "row_tenant q = row_tenant r" if "owner_row_of ?st' d = Some q" for q
    using wf_store_tenant [OF wf' that] by simp
  show ?thesis
  proof (rule set_eqI, clarify)
    fix e q show "(e, q) \<in> waiting nid ds' \<longleftrightarrow> (e, q) \<in> waiting nid ds - {(d, r)}"
      using same att new row by (cases "e = d") (auto simp: waiting_def same_elsewhere_def)
  qed
qed

text \<open>A page of items: all are attempted, or the limit is reached.\<close>

definition page_done :: "drain_service \<Rightarrow> uuid \<Rightarrow> (uuid \<times> owner_row) set \<Rightarrow> drain_state \<Rightarrow> drain_state \<Rightarrow> bool \<Rightarrow> bool" where
  "page_done s nid rows ds ds' broken \<longleftrightarrow>
     (if broken then report_truncated (drain_report ds') \<and> drain_processed ds' = drain_max_devices s
      else waiting nid ds' = waiting nid ds - rows \<and>
           report_truncated (drain_report ds') = report_truncated (drain_report ds) \<and>
           (ds' = ds \<or> waiting nid ds \<inter> rows \<noteq> {}))"

lemma page_done_skip:
  "p \<notin> waiting nid ds \<Longrightarrow> page_done s nid rows ds ds' b \<Longrightarrow> page_done s nid (insert p rows) ds ds' b"
  by (auto simp: page_done_def split: if_splits)

lemma page_done_attempt:
  assumes "p \<in> waiting nid ds" and "waiting nid ds1 = waiting nid ds - {p}"
    and "report_truncated (drain_report ds1) = report_truncated (drain_report ds)"
    and "page_done s nid rows ds1 ds' b"
  shows "page_done s nid (insert p rows) ds ds' b"
  using assms by (auto simp: page_done_def split: if_splits)

definition listed_ok :: "uuid \<Rightarrow> (uuid \<times> owner_row) list \<Rightarrow> drain_state \<Rightarrow> bool" where
  "listed_ok nid rows ds \<longleftrightarrow>
     distinct (map fst rows) \<and>
     (\<forall>p \<in> set rows. (row_tenant (snd p), fst p) \<in> set (drain_attempted ds) \<or> p \<in> waiting nid ds)"

lemma listed_ok_attempt:
  assumes "listed_ok nid ((d, r) # rows) ds" and "waiting nid ds1 = waiting nid ds - {(d, r)}"
    and "drain_attempted ds1 = x # drain_attempted ds"
  shows "listed_ok nid rows ds1"
  using assms unfolding listed_ok_def by (auto simp: image_iff)

lemma drain_items_ok:
  assumes laws: "cursor_laws C" "column_laws C"
    and wall: "\<forall>k. format_rfc3339 C (timestamptz C (read_wall (clock k))) \<noteq> None"
  shows "drain_inv C s nid ds \<Longrightarrow> listed_ok nid rows ds \<Longrightarrow>
    \<exists>ds' broken. drain_items C s clock lookup nid (map item_of rows) ds = Some (ds', broken) \<and>
      drain_inv C s nid ds' \<and> page_done s nid (set rows) ds ds' broken"
proof (induction rows arbitrary: ds)
  case Nil
  then show ?case by (auto simp: page_done_def)
next
  case (Cons p rows)
  obtain d r where p: "p = (d, r)" by fastforce
  show ?case
  proof (cases "drain_max_devices s \<le> drain_processed ds")
    case True
    then have "drain_items C s clock lookup nid (map item_of (p # rows)) ds =
        Some (ds\<lparr>drain_report := (drain_report ds)\<lparr>report_truncated := True\<rparr>\<rparr>, True)" by simp
    moreover have "drain_inv C s nid (ds\<lparr>drain_report := (drain_report ds)\<lparr>report_truncated := True\<rparr>\<rparr>)"
      "drain_processed ds = drain_max_devices s"
      using Cons.prems(1) True by (simp_all add: drain_inv_def)
    ultimately show ?thesis by (auto simp: page_done_def)
  next
    case room: False
    show ?thesis
    proof (cases "(row_tenant r, d) \<in> set (drain_attempted ds)")
      case True
      then have "p \<notin> waiting nid ds" by (simp add: waiting_def p)
      moreover have "listed_ok nid rows ds" using Cons.prems(2) by (simp add: listed_ok_def)
      moreover have "drain_items C s clock lookup nid (map item_of (p # rows)) ds
          = drain_items C s clock lookup nid (map item_of rows) ds"
        using room True by (simp add: p item_of_def)
      ultimately show ?thesis
        using Cons.IH [OF Cons.prems(1)] page_done_skip by (metis list.set(2))
    next
      case False
      then have w: "(d, r) \<in> waiting nid ds" using Cons.prems(2) by (simp add: p listed_ok_def)
      have ok: "drain_ok C nid (fst (drain_cluster ds))" using Cons.prems(1) by (simp add: drain_inv_def)
      then have wf: "wf_store (fst (drain_cluster ds))" by (simp add: drain_ok_def)
      obtain ds1 where ds1: "drain_one C s clock lookup nid (item_of (d, r)) ds = Some ds1"
          "attempt_effect C nid (row_tenant r) d ds ds1"
        using drain_one_effect [OF laws wall ok w] by blast
      have dev: "(row_tenant r, d) \<in> set (store_devices (fst (drain_cluster ds)))"
        by (rule owned_known [OF wf]) (use w in \<open>simp add: waiting_def\<close>)
      have inv1: "drain_inv C s nid ds1"
        using drain_inv_attempt [OF Cons.prems(1) _ dev ds1(2)] room by simp
      note w1 = waiting_attempt [OF ds1(2) w wf]
      have trunc: "report_truncated (drain_report ds1) = report_truncated (drain_report ds)"
        and att: "drain_attempted ds1 = (row_tenant r, d) # drain_attempted ds"
        using ds1(2) by (auto simp: attempt_effect_def Let_def)
      obtain ds' broken where rest: "drain_items C s clock lookup nid (map item_of rows) ds1 = Some (ds', broken)"
          "drain_inv C s nid ds'" "page_done s nid (set rows) ds1 ds' broken"
        using Cons.IH [OF inv1 listed_ok_attempt [OF Cons.prems(2) [unfolded p] w1 att]] by blast
      have "drain_items C s clock lookup nid (map item_of (p # rows)) ds = Some (ds', broken)"
        using room False ds1(1) rest(1) by (simp add: p item_of_def)
      moreover have "page_done s nid (set (p # rows)) ds ds' broken"
        using page_done_attempt [OF w w1 trunc rest(3)] by (simp add: p)
      ultimately show ?thesis using rest(2) by blast
    qed
  qed
qed

lemma owned_rows_iff:
  assumes "wf_store st"
  shows "p \<in> set (owned_rows st nid) \<longleftrightarrow> owner_row_of st (fst p) = Some (snd p) \<and> row_owner_node (snd p) = nid"
  using assms wf_table_map_of [of "store_owners st" "fst p" "snd p"]
  by (auto simp: owned_rows_def owner_row_of_def wf_store_def)

lemma owned_rows_key_ok:
  assumes "drain_ok C nid st"
  shows "key_ok C owned_key (owned_rows st nid)" and "distinct (map fst (owned_rows st nid))"
proof -
  have wf: "wf_store st" using assms by (simp add: drain_ok_def)
  then show fst: "distinct (map fst (owned_rows st nid))"
    by (simp add: owned_rows_def wf_store_def distinct_map_filter)
  have "distinct (map snd (map owned_key (owned_rows st nid)))"
    using fst by (simp add: owned_key_def o_def)
  then have "distinct (map owned_key (owned_rows st nid))"
    by (rule conjunct1 [OF iffD1 [OF distinct_map]])
  moreover have "length (snd (owned_key p)) = 16 \<and> format_rfc3339 C (fst (owned_key p)) \<noteq> None"
    if p: "p \<in> set (owned_rows st nid)" for p
  proof -
    have row: "owner_row_of st (fst p) = Some (snd p)" "row_owner_node (snd p) = nid"
      using p by (simp_all add: owned_rows_iff [OF wf])
    then have "(fst p, snd p) \<in> set (store_owners st)"
      using map_of_SomeD [of "store_owners st" "fst p" "snd p"] by (simp add: owner_row_of_def)
    then show ?thesis
      using assms row(2) owned_known [OF wf row(1)] unfolding drain_ok_def owned_key_def by auto
  qed
  ultimately show "key_ok C owned_key (owned_rows st nid)"
    by (simp add: key_ok_def list_all_iff)
qed

lemma list_by_node_item_of:
  "list_by_node C st nid req =
     (case keyset_page C owned_key (owned_rows st nid) req of
        Inl e \<Rightarrow> Inl e
      | Inr p \<Rightarrow> Inr \<lparr>page_items = map item_of (page_items p), page_next_cursor = page_next_cursor p\<rparr>)"
  by (simp add: list_by_node_def item_of_def case_prod_beta cong: map_cong split: sum.splits)

lemma finite_waiting: "finite (waiting nid ds)"
proof -
  have "waiting nid ds \<subseteq> set (store_owners (fst (drain_cluster ds)))"
    by (auto simp: waiting_def owner_row_of_def dest: map_of_SomeD)
  then show ?thesis by (rule finite_subset) simp
qed

definition beyond :: "(instant \<times> uuid) option \<Rightarrow> uuid \<times> owner_row \<Rightarrow> bool" where
  "beyond c p = (case c of None \<Rightarrow> True | Some k \<Rightarrow> k < owned_key p)"

lemma distinct_rows_after: "distinct (map f rows) \<Longrightarrow> distinct (map f (rows_after key rows c))"
  by (auto simp: rows_after_def distinct_map intro: inj_on_subset)

text \<open>The rows the listing still shows at a position.\<close>

abbreviation upcoming :: "uuid \<Rightarrow> drain_state \<Rightarrow> (instant \<times> uuid) option \<Rightarrow> (uuid \<times> owner_row) list" where
  "upcoming nid ds c \<equiv> rows_after owned_key (owned_rows (fst (drain_cluster ds)) nid) c"

lemma upcoming_props:
  assumes "drain_inv C s nid ds"
  shows "distinct (map owned_key (owned_rows (fst (drain_cluster ds)) nid))"
    and "set (upcoming nid ds c) = {p \<in> set (owned_rows (fst (drain_cluster ds)) nid). beyond c p}"
    and "\<forall>p \<in> waiting nid ds. beyond c p \<Longrightarrow> waiting nid ds \<subseteq> set (upcoming nid ds c)"
    and "listed_ok nid (take n (upcoming nid ds c)) ds"
proof -
  let ?rows = "owned_rows (fst (drain_cluster ds)) nid"
  have ok: "drain_ok C nid (fst (drain_cluster ds))" and wf: "wf_store (fst (drain_cluster ds))"
    using assms by (auto simp: drain_inv_def drain_ok_def)
  note key = owned_rows_key_ok [OF ok]
  show dist: "distinct (map owned_key ?rows)" using key(1) by (simp add: key_ok_def)
  show set: "set (upcoming nid ds c) = {p \<in> set ?rows. beyond c p}"
    using rows_after_props(1) [OF dist, where c = c] by (simp add: beyond_def)
  have owned: "p \<in> set ?rows" if "p \<in> waiting nid ds" for p
    using that by (cases p) (simp add: waiting_def owned_rows_iff [OF wf])
  show "waiting nid ds \<subseteq> set (upcoming nid ds c)" if "\<forall>p \<in> waiting nid ds. beyond c p"
    using that owned unfolding set by blast
  have "distinct (map fst (take n (upcoming nid ds c)))"
    using distinct_rows_after [OF key(2), of owned_key c] by (simp add: take_map [symmetric])
  moreover have "(row_tenant (snd p), fst p) \<in> set (drain_attempted ds) \<or> p \<in> waiting nid ds"
    if "p \<in> set (take n (upcoming nid ds c))" for p
  proof -
    have "p \<in> set ?rows" using in_set_takeD [OF that] unfolding set by simp
    then show ?thesis by (simp add: waiting_def owned_rows_iff [OF wf] case_prod_beta)
  qed
  ultimately show "listed_ok nid (take n (upcoming nid ds c)) ds"
    by (simp add: listed_ok_def)
qed

lemma list_page:
  assumes laws: "cursor_laws C" and inv: "drain_inv C s nid ds"
    and req: "clamped_page_size req = Suc k" "request_position C req = Inr c"
  shows "if Suc k < length (upcoming nid ds c)
    then \<exists>cur. list_by_node C (fst (drain_cluster ds)) nid req = Inr \<lparr>page_items =
           map item_of (take (Suc k) (upcoming nid ds c)), page_next_cursor = Some cur\<rparr> \<and>
         read_cursor C cur = Inr (owned_key (upcoming nid ds c ! k))
    else list_by_node C (fst (drain_cluster ds)) nid req = Inr \<lparr>page_items =
           map item_of (take (Suc k) (upcoming nid ds c)), page_next_cursor = None\<rparr>"
proof -
  have "drain_ok C nid (fst (drain_cluster ds))" using inv by (simp add: drain_inv_def)
  from keyset_page_eq [OF laws owned_rows_key_ok(1) [OF this] req] show ?thesis
    by (auto simp: list_by_node_item_of)
qed

text \<open>After a full page the loop goes on behind it, with less to do.\<close>

lemma next_page:
  assumes inv: "drain_inv C s nid ds" and more: "Suc k < length (upcoming nid ds c)"
    and ahead: "\<forall>p \<in> waiting nid ds. beyond c p"
    and page: "page_done s nid (set (take (Suc k) (upcoming nid ds c))) ds ds1 False"
  defines "c1 \<equiv> Some (owned_key (upcoming nid ds c ! k))"
  shows "\<forall>p \<in> waiting nid ds1. beyond c1 p"
    and "((card (waiting nid ds1), length (upcoming nid ds1 c1)),
          (card (waiting nid ds), length (upcoming nid ds c))) \<in> less_than <*lex*> less_than"
proof -
  let ?L = "upcoming nid ds c"
  note props = upcoming_props [OF inv]
  have rest: "upcoming nid ds c1 = drop (Suc k) ?L"
    unfolding c1_def using more by (intro rows_after_next [OF props(1)]) simp
  have w1: "waiting nid ds1 = waiting nid ds - set (take (Suc k) ?L)"
    and prog: "ds1 = ds \<or> waiting nid ds \<inter> set (take (Suc k) ?L) \<noteq> {}"
    using page by (simp_all add: page_done_def)
  have "set ?L = set (take (Suc k) ?L) \<union> set (drop (Suc k) ?L)"
    by (metis append_take_drop_id set_append)
  then have "waiting nid ds1 \<subseteq> set (upcoming nid ds c1)"
    using w1 props(3) [OF ahead] unfolding rest by blast
  then show "\<forall>p \<in> waiting nid ds1. beyond c1 p"
    using props(2) by blast
  show "((card (waiting nid ds1), length (upcoming nid ds1 c1)),
      (card (waiting nid ds), length ?L)) \<in> less_than <*lex*> less_than"
  proof (cases "ds1 = ds")
    case True
    then show ?thesis using rest more by simp
  next
    case False
    then have "waiting nid ds1 \<subset> waiting nid ds" using prog w1 by blast
    then show ?thesis using psubset_card_mono [OF finite_waiting] by simp
  qed
qed

definition drain_end :: "drain_service \<Rightarrow> uuid \<Rightarrow> drain_state \<Rightarrow> drain_state \<Rightarrow> bool" where
  "drain_end s nid ds ds' \<longleftrightarrow>
     report_truncated (drain_report ds') \<and> drain_processed ds' = drain_max_devices s \<or>
     waiting nid ds' = {} \<and> report_truncated (drain_report ds') = report_truncated (drain_report ds)"

lemma drain_loop_ok:
  assumes laws: "cursor_laws C" "column_laws C"
    and wall: "\<forall>k. format_rfc3339 C (timestamptz C (read_wall (clock k))) \<noteq> None"
  shows "drain_inv C s nid ds \<Longrightarrow> clamped_page_size req = Suc k \<Longrightarrow> request_position C req = Inr c \<Longrightarrow>
    (\<forall>p \<in> waiting nid ds. beyond c p) \<Longrightarrow>
    \<exists>ds'. drain_loop C s clock lookup nid req ds = Some (ds', None) \<and> drain_inv C s nid ds' \<and> drain_end s nid ds ds'"
proof (induction "(card (waiting nid ds), length (upcoming nid ds c))"
    arbitrary: ds req c rule: wf_induct_rule [OF wf_lex_prod [OF wf_less_than wf_less_than]])
  case 1
  note inv = "1.prems"(1) and page = list_page [OF laws(1) "1.prems"(1-3)]
  let ?L = "upcoming nid ds c"
  obtain ds1 broken where items:
      "drain_items C s clock lookup nid (map item_of (take (Suc k) ?L)) ds = Some (ds1, broken)"
      "drain_inv C s nid ds1" "page_done s nid (set (take (Suc k) ?L)) ds ds1 broken"
    using drain_items_ok [OF laws wall inv upcoming_props(4) [OF inv]] by blast
  show ?case
  proof (cases "Suc k < length ?L \<and> \<not> broken")
    case True
    then obtain cur where cur: "list_by_node C (fst (drain_cluster ds)) nid req =
          Inr \<lparr>page_items = map item_of (take (Suc k) ?L), page_next_cursor = Some cur\<rparr>"
        "read_cursor C cur = Inr (owned_key (?L ! k))"
      using page by auto
    note more = next_page [OF inv conjunct1 [OF True] "1.prems"(4), of ds1]
    obtain ds' where ds': "drain_loop C s clock lookup nid (with_cursor req cur) ds1 = Some (ds', None)"
        "drain_inv C s nid ds'" "drain_end s nid ds1 ds'"
      using "1.hyps" [OF more(2) items(2) _ request_position_cursor(2) [OF cur(2)] more(1)] "1.prems"(2)
        items(3) True by auto
    have "drain_loop C s clock lookup nid req ds = Some (ds', None)"
      using cur(1) items(1) True ds'(1) by (subst drain_loop.simps) simp
    then show ?thesis
      using ds'(2,3) items(3) True by (auto simp: drain_end_def page_done_def)
  next
    case False
    then have "drain_loop C s clock lookup nid req ds = Some (ds1, None)"
      using page items(1) by (subst drain_loop.simps) (auto split: if_splits)
    moreover have "waiting nid ds1 = {}" if "\<not> broken"
      using items(3) that False upcoming_props(3) [OF inv "1.prems"(4)] by (auto simp: page_done_def)
    ultimately show ?thesis
      using items(2,3) by (cases broken) (auto simp: drain_end_def page_done_def)
  qed
qed

section \<open>Draining a node\<close>

lemma page_request_new_ok:
  "0 < n \<Longrightarrow> n \<le> max_page_size \<Longrightarrow> page_request_new n = Inr \<lparr>req_cursor = None, req_page_size = n\<rparr>"
  by (simp add: page_request_new_def)

lemma mark_draining_ok:
  assumes laws: "column_laws C" and wf: "wf_store st" and nodes: "wf_nodes C (store_nodes st)" "listable C (store_nodes st)"
    and n: "map_of (store_nodes st) nid = Some n" and now: "format_rfc3339 C (timestamptz C now) \<noteq> None"
    and ids: "\<forall>(t, d) \<in> set (store_devices st). length d = 16"
    and stamps: "\<forall>(d, r) \<in> set (store_owners st). format_rfc3339 C (row_updated_at r) \<noteq> None"
  obtains tab where "node_mark_draining C nid (node_instance n) now (store_nodes st) = (tab, True)"
    and "drain_ok C nid (st\<lparr>store_nodes := tab\<rparr>)"
proof -
  let ?n = "n\<lparr>draining := True, node_updated_at := timestamptz C now\<rparr>"
  let ?tab = "AList.update nid ?n (store_nodes st)"
  have mark: "node_mark_draining C nid (node_instance n) now (store_nodes st) = (?tab, True)"
    using n by (simp add: node_mark_draining_def)
  have "wf_nodes C ?tab"
    using wf_node_mark_draining [OF laws nodes(1), of nid "node_instance n" now] mark by simp
  moreover have "listable C ?tab"
  proof -
    have "length nid = 16" using nodes(2) map_of_SomeD [OF n] by (auto simp: listable_def list_all_iff)
    then show ?thesis
      using nodes(2) set_table_update [of nid ?n "store_nodes st"] now
      by (fastforce simp: listable_def list_all_iff)
  qed
  moreover have "map_of ?tab nid = Some ?n" by (simp add: table_simps)
  ultimately have "drain_ok C nid (st\<lparr>store_nodes := ?tab\<rparr>)"
    using wf ids stamps by (auto simp: drain_ok_def wf_store_def)
  with mark show ?thesis by (rule that)
qed

text \<open>
  C6. Draining ends and accounts for every device. For an existing node, \<open>drain_node\<close> returns a
  report, whatever the lookup answers and however the migrations end, although it lists the devices
  page by page from the table it is changing. It attempts at most the configured number of devices,
  each once. If the report says it stopped at that limit, the limit was reached; otherwise every
  device the node still owns is one the report counts as failed or skipped.
\<close>

theorem drain_ends_and_accounts:
  assumes laws: "cursor_laws C" "column_laws C"
    and store: "wf_store (fst cs)" "wf_nodes C (store_nodes (fst cs))" "listable C (store_nodes (fst cs))"
    and ids: "\<forall>(t, d) \<in> set (store_devices (fst cs)). length d = 16"
    and stamps: "\<forall>(d, r) \<in> set (store_owners (fst cs)). format_rfc3339 C (row_updated_at r) \<noteq> None"
    and clock: "format_rfc3339 C (timestamptz C now) \<noteq> None"
      "\<forall>k. format_rfc3339 C (timestamptz C (read_wall (clock k))) \<noteq> None"
    and node: "node_get nid (store_nodes (fst cs)) \<noteq> None"
  shows "\<exists>cs' rep. drain_node C (drain_service_new ms batch devices) now clock lookup nid cs = Some (cs', Inr rep) \<and>
    report_migrated rep + report_failed rep + report_skipped rep \<le> max devices 1 \<and>
    (if report_truncated rep
     then report_migrated rep + report_failed rep + report_skipped rep = max devices 1
     else card (owned_devices (fst cs') nid) \<le> report_failed rep + report_skipped rep)"
proof -
  let ?s = "drain_service_new ms batch devices"
  obtain n where n: "map_of (store_nodes (fst cs)) nid = Some n" using node by (auto simp: node_get_def)
  obtain tab where tab: "node_mark_draining C nid (node_instance n) now (store_nodes (fst cs)) = (tab, True)"
      "drain_ok C nid ((fst cs)\<lparr>store_nodes := tab\<rparr>)"
    by (rule mark_draining_ok [OF laws(2) store n clock(1) ids stamps])
  let ?ds = "\<lparr>drain_cluster = ((fst cs)\<lparr>store_nodes := tab\<rparr>, snd cs),
      drain_report = \<lparr>report_migrated = 0, report_failed = 0, report_skipped = 0, report_truncated = False\<rparr>,
      drain_attempted = [], drain_processed = 0\<rparr>"
  have inv: "drain_inv C ?s nid ?ds"
    using tab(2) by (simp add: drain_inv_def)
  obtain req where req: "page_request_new (drain_batch_size ?s) = Inr req" "req_cursor req = None"
    using page_request_new_ok [of "drain_batch_size ?s"] by (auto simp: drain_service_new_def max_page_size_def)
  obtain k where k: "clamped_page_size req = Suc k" using clamped_pos by blast
  obtain ds where ds: "drain_loop C ?s clock lookup nid req ?ds = Some (ds, None)" "drain_inv C ?s nid ds"
      "drain_end ?s nid ?ds ds"
    using drain_loop_ok [OF laws clock(2) inv k request_position_cursor(1) [OF req(2)]] by (auto simp: beyond_def)
  have "drain_node C ?s now clock lookup nid cs = Some (drain_cluster ds, Inr (drain_report ds))"
    using n tab(1) req(1) ds(1) by (simp add: drain_node_def node_get_def Let_def)
  moreover have "owned_devices (fst (drain_cluster ds)) nid \<subseteq> snd ` set (drain_attempted ds)"
    if "waiting nid ds = {}"
    using that by (force simp: waiting_def owned_devices_def)
  ultimately show ?thesis
    using ds(2,3) by (auto simp: drain_inv_def drain_end_def drain_service_new_def inf.absorb1 intro!: exI)
qed

definition sample_drain_store :: owner_store where
  "sample_drain_store =
     \<lparr>store_nodes = sample_members,
      store_owners = [(device_d, \<lparr>row_tenant = ''t'', row_owner_node = node_A, row_owner_epoch = 4,
                                  row_expires_at = Some 90000000, row_updated_at = 1000\<rparr>)],
      store_devices = [(''t'', device_d)]\<rparr>"

definition sample_clock :: "nat \<Rightarrow> clock_reading" where
  "sample_clock k = \<lparr>read_now = 2000, read_mono = 0, read_wall = 3000\<rparr>"

theorem drain_ends_and_accounts_witness:
  "\<exists>cs' rep. drain_node sample_codec (drain_service_new 30 10 5) 2000 sample_clock (\<lambda>t d. Inr (Some []))
      node_A (sample_drain_store, limiter_new sample_limits) = Some (cs', Inr rep) \<and>
    report_migrated rep + report_failed rep + report_skipped rep \<le> 5"
proof -
  have "wf_store sample_drain_store" "wf_nodes sample_codec (store_nodes sample_drain_store)"
    "listable sample_codec (store_nodes sample_drain_store)"
    using sample_members_ok(1,2) by (simp_all add: sample_drain_store_def wf_store_def)
  moreover have "node_get node_A (store_nodes sample_drain_store) \<noteq> None"
    by (simp add: sample_drain_store_def sample_members_def node_get_def)
  ultimately show ?thesis
    using drain_ends_and_accounts [OF sample_codec_laws, of "(sample_drain_store, limiter_new sample_limits)" 2000
        sample_clock node_A 30 10 5 "\<lambda>t d. Inr (Some [])"]
    by (auto simp: sample_drain_store_def sample_clock_def sample_codec_def)
qed

end
