(* ===== verification/Command.thy ===== *)
theory Command
  imports Pagination "HOL-Library.Word"
begin

text \<open>
  Requests and commands: error kinds (\<open>cheetah-signal-types/src/error.rs\<close> and
  \<open>cheetah-domain/src/error.rs\<close>), request contexts and resource references
  (\<open>cheetah-signal-types/src/context.rs\<close>), idempotency scopes, typed payloads with their validation
  and commands (\<open>cheetah-domain/src/command.rs\<close>).

  The human readable messages of errors are left out. An \<open>f64\<close> is its 64 bits. The span of the
  calendar of the \<open>time\<close> crate, in days, is a parameter of the validation of a seek.
\<close>

unbundle bit_operations_syntax

section \<open>Errors\<close>

fun error_code :: "signal_error_kind \<Rightarrow> string" where
  "error_code InvalidArgument = ''INVALID_ARGUMENT''"
| "error_code Unauthenticated = ''UNAUTHENTICATED''"
| "error_code PermissionDenied = ''PERMISSION_DENIED''"
| "error_code NotFound = ''NOT_FOUND''"
| "error_code AlreadyExists = ''ALREADY_EXISTS''"
| "error_code Conflict = ''CONFLICT''"
| "error_code StaleOwner = ''STALE_OWNER''"
| "error_code Busy = ''BUSY''"
| "error_code RateLimited = ''RATE_LIMITED''"
| "error_code Timeout = ''TIMEOUT''"
| "error_code Cancelled = ''CANCELLED''"
| "error_code Unavailable = ''UNAVAILABLE''"
| "error_code Unsupported = ''UNSUPPORTED''"
| "error_code VersionMismatch = ''VERSION_MISMATCH''"
| "error_code FailedPrecondition = ''FAILED_PRECONDITION''"
| "error_code CursorExpired = ''CURSOR_EXPIRED''"
| "error_code ProtocolFailed = ''PROTOCOL_FAILED''"
| "error_code MediaFailed = ''MEDIA_FAILED''"
| "error_code StorageFailed = ''STORAGE_FAILED''"
| "error_code Internal = ''INTERNAL''"

definition is_retryable :: "signal_error_kind \<Rightarrow> bool" where
  "is_retryable k \<longleftrightarrow>
     k \<in> {StaleOwner, Busy, RateLimited, Timeout, Unavailable, ProtocolFailed, StorageFailed, MediaFailed}"

fun to_http_status :: "signal_error_kind \<Rightarrow> nat" where
  "to_http_status InvalidArgument = 400"
| "to_http_status Unauthenticated = 401"
| "to_http_status PermissionDenied = 403"
| "to_http_status NotFound = 404"
| "to_http_status AlreadyExists = 409"
| "to_http_status Conflict = 409"
| "to_http_status StaleOwner = 409"
| "to_http_status Busy = 429"
| "to_http_status RateLimited = 429"
| "to_http_status Timeout = 504"
| "to_http_status Cancelled = 499"
| "to_http_status Unavailable = 503"
| "to_http_status Unsupported = 501"
| "to_http_status VersionMismatch = 409"
| "to_http_status FailedPrecondition = 412"
| "to_http_status CursorExpired = 400"
| "to_http_status ProtocolFailed = 502"
| "to_http_status MediaFailed = 502"
| "to_http_status StorageFailed = 503"
| "to_http_status Internal = 500"

datatype domain_error =
    DomainInvalidTransition string string string
  | DomainConcurrentModification nat nat
  | DomainNotFound string
  | DomainNoOwner
  | DomainStaleOwner nat nat
  | DomainInvalidArgument
  | DomainUnavailable
  | DomainAlreadyTerminal string string
  | DomainInternal
  | DomainUnsupported

fun signal_of_domain :: "domain_error \<Rightarrow> signal_error_kind" where
  "signal_of_domain (DomainInvalidTransition entity from_state to_state) = Conflict"
| "signal_of_domain (DomainConcurrentModification expected found) = Conflict"
| "signal_of_domain (DomainNotFound entity) = NotFound"
| "signal_of_domain DomainNoOwner = Unavailable"
| "signal_of_domain (DomainStaleOwner expected found) = StaleOwner"
| "signal_of_domain DomainInvalidArgument = InvalidArgument"
| "signal_of_domain DomainUnavailable = Unavailable"
| "signal_of_domain (DomainAlreadyTerminal entity status) = Conflict"
| "signal_of_domain DomainInternal = Internal"
| "signal_of_domain DomainUnsupported = Unsupported"

section \<open>Request contexts and resources\<close>

datatype principal_kind = User | Service | Plugin | Device | UnknownPrincipal

record principal =
  principal_id :: string
  principal_kind :: principal_kind
  principal_scopes :: "string list"

record request_context =
  ctx_tenant :: uuid
  ctx_principal :: principal
  ctx_message_id :: uuid
  ctx_correlation_id :: uuid
  ctx_traceparent :: "string option"
  ctx_tracestate :: "string option"
  ctx_deadline :: "instant option"
  ctx_node :: "uuid option"
  ctx_source_ip :: "string option"

datatype resource_kind =
    TenantKind | DeviceKind | ChannelKind | EndpointKind | ProtocolSessionKind | MediaSessionKind
  | MediaBindingKind | OperationKind | EventKind | PluginKind | NodeKind | MediaNodeKind

datatype resource_id =
    TenantRes uuid | DeviceRes uuid | ChannelRes uuid | EndpointRes uuid | ProtocolSessionRes uuid
  | MediaSessionRes uuid | MediaBindingRes uuid | OperationRes uuid | EventRes uuid | PluginRes uuid
  | NodeRes uuid | MediaNodeRes uuid

record resource_ref =
  ref_tenant :: uuid
  ref_kind :: resource_kind
  ref_id :: resource_id

definition uuid_nil :: uuid where
  "uuid_nil = replicate 16 (byte 0)"

definition deadline_from_now :: "codec \<Rightarrow> instant \<Rightarrow> int \<Rightarrow> instant option" where
  "deadline_from_now C now ms = utc_checked_add C now ms"

definition deadline_is_elapsed :: "instant \<Rightarrow> instant \<Rightarrow> bool" where
  "deadline_is_elapsed d now \<longleftrightarrow> d \<le> now"

definition i64_max :: int where "i64_max = 9223372036854775807"

definition deadline_remaining :: "instant \<Rightarrow> instant \<Rightarrow> int option" where
  "deadline_remaining d now =
     (if deadline_is_elapsed d now then None
      else Some (let ms = (d - now) div 1000000 in if i64_max < ms then i64_max else ms))"

section \<open>Payloads\<close>

type_synonym f64 = "64 word"

text \<open>\<open>is_finite\<close>: the eleven bits of the exponent are not all set. \<open>x < 0.0\<close> for a finite \<open>x\<close>:
  the sign is set and the number is not the negative zero.\<close>

definition f64_is_finite :: "f64 \<Rightarrow> bool" where
  "f64_is_finite x \<longleftrightarrow> drop_bit 52 x AND 0x7FF \<noteq> 0x7FF"

definition f64_is_negative :: "f64 \<Rightarrow> bool" where
  "f64_is_negative x \<longleftrightarrow> bit x 63 \<and> take_bit 63 x \<noteq> 0"

definition validate_speed :: "f64 \<Rightarrow> domain_error + unit" where
  "validate_speed x = (if \<not> f64_is_finite x \<or> f64_is_negative x then Inl DomainInvalidArgument else Inr ())"

definition validate_scale :: "f64 \<Rightarrow> domain_error + unit" where
  "validate_scale x = (if \<not> f64_is_finite x \<or> f64_is_negative x then Inl DomainInvalidArgument else Inr ())"

definition max_seek_offset_ms :: "int \<Rightarrow> int" where
  "max_seek_offset_ms days = days * 24 * 60 * 60 * 1000"

definition validate_seek_offset :: "int \<Rightarrow> int \<Rightarrow> domain_error + unit" where
  "validate_seek_offset days ms =
     (if ms < 0 then Inl DomainInvalidArgument
      else if max_seek_offset_ms days < ms then Inl DomainInvalidArgument
      else Inr ())"

datatype media_purpose = UnknownPurpose | Live | Playback | Talk | Broadcast

definition requires_media_sender :: "media_purpose \<Rightarrow> bool" where
  "requires_media_sender p \<longleftrightarrow> p = Talk \<or> p = Broadcast"

datatype media_control = ControlPlay | ControlPause | ControlStop | ControlSeek int | ControlScale f64

datatype ptz_direction =
    PtzStop | PtzUp | PtzDown | PtzLeft | PtzRight | PtzUpLeft | PtzUpRight | PtzDownLeft | PtzDownRight
  | PtzZoomIn | PtzZoomOut

datatype query_kind =
  QueryCatalog | QueryDeviceInfo | QueryDeviceStatus | QueryRecordInfo | QueryPreset | QueryConfigDownload

record query_command =
  query_kind :: query_kind
  query_channel :: "uuid option"
  query_start_time :: "instant option"
  query_end_time :: "instant option"
  query_config_type :: "string option"
  query_scale :: "f64 option"

datatype preset_action = PresetGoto | PresetSet | PresetDelete | PresetList

record preset_command =
  preset_channel :: uuid
  preset_action :: preset_action
  preset_id :: u32

datatype device_control_kind =
  ControlGuard | ControlAlarmReset | ControlRecord | ControlTeleBoot | ControlIFrame | ControlDeviceConfig

record device_control_command =
  control_kind :: device_control_kind
  control_channel :: "uuid option"
  control_enabled :: "bool option"
  control_param :: "string option"

datatype command_payload =
    StartLive uuid uuid uuid media_purpose
  | StartPlayback uuid uuid uuid instant instant f64
  | StartTalk uuid uuid uuid
  | StartBroadcast uuid uuid uuid
  | StopMediaSession uuid
  | ControlPlayback uuid media_control
  | Ptz uuid ptz_direction f64
  | Query query_command
  | Preset preset_command
  | DeviceControl device_control_command

fun query_kind_as_str :: "query_kind \<Rightarrow> string" where
  "query_kind_as_str QueryCatalog = ''catalog''"
| "query_kind_as_str QueryDeviceInfo = ''device_info''"
| "query_kind_as_str QueryDeviceStatus = ''device_status''"
| "query_kind_as_str QueryRecordInfo = ''record_info''"
| "query_kind_as_str QueryPreset = ''preset_query''"
| "query_kind_as_str QueryConfigDownload = ''config_download''"

definition max_query_config_type_bytes :: nat where "max_query_config_type_bytes = 128"
definition max_device_control_param_bytes :: nat where "max_device_control_param_bytes = 1024"

definition query_validate :: "query_command \<Rightarrow> domain_error + unit" where
  "query_validate q =
     (if (case query_config_type q of None \<Rightarrow> False | Some s \<Rightarrow> max_query_config_type_bytes < length s)
      then Inl DomainInvalidArgument
      else case query_scale q of None \<Rightarrow> Inr () | Some x \<Rightarrow> validate_scale x)"

fun media_control_validate :: "int \<Rightarrow> media_control \<Rightarrow> domain_error + unit" where
  "media_control_validate days (ControlScale x) = validate_scale x"
| "media_control_validate days (ControlSeek ms) = validate_seek_offset days ms"
| "media_control_validate days _ = Inr ()"

definition device_control_validate :: "device_control_command \<Rightarrow> domain_error + unit" where
  "device_control_validate c =
     (if (case control_param c of None \<Rightarrow> False | Some s \<Rightarrow> max_device_control_param_bytes < length s)
      then Inl DomainInvalidArgument else Inr ())"

fun payload_kind :: "command_payload \<Rightarrow> string" where
  "payload_kind (StartLive m c n p) = ''StartLive''"
| "payload_kind (StartPlayback m c n t u x) = ''StartPlayback''"
| "payload_kind (StartTalk m c n) = ''StartTalk''"
| "payload_kind (StartBroadcast m c n) = ''StartBroadcast''"
| "payload_kind (StopMediaSession m) = ''StopMediaSession''"
| "payload_kind (ControlPlayback m c) = ''ControlPlayback''"
| "payload_kind (Ptz c d x) = ''Ptz''"
| "payload_kind (Query q) = ''Query''"
| "payload_kind (Preset p) = ''Preset''"
| "payload_kind (DeviceControl c) = ''DeviceControl''"

fun payload_validate :: "int \<Rightarrow> command_payload \<Rightarrow> domain_error + unit" where
  "payload_validate days (StartPlayback m c n t u scale) = validate_scale scale"
| "payload_validate days (ControlPlayback m control) = media_control_validate days control"
| "payload_validate days (Ptz c d speed) = validate_speed speed"
| "payload_validate days (Query q) = query_validate q"
| "payload_validate days (DeviceControl c) = device_control_validate c"
| "payload_validate days _ = Inr ()"

section \<open>Scopes and commands\<close>

record idempotency_scope =
  scope_tenant :: uuid
  scope_principal :: string
  scope_target :: resource_ref
  scope_key :: string

definition max_idempotency_key_bytes :: nat where "max_idempotency_key_bytes = 256"
definition max_principal_id_bytes :: nat where "max_principal_id_bytes = 256"

definition idempotency_scope_new ::
  "uuid \<Rightarrow> string \<Rightarrow> resource_ref \<Rightarrow> string \<Rightarrow> domain_error + idempotency_scope" where
  "idempotency_scope_new tenant pid target key =
     (if key = [] then Inl DomainInvalidArgument
      else if max_idempotency_key_bytes < length key then Inl DomainInvalidArgument
      else if max_principal_id_bytes < length pid then Inl DomainInvalidArgument
      else Inr \<lparr>scope_tenant = tenant, scope_principal = pid, scope_target = target, scope_key = key\<rparr>)"

record command =
  cmd_id :: uuid
  cmd_message_id :: uuid
  cmd_operation_id :: uuid
  cmd_step_id :: "uuid option"
  cmd_tenant :: uuid
  cmd_device :: uuid
  cmd_target :: resource_ref
  cmd_payload :: command_payload
  cmd_key :: string
  cmd_scope :: idempotency_scope
  cmd_deadline :: "instant option"
  cmd_expected_epoch :: nat
  cmd_requested_by :: principal
  cmd_correlation_id :: uuid
  cmd_causation_id :: uuid
  cmd_traceparent :: "string option"
  cmd_tracestate :: "string option"

text \<open>\<open>ids\<close> is what the identifier generator returns, in the order of the calls.\<close>

definition command_new ::
  "int \<Rightarrow> (nat \<Rightarrow> uuid) \<Rightarrow> uuid \<Rightarrow> uuid option \<Rightarrow> uuid \<Rightarrow> uuid \<Rightarrow> idempotency_scope \<Rightarrow> resource_ref \<Rightarrow>
   command_payload \<Rightarrow> instant option \<Rightarrow> nat \<Rightarrow> principal \<Rightarrow> uuid \<Rightarrow> uuid \<Rightarrow> string option \<Rightarrow> string option \<Rightarrow>
   domain_error + command" where
  "command_new days ids operation_id step_id tenant device scope target payload deadline epoch by
     correlation causation traceparent tracestate =
     (case payload_validate days payload of
        Inl e \<Rightarrow> Inl e
      | Inr _ \<Rightarrow> Inr
          \<lparr>cmd_id = ids 0, cmd_message_id = ids 1, cmd_operation_id = operation_id, cmd_step_id = step_id,
           cmd_tenant = tenant, cmd_device = device, cmd_target = target, cmd_payload = payload,
           cmd_key = scope_key scope, cmd_scope = scope, cmd_deadline = deadline,
           cmd_expected_epoch = epoch, cmd_requested_by = by, cmd_correlation_id = correlation,
           cmd_causation_id = causation, cmd_traceparent = traceparent, cmd_tracestate = tracestate\<rparr>)"

definition command_kind :: "command \<Rightarrow> string" where
  "command_kind c = payload_kind (cmd_payload c)"

section \<open>What the checks accept\<close>

lemma error_code_inj: "error_code k = error_code l \<Longrightarrow> k = l"
  by (cases k; cases l) simp_all

text \<open>Exactly the bit patterns below the infinity and the negative zero are speeds and scales.\<close>

lemma f64_exponent: "unat (drop_bit 52 x AND 0x7FF :: f64) = unat x div 2 ^ 52 mod 2 ^ 11"
proof -
  have "drop_bit 52 x AND 0x7FF = take_bit 11 (drop_bit 52 x)"
    by (simp add: take_bit_eq_mask mask_eq_exp_minus_1)
  moreover have "unat (take_bit 11 (drop_bit 52 x)) = take_bit 11 (unat (drop_bit 52 x))"
    by (rule unsigned_take_bit_eq)
  moreover have "unat (drop_bit 52 x) = drop_bit 52 (unat x)"
    by (rule unat_drop_bit_eq)
  ultimately show ?thesis
    by (metis drop_bit_eq_div take_bit_eq_mod)
qed

lemma f64_bits: "unat (x :: f64) < 2 ^ 64"
  using unsigned_less [where ?'a = nat, of x] by simp

lemma f64_sign: "bit (x :: f64) 63 \<longleftrightarrow> 2 ^ 63 \<le> unat x"
proof -
  have "bit x 63 \<longleftrightarrow> odd (unat x div 2 ^ 63)"
    using bit_unsigned_iff [where ?'a = nat, of x 63] by (simp add: bit_iff_odd)
  moreover have "unat x div 2 ^ 63 < 2" using f64_bits [of x] by auto
  ultimately show ?thesis
    by (auto simp: less_2_cases_iff div_eq_0_iff)
qed

lemma f64_magnitude: "take_bit 63 x = 0 \<longleftrightarrow> unat (x :: f64) mod 2 ^ 63 = 0"
proof -
  have "unat (take_bit 63 x) = unat x mod 2 ^ 63"
    using unsigned_take_bit_eq [where ?'a = nat, of 63 x] by (simp only: take_bit_eq_mod)
  then show ?thesis by (metis unsigned_0 unsigned_word_eqI unat_eq_zero)
qed

lemma validate_speed_accepts:
  "validate_speed x = Inr () \<longleftrightarrow> unat x < 0x7FF0000000000000 \<or> unat x = 0x8000000000000000"
proof -
  let ?n = "unat x"
  have fin: "f64_is_finite x \<longleftrightarrow> ?n div 2 ^ 52 mod 2 ^ 11 \<noteq> 2047"
    unfolding f64_is_finite_def f64_exponent [symmetric] by (simp add: word_unat_eq_iff)
  have neg: "f64_is_negative x \<longleftrightarrow> 2 ^ 63 \<le> ?n \<and> ?n mod 2 ^ 63 \<noteq> 0"
    by (simp only: f64_is_negative_def f64_sign f64_magnitude)
  have "?n div 2 ^ 52 < 2 ^ 11" if "?n < 2 ^ 63" using that by auto
  then have small: "?n div 2 ^ 52 mod 2 ^ 11 \<noteq> 2047 \<longleftrightarrow> ?n < 2047 * 2 ^ 52" if "?n < 2 ^ 63"
    using that by auto
  have large: "?n = 2 ^ 63" if "2 ^ 63 \<le> ?n" "?n mod 2 ^ 63 = 0"
    using that f64_bits [of x] by auto
  show ?thesis
  proof (cases "?n < 2 ^ 63")
    case True
    then show ?thesis using fin neg small by (auto simp: validate_speed_def)
  next
    case False
    then show ?thesis using fin neg large by (auto simp: validate_speed_def)
  qed
qed

end
