(* ===== verification/Operation.thy ===== *)
theory Operation
  imports Command
begin

text \<open>
  The operation aggregate (\<open>cheetah-domain/src/operation.rs\<close>): status, result, error and the saga
  steps of an operation with their dispatch attempts. A method is a function from the aggregate to
  the aggregate it leaves and its answer, because \<open>&mut self\<close> keeps the changes made before an
  early return. The readings of the clock in a call are \<open>now 0\<close>, \<open>now 1\<close>, \<open>\<dots>\<close> in the order of
  the code. Revisions are natural numbers; 64 bits are enough for every number of calls.
\<close>

section \<open>Status, results and errors\<close>

datatype operation_status = OpPending | OpRunning | OpSucceeded | OpFailed | OpCancelled | OpTimedOut

definition status_is_terminal :: "operation_status \<Rightarrow> bool" where
  "status_is_terminal s \<longleftrightarrow> s \<in> {OpSucceeded, OpFailed, OpCancelled, OpTimedOut}"

fun status_display :: "operation_status \<Rightarrow> string" where
  "status_display OpPending = ''pending''"
| "status_display OpRunning = ''running''"
| "status_display OpSucceeded = ''succeeded''"
| "status_display OpFailed = ''failed''"
| "status_display OpCancelled = ''cancelled''"
| "status_display OpTimedOut = ''timed_out''"

text \<open>\<open>{:?}\<close>, the derived \<open>Debug\<close> text.\<close>

fun status_debug :: "operation_status \<Rightarrow> string" where
  "status_debug OpPending = ''Pending''"
| "status_debug OpRunning = ''Running''"
| "status_debug OpSucceeded = ''Succeeded''"
| "status_debug OpFailed = ''Failed''"
| "status_debug OpCancelled = ''Cancelled''"
| "status_debug OpTimedOut = ''TimedOut''"

definition status_from_str :: "string \<Rightarrow> domain_error + operation_status" where
  "status_from_str s =
     (if eq_ignore_ascii_case s ''pending'' then Inr OpPending
      else if eq_ignore_ascii_case s ''running'' then Inr OpRunning
      else if eq_ignore_ascii_case s ''succeeded'' then Inr OpSucceeded
      else if eq_ignore_ascii_case s ''failed'' then Inr OpFailed
      else if eq_ignore_ascii_case s ''cancelled'' then Inr OpCancelled
      else if eq_ignore_ascii_case s ''timed_out'' then Inr OpTimedOut
      else Inl DomainInvalidArgument)"

definition max_operation_error_code_bytes :: nat where "max_operation_error_code_bytes = 128"
definition max_operation_error_message_bytes :: nat where "max_operation_error_message_bytes = 2048"

datatype operation_result = ResultSuccess | ResultFailure string string

fun result_validate :: "operation_result \<Rightarrow> domain_error + unit" where
  "result_validate (ResultFailure code message) =
     (if max_operation_error_code_bytes < length code then Inl DomainInvalidArgument
      else if max_operation_error_message_bytes < length message then Inl DomainInvalidArgument
      else Inr ())"
| "result_validate ResultSuccess = Inr ()"

definition result_is_success :: "operation_result \<Rightarrow> bool" where
  "result_is_success r \<longleftrightarrow> r = ResultSuccess"

record operation_error =
  oe_code :: string
  oe_message :: string

definition error_new :: "string \<Rightarrow> string \<Rightarrow> operation_error" where
  "error_new code message = \<lparr>oe_code = code, oe_message = message\<rparr>"

definition error_validate :: "operation_error \<Rightarrow> domain_error + unit" where
  "error_validate e =
     (if max_operation_error_code_bytes < length (oe_code e) then Inl DomainInvalidArgument
      else if max_operation_error_message_bytes < length (oe_message e) then Inl DomainInvalidArgument
      else Inr ())"

definition expired_before_dispatch :: operation_error where
  "expired_before_dispatch =
     \<lparr>oe_code = ''expired_before_dispatch'', oe_message = ''deadline expired before dispatch''\<rparr>"

definition error_cancelled :: operation_error where
  "error_cancelled = \<lparr>oe_code = ''cancelled'', oe_message = ''operation was cancelled''\<rparr>"

definition error_timeout :: operation_error where
  "error_timeout = \<lparr>oe_code = ''timeout'', oe_message = ''operation timed out''\<rparr>"

section \<open>Steps and dispatch attempts\<close>

datatype step_status = StepPending | StepRunning | StepSucceeded | StepFailed | StepCompensated

definition step_is_terminal :: "step_status \<Rightarrow> bool" where
  "step_is_terminal s \<longleftrightarrow> s \<in> {StepSucceeded, StepFailed, StepCompensated}"

datatype attempt_status =
  AttemptPending | AttemptSent | AttemptAcked | AttemptNacked | AttemptTimedOut | AttemptDeadLetter

record dispatch_attempt =
  attempt_id :: uuid
  attempt_status :: attempt_status
  attempt_sent_at :: "instant option"
  attempt_acked_at :: "instant option"
  attempt_error :: "operation_error option"

definition attempt_new :: "uuid \<Rightarrow> dispatch_attempt" where
  "attempt_new i =
     \<lparr>attempt_id = i, attempt_status = AttemptPending, attempt_sent_at = None, attempt_acked_at = None,
      attempt_error = None\<rparr>"

definition mark_sent :: "instant \<Rightarrow> dispatch_attempt \<Rightarrow> dispatch_attempt" where
  "mark_sent now a = a\<lparr>attempt_status := AttemptSent, attempt_sent_at := Some now\<rparr>"

definition mark_acked :: "instant \<Rightarrow> dispatch_attempt \<Rightarrow> dispatch_attempt" where
  "mark_acked now a = a\<lparr>attempt_status := AttemptAcked, attempt_acked_at := Some now\<rparr>"

definition mark_nacked ::
  "operation_error \<Rightarrow> instant \<Rightarrow> dispatch_attempt \<Rightarrow> domain_error + dispatch_attempt" where
  "mark_nacked e now a =
     (case error_validate e of
        Inl d \<Rightarrow> Inl d
      | Inr _ \<Rightarrow> Inr (a\<lparr>attempt_status := AttemptNacked, attempt_error := Some e,
                        attempt_acked_at := Some now\<rparr>))"

definition mark_timed_out :: "instant \<Rightarrow> dispatch_attempt \<Rightarrow> dispatch_attempt" where
  "mark_timed_out now a = a\<lparr>attempt_status := AttemptTimedOut, attempt_acked_at := Some now\<rparr>"

definition mark_dead_letter ::
  "operation_error \<Rightarrow> instant \<Rightarrow> dispatch_attempt \<Rightarrow> domain_error + dispatch_attempt" where
  "mark_dead_letter e now a =
     (case error_validate e of
        Inl d \<Rightarrow> Inl d
      | Inr _ \<Rightarrow> Inr (a\<lparr>attempt_status := AttemptDeadLetter, attempt_error := Some e,
                        attempt_acked_at := Some now\<rparr>))"

record operation_step =
  step_id :: uuid
  step_command :: command
  step_status :: step_status
  step_result :: "operation_result option"
  step_attempts :: "dispatch_attempt list"
  step_created_at :: instant
  step_updated_at :: instant

definition command_step :: "command \<Rightarrow> uuid" where
  "command_step c = (case cmd_step_id c of Some i \<Rightarrow> i | None \<Rightarrow> cmd_id c)"

definition step_new :: "(nat \<Rightarrow> instant) \<Rightarrow> command \<Rightarrow> operation_step" where
  "step_new now c =
     \<lparr>step_id = command_step c, step_command = c, step_status = StepPending, step_result = None,
      step_attempts = [], step_created_at = now 0, step_updated_at = now 1\<rparr>"

definition add_attempt :: "dispatch_attempt \<Rightarrow> instant \<Rightarrow> operation_step \<Rightarrow> operation_step" where
  "add_attempt a now s = s\<lparr>step_attempts := step_attempts s @ [a], step_updated_at := now\<rparr>"

definition step_start :: "instant \<Rightarrow> operation_step \<Rightarrow> operation_step" where
  "step_start now s = s\<lparr>step_status := StepRunning, step_updated_at := now\<rparr>"

definition step_complete ::
  "operation_result \<Rightarrow> instant \<Rightarrow> operation_step \<Rightarrow> domain_error + operation_step" where
  "step_complete r now s =
     (case result_validate r of
        Inl e \<Rightarrow> Inl e
      | Inr _ \<Rightarrow> Inr (s\<lparr>step_status := (if result_is_success r then StepSucceeded else StepFailed),
                        step_result := Some r, step_updated_at := now\<rparr>))"

definition step_compensate :: "instant \<Rightarrow> operation_step \<Rightarrow> operation_step" where
  "step_compensate now s = s\<lparr>step_status := StepCompensated, step_updated_at := now\<rparr>"

text \<open>\<open>iter_mut().find(p)\<close> and the write through the reference that it returns.\<close>

fun update_first :: "('a \<Rightarrow> bool) \<Rightarrow> ('a \<Rightarrow> 'a) \<Rightarrow> 'a list \<Rightarrow> 'a list" where
  "update_first p f [] = []"
| "update_first p f (x # xs) = (if p x then f x # xs else x # update_first p f xs)"

section \<open>The aggregate\<close>

record operation =
  op_id :: uuid
  op_tenant :: uuid
  op_device :: uuid
  op_scope :: idempotency_scope
  op_principal :: principal
  op_target :: resource_ref
  op_command :: command
  op_deadline :: "instant option"
  op_expected_epoch :: nat
  op_status :: operation_status
  op_result :: "operation_result option"
  op_error :: "operation_error option"
  op_steps :: "operation_step list"
  op_created_at :: instant
  op_updated_at :: instant
  op_revision :: nat

text \<open>The domain events of operations and owners; the events of the other aggregates are left out.\<close>

datatype domain_event =
    OperationSubmitted uuid uuid uuid idempotency_scope command
  | OperationStateChanged uuid uuid operation_status operation_status "operation_result option"
      "operation_error option"
  | OwnerChanged uuid uuid uuid nat "uuid option" "nat option" bool

definition operation_new ::
  "int \<Rightarrow> (nat \<Rightarrow> uuid) \<Rightarrow> (nat \<Rightarrow> instant) \<Rightarrow> request_context \<Rightarrow> string \<Rightarrow> uuid \<Rightarrow> resource_ref \<Rightarrow>
   command_payload \<Rightarrow> instant option \<Rightarrow> nat \<Rightarrow> domain_error + operation \<times> domain_event" where
  "operation_new days ids now ctx key device target payload deadline epoch =
     (if device = uuid_nil then Inl DomainInvalidArgument
      else case idempotency_scope_new (ctx_tenant ctx) (principal_id (ctx_principal ctx)) target key of
        Inl e \<Rightarrow> Inl e
      | Inr scope \<Rightarrow>
          (case command_new days (\<lambda>k. ids (k + 2)) (ids 0) (Some (ids 1)) (ctx_tenant ctx) device scope
                  target payload deadline epoch (ctx_principal ctx) (ctx_correlation_id ctx)
                  (ctx_message_id ctx) (ctx_traceparent ctx) (ctx_tracestate ctx) of
             Inl e \<Rightarrow> Inl e
           | Inr c \<Rightarrow> Inr
               (\<lparr>op_id = ids 0, op_tenant = ctx_tenant ctx, op_device = device, op_scope = scope,
                 op_principal = ctx_principal ctx, op_target = target, op_command = c,
                 op_deadline = deadline, op_expected_epoch = epoch, op_status = OpPending,
                 op_result = None, op_error = None, op_steps = [step_new now c],
                 op_created_at = now 2, op_updated_at = now 2, op_revision = 0\<rparr>,
                OperationSubmitted (ids 0) (ctx_tenant ctx) device scope c)))"

definition step_active :: "operation_step \<Rightarrow> bool" where
  "step_active s \<longleftrightarrow> \<not> step_is_terminal (step_status s)"

text \<open>\<open>current_step_mut\<close>: the last step that is not terminal, and the operation after a write to it.\<close>

definition current_step :: "operation \<Rightarrow> operation_step option" where
  "current_step op = find step_active (rev (op_steps op))"

definition put_current_step :: "operation_step \<Rightarrow> operation \<Rightarrow> operation" where
  "put_current_step s op = op\<lparr>op_steps := rev (update_first step_active (\<lambda>_. s) (rev (op_steps op)))\<rparr>"

definition bump :: "instant \<Rightarrow> operation \<Rightarrow> operation" where
  "bump now op = op\<lparr>op_updated_at := now, op_revision := op_revision op + 1\<rparr>"

definition state_changed_event :: "operation_status \<Rightarrow> operation \<Rightarrow> domain_event" where
  "state_changed_event previous op =
     OperationStateChanged (op_id op) (op_tenant op) previous (op_status op) (op_result op) (op_error op)"

definition invalid_transition :: "operation \<Rightarrow> string \<Rightarrow> domain_error" where
  "invalid_transition op target =
     DomainInvalidTransition ''Operation'' (status_debug (op_status op)) target"

definition already_terminal :: "operation \<Rightarrow> domain_error" where
  "already_terminal op = DomainAlreadyTerminal ''Operation'' (status_debug (op_status op))"

type_synonym 'a answer = "operation \<times> (domain_error + 'a)"

definition op_start :: "(nat \<Rightarrow> instant) \<Rightarrow> operation \<Rightarrow> domain_event answer" where
  "op_start now op =
     (case op_status op of
        OpPending \<Rightarrow>
          (let op1 = op\<lparr>op_status := OpRunning\<rparr>;
               op2 = (if op_steps op1 = [] then op1\<lparr>op_steps := [step_new now (op_command op1)]\<rparr> else op1);
               op3 = (case current_step op2 of None \<Rightarrow> op2
                      | Some s \<Rightarrow> put_current_step (step_start (now 2) s) op2);
               op4 = bump (now 3) op3
           in (op4, Inr (state_changed_event OpPending op4)))
      | OpRunning \<Rightarrow> (op, Inl (invalid_transition op ''Running''))
      | _ \<Rightarrow> (op, Inl (already_terminal op)))"

text \<open>\<open>if let Some(step) = self.current_step_mut() { step.complete(\<dots>)?; }\<close>\<close>

definition complete_current_step :: "operation_result \<Rightarrow> instant \<Rightarrow> operation \<Rightarrow> domain_error + operation" where
  "complete_current_step r now op =
     (case current_step op of
        None \<Rightarrow> Inr op
      | Some s \<Rightarrow>
          (case step_complete r now s of Inl e \<Rightarrow> Inl e | Inr s' \<Rightarrow> Inr (put_current_step s' op)))"

definition op_complete :: "(nat \<Rightarrow> instant) \<Rightarrow> operation_result \<Rightarrow> operation \<Rightarrow> domain_event answer" where
  "op_complete now r op =
     (case result_validate r of
        Inl e \<Rightarrow> (op, Inl e)
      | Inr _ \<Rightarrow>
          (case op_status op of
             OpRunning \<Rightarrow>
               (let op1 = op\<lparr>op_status := (if result_is_success r then OpSucceeded else OpFailed),
                            op_result := Some r, op_error := None\<rparr>
                in case complete_current_step r (now 0) op1 of
                     Inl e \<Rightarrow> (op1, Inl e)
                   | Inr op2 \<Rightarrow>
                       (let op3 = bump (now 1) op2 in (op3, Inr (state_changed_event OpRunning op3))))
           | OpCancelled \<Rightarrow> (op, Inl (already_terminal op))
           | OpTimedOut \<Rightarrow> (op, Inl (already_terminal op))
           | _ \<Rightarrow> (op, Inl (invalid_transition op
                        (if result_is_success r then ''Succeeded'' else ''Failed'')))))"

text \<open>\<open>cancel\<close>, \<open>fail\<close> and \<open>timeout\<close> end an operation that is not terminal: the active step fails, the
  revision grows and the change is announced. \<open>fail\<close> sets the status before it checks its arguments.\<close>

definition op_cancel :: "(nat \<Rightarrow> instant) \<Rightarrow> operation \<Rightarrow> domain_event answer" where
  "op_cancel now op =
     (if op_status op = OpPending \<or> op_status op = OpRunning then
        (let op1 = op\<lparr>op_status := OpCancelled, op_error := Some error_cancelled\<rparr>
         in case complete_current_step (ResultFailure ''cancelled'' ''operation cancelled'') (now 0) op1 of
              Inl e \<Rightarrow> (op1, Inl e)
            | Inr op2 \<Rightarrow>
                (let op3 = bump (now 1) op2 in (op3, Inr (state_changed_event (op_status op) op3))))
      else if op_status op = OpSucceeded \<or> op_status op = OpFailed then
        (op, Inl (invalid_transition op ''Cancelled''))
      else (op, Inl (already_terminal op)))"

definition op_fail :: "(nat \<Rightarrow> instant) \<Rightarrow> string \<Rightarrow> string \<Rightarrow> operation \<Rightarrow> domain_event answer" where
  "op_fail now code message op =
     (if op_status op = OpPending \<or> op_status op = OpRunning then
        (let op1 = op\<lparr>op_status := OpFailed\<rparr>;
             r = ResultFailure code message;
             e = error_new code message
         in case result_validate r of
              Inl d \<Rightarrow> (op1, Inl d)
            | Inr _ \<Rightarrow>
                (case error_validate e of
                   Inl d \<Rightarrow> (op1, Inl d)
                 | Inr _ \<Rightarrow>
                     (let op2 = op1\<lparr>op_error := Some e\<rparr>
                      in case complete_current_step r (now 0) op2 of
                           Inl d \<Rightarrow> (op2, Inl d)
                         | Inr op3 \<Rightarrow>
                             (let op4 = bump (now 1) (op3\<lparr>op_result := Some r\<rparr>)
                              in (op4, Inr (state_changed_event (op_status op) op4))))))
      else if op_status op = OpSucceeded \<or> op_status op = OpFailed then
        (op, Inl (invalid_transition op ''Failed''))
      else (op, Inl (already_terminal op)))"

definition op_timeout :: "(nat \<Rightarrow> instant) \<Rightarrow> operation_error \<Rightarrow> operation \<Rightarrow> domain_event answer" where
  "op_timeout now e op =
     (case error_validate e of
        Inl d \<Rightarrow> (op, Inl d)
      | Inr _ \<Rightarrow>
          (if op_status op = OpPending \<or> op_status op = OpRunning then
             (let op1 = op\<lparr>op_status := OpTimedOut, op_error := Some e\<rparr>
              in case complete_current_step (ResultFailure (oe_code e) (oe_message e)) (now 0) op1 of
                   Inl d \<Rightarrow> (op1, Inl d)
                 | Inr op2 \<Rightarrow>
                     (let op3 = bump (now 1) op2 in (op3, Inr (state_changed_event (op_status op) op3))))
           else if op_status op = OpSucceeded \<or> op_status op = OpFailed then
             (op, Inl (invalid_transition op ''TimedOut''))
           else (op, Inl (already_terminal op))))"

definition op_expire :: "(nat \<Rightarrow> instant) \<Rightarrow> operation \<Rightarrow> domain_event answer" where
  "op_expire now op = op_timeout now expired_before_dispatch op"

definition op_is_terminal :: "operation \<Rightarrow> bool" where
  "op_is_terminal op \<longleftrightarrow> status_is_terminal (op_status op)"

definition op_step :: "uuid \<Rightarrow> operation \<Rightarrow> operation_step option" where
  "op_step sid op = find (\<lambda>s. step_id s = sid) (op_steps op)"

definition put_step :: "uuid \<Rightarrow> operation_step \<Rightarrow> operation \<Rightarrow> operation" where
  "put_step sid s op = op\<lparr>op_steps := update_first (\<lambda>t. step_id t = sid) (\<lambda>_. s) (op_steps op)\<rparr>"

definition record_dispatch_attempt ::
  "(nat \<Rightarrow> instant) \<Rightarrow> uuid \<Rightarrow> dispatch_attempt \<Rightarrow> operation \<Rightarrow> unit answer" where
  "record_dispatch_attempt now sid a op =
     (case op_step sid op of
        None \<Rightarrow> (op, Inl (DomainNotFound ''operation step''))
      | Some s \<Rightarrow> (bump (now 1) (put_step sid (add_attempt a (now 0) s) op), Inr ()))"

text \<open>The three methods that mark an attempt differ in the change of the attempt.\<close>

definition mark_dispatch_attempt ::
  "(nat \<Rightarrow> instant) \<Rightarrow> uuid \<Rightarrow> uuid \<Rightarrow> (dispatch_attempt \<Rightarrow> domain_error + dispatch_attempt) \<Rightarrow> operation \<Rightarrow>
   unit answer" where
  "mark_dispatch_attempt now sid aid f op =
     (case op_step sid op of
        None \<Rightarrow> (op, Inl (DomainNotFound ''operation step''))
      | Some s \<Rightarrow>
          (case find (\<lambda>a. attempt_id a = aid) (step_attempts s) of
             None \<Rightarrow> (op, Inl (DomainNotFound ''dispatch attempt''))
           | Some a \<Rightarrow>
               (case f a of
                  Inl e \<Rightarrow> (op, Inl e)
                | Inr a' \<Rightarrow>
                    (bump (now 1)
                       (put_step sid
                          (s\<lparr>step_attempts :=
                               update_first (\<lambda>b. attempt_id b = aid) (\<lambda>_. a') (step_attempts s)\<rparr>) op),
                     Inr ()))))"

definition mark_dispatch_attempt_sent :: "(nat \<Rightarrow> instant) \<Rightarrow> uuid \<Rightarrow> uuid \<Rightarrow> operation \<Rightarrow> unit answer" where
  "mark_dispatch_attempt_sent now sid aid op =
     mark_dispatch_attempt now sid aid (\<lambda>a. Inr (mark_sent (now 0) a)) op"

definition mark_dispatch_attempt_acked :: "(nat \<Rightarrow> instant) \<Rightarrow> uuid \<Rightarrow> uuid \<Rightarrow> operation \<Rightarrow> unit answer" where
  "mark_dispatch_attempt_acked now sid aid op =
     mark_dispatch_attempt now sid aid (\<lambda>a. Inr (mark_acked (now 0) a)) op"

definition mark_dispatch_attempt_nacked ::
  "(nat \<Rightarrow> instant) \<Rightarrow> uuid \<Rightarrow> uuid \<Rightarrow> operation_error \<Rightarrow> operation \<Rightarrow> unit answer" where
  "mark_dispatch_attempt_nacked now sid aid e op =
     mark_dispatch_attempt now sid aid (\<lambda>a. mark_nacked e (now 0) a) op"

section \<open>The state of an operation\<close>

text \<open>\<open>op_consistent\<close>: an operation has one step, for its command, and the status determines the
  state of the step, the result and the error.\<close>

definition step_agrees :: "operation \<Rightarrow> operation_step \<Rightarrow> bool" where
  "step_agrees op s \<longleftrightarrow>
     (case op_status op of
        OpPending \<Rightarrow> step_status s = StepPending \<and> step_result s = None
          \<and> op_result op = None \<and> op_error op = None
      | OpRunning \<Rightarrow> step_status s = StepRunning \<and> step_result s = None
          \<and> op_result op = None \<and> op_error op = None
      | OpSucceeded \<Rightarrow> step_status s = StepSucceeded \<and> step_result s = op_result op
          \<and> op_result op = Some ResultSuccess \<and> op_error op = None
      | OpFailed \<Rightarrow> step_status s = StepFailed \<and> step_result s = op_result op
          \<and> (case op_result op of
                Some (ResultFailure c m) \<Rightarrow> op_error op = None \<or> op_error op = Some (error_new c m)
              | _ \<Rightarrow> False)
      | OpCancelled \<Rightarrow> step_status s = StepFailed \<and> step_result s \<noteq> None
          \<and> op_result op = None \<and> op_error op = Some error_cancelled
      | OpTimedOut \<Rightarrow> step_status s = StepFailed
          \<and> (case op_error op of
                Some e \<Rightarrow> op_result op = None \<and> step_result s = Some (ResultFailure (oe_code e) (oe_message e))
              | None \<Rightarrow> False))"

definition op_consistent :: "operation \<Rightarrow> bool" where
  "op_consistent op \<longleftrightarrow>
     (case op_steps op of
        [s] \<Rightarrow> step_id s = command_step (op_command op) \<and> step_command s = op_command op \<and> step_agrees op s
      | _ \<Rightarrow> False)"

text \<open>What no method changes.\<close>

definition op_identity :: "operation \<Rightarrow> (uuid \<times> uuid \<times> uuid \<times> idempotency_scope \<times> command) \<times> instant option \<times> nat" where
  "op_identity op =
     ((op_id op, op_tenant op, op_device op, op_scope op, op_command op), op_deadline op, op_expected_epoch op)"

text \<open>The calls of the mutating methods, with the event that they return.\<close>

datatype op_call =
    CallStart | CallComplete operation_result | CallCancel | CallFail string string
  | CallTimeout operation_error | CallExpire | CallRecord uuid dispatch_attempt
  | CallSent uuid uuid | CallAcked uuid uuid | CallNacked uuid uuid operation_error

definition with_event :: "domain_event answer \<Rightarrow> domain_event option answer" where
  "with_event a = (fst a, map_sum id Some (snd a))"

definition without_event :: "unit answer \<Rightarrow> domain_event option answer" where
  "without_event a = (fst a, map_sum id (\<lambda>_. None) (snd a))"

fun op_apply :: "(nat \<Rightarrow> instant) \<Rightarrow> op_call \<Rightarrow> operation \<Rightarrow> domain_event option answer" where
  "op_apply now CallStart op = with_event (op_start now op)"
| "op_apply now (CallComplete r) op = with_event (op_complete now r op)"
| "op_apply now CallCancel op = with_event (op_cancel now op)"
| "op_apply now (CallFail c m) op = with_event (op_fail now c m op)"
| "op_apply now (CallTimeout e) op = with_event (op_timeout now e op)"
| "op_apply now CallExpire op = with_event (op_expire now op)"
| "op_apply now (CallRecord sid a) op = without_event (record_dispatch_attempt now sid a op)"
| "op_apply now (CallSent sid aid) op = without_event (mark_dispatch_attempt_sent now sid aid op)"
| "op_apply now (CallAcked sid aid) op = without_event (mark_dispatch_attempt_acked now sid aid op)"
| "op_apply now (CallNacked sid aid e) op = without_event (mark_dispatch_attempt_nacked now sid aid e op)"

lemma op_consistentE:
  assumes "op_consistent op"
  obtains s where "op_steps op = [s]" "step_id s = command_step (op_command op)"
    "step_command s = op_command op" "step_agrees op s"
  using assms by (auto simp: op_consistent_def split: list.splits)

text \<open>A call that changes the status of the operation announces the change; it does so from a
  status that is not terminal. The other calls keep status, result and error.\<close>

definition announces :: "operation \<Rightarrow> domain_event option \<Rightarrow> operation \<Rightarrow> bool" where
  "announces op ev op' \<longleftrightarrow>
     (case ev of
        None \<Rightarrow> op_status op' = op_status op \<and> op_result op' = op_result op \<and> op_error op' = op_error op
      | Some e \<Rightarrow> \<not> op_is_terminal op \<and> op_status op' \<noteq> op_status op \<and> op_status op' \<noteq> OpPending
          \<and> e = state_changed_event (op_status op) op')"

definition op_next :: "operation \<Rightarrow> domain_event option \<Rightarrow> operation \<Rightarrow> bool" where
  "op_next op ev op' \<longleftrightarrow>
     op_consistent op' \<and> op_identity op' = op_identity op \<and> op_revision op' = Suc (op_revision op) \<and>
     announces op ev op'"

lemmas op_defs =
  current_step_def put_current_step_def complete_current_step_def step_complete_def step_active_def
  step_is_terminal_def bump_def step_start_def result_is_success_def

lemma op_start_next:
  assumes "op_consistent op" and "op_start now op = (op', Inr e)"
  shows "op_next op (Some e) op'"
  using assms(1)
proof (rule op_consistentE)
  fix s assume s: "op_steps op = [s]" "step_id s = command_step (op_command op)"
    "step_command s = op_command op" "step_agrees op s"
  then have pend: "op_status op = OpPending"
    using assms(2) by (auto simp: op_start_def split: operation_status.splits)
  then have "step_status s = StepPending" using s(4) by (simp add: step_agrees_def)
  with pend s assms(2) show ?thesis
    by (auto simp: op_start_def op_defs op_next_def op_consistent_def op_identity_def announces_def
        step_agrees_def op_is_terminal_def status_is_terminal_def state_changed_event_def Let_def)
qed

lemmas op_next_defs =
  op_next_def op_consistent_def op_identity_def announces_def op_is_terminal_def status_is_terminal_def
  state_changed_event_def bump_def

lemma complete_current_step_active:
  assumes "op_steps op = [s]" and "step_active s" and "result_validate r = Inr ()"
  shows "complete_current_step r now op =
    Inr (op\<lparr>op_steps := [s\<lparr>step_status := (if r = ResultSuccess then StepSucceeded else StepFailed),
                             step_result := Some r, step_updated_at := now\<rparr>]\<rparr>)"
  using assms by (simp add: op_defs)

lemma step_agrees_active:
  "step_agrees op s \<Longrightarrow> \<not> op_is_terminal op \<Longrightarrow> step_active s"
  by (auto simp: step_agrees_def op_is_terminal_def status_is_terminal_def step_active_def
      step_is_terminal_def split: operation_status.splits)

lemma not_terminal_iff: "\<not> op_is_terminal op \<longleftrightarrow> op_status op = OpPending \<or> op_status op = OpRunning"
  by (cases "op_status op") (simp_all add: op_is_terminal_def status_is_terminal_def)

lemma no_outcome_yet:
  "step_agrees op s \<Longrightarrow> \<not> op_is_terminal op \<Longrightarrow> op_result op = None \<and> op_error op = None"
  by (auto simp: step_agrees_def not_terminal_iff)

lemma op_complete_next:
  assumes "op_consistent op" and "op_complete now r op = (op', Inr e)"
  shows "op_next op (Some e) op'"
  using assms(1)
proof (rule op_consistentE)
  fix s assume s: "op_steps op = [s]" "step_id s = command_step (op_command op)"
    "step_command s = op_command op" "step_agrees op s"
  have st: "op_status op = OpRunning" "result_validate r = Inr ()"
    using assms(2) by (auto simp: op_complete_def Let_def split: operation_status.splits sum.splits)
  then have "step_active s" using step_agrees_active [OF s(4)] by (simp add: not_terminal_iff)
  then show ?thesis
    using s st assms(2)
    by (cases r) (auto simp: op_complete_def complete_current_step_active op_next_defs step_agrees_def
        result_is_success_def Let_def)
qed

lemma error_cancelled_valid: "result_validate (ResultFailure ''cancelled'' ''operation cancelled'') = Inr ()"
  by (simp add: max_operation_error_code_bytes_def max_operation_error_message_bytes_def)

lemma op_cancel_next:
  assumes "op_consistent op" and "op_cancel now op = (op', Inr e)"
  shows "op_next op (Some e) op'"
  using assms(1)
proof (rule op_consistentE)
  fix s assume s: "op_steps op = [s]" "step_id s = command_step (op_command op)"
    "step_command s = op_command op" "step_agrees op s"
  have st: "\<not> op_is_terminal op"
    using assms(2) by (auto simp: op_cancel_def not_terminal_iff Let_def split: if_splits)
  then show ?thesis
    using s assms(2) step_agrees_active [OF s(4) st] no_outcome_yet [OF s(4) st]
    by (auto simp: op_cancel_def complete_current_step_active error_cancelled_valid op_next_defs
        step_agrees_def Let_def simp del: result_validate.simps split: if_splits)
qed

lemma error_validate_result: "error_validate e = result_validate (ResultFailure (oe_code e) (oe_message e))"
  by (simp add: error_validate_def)

lemma op_fail_next:
  assumes "op_consistent op" and "op_fail now c m op = (op', Inr e)"
  shows "op_next op (Some e) op'"
  using assms(1)
proof (rule op_consistentE)
  fix s assume s: "op_steps op = [s]" "step_id s = command_step (op_command op)"
    "step_command s = op_command op" "step_agrees op s"
  have st: "\<not> op_is_terminal op" and v: "result_validate (ResultFailure c m) = Inr ()"
    using assms(2) by (auto simp: op_fail_def not_terminal_iff Let_def split: if_splits sum.splits)
  show ?thesis
    using s v st assms(2) step_agrees_active [OF s(4) st]
    by (auto simp: op_fail_def complete_current_step_active error_validate_result error_new_def op_next_defs
        step_agrees_def Let_def simp del: result_validate.simps split: if_splits)
qed

lemma op_timeout_next:
  assumes "op_consistent op" and "op_timeout now err op = (op', Inr e)"
  shows "op_next op (Some e) op'"
  using assms(1)
proof (rule op_consistentE)
  fix s assume s: "op_steps op = [s]" "step_id s = command_step (op_command op)"
    "step_command s = op_command op" "step_agrees op s"
  have st: "\<not> op_is_terminal op" and v: "error_validate err = Inr ()"
    using assms(2) by (auto simp: op_timeout_def not_terminal_iff Let_def split: if_splits sum.splits)
  show ?thesis
    using s v st assms(2) step_agrees_active [OF s(4) st] no_outcome_yet [OF s(4) st]
    by (auto simp: op_timeout_def complete_current_step_active error_validate_result op_next_defs
        step_agrees_def Let_def simp del: result_validate.simps split: if_splits)
qed

lemma put_step_next:
  assumes "op_consistent op" and "op_step sid op = Some s" and "step_id s' = step_id s"
    and "step_command s' = step_command s" and "step_status s' = step_status s"
    and "step_result s' = step_result s"
  shows "op_next op None (bump t (put_step sid s' op))"
  using assms(1)
proof (rule op_consistentE)
  fix u assume u: "op_steps op = [u]" "step_id u = command_step (op_command op)"
    "step_command u = op_command op" "step_agrees op u"
  have "u = s" "step_id u = sid" using assms(2) u(1) by (auto simp: op_step_def split: if_splits)
  moreover from this have "step_agrees (bump t (put_step sid s' op)) s'"
    using u(4) assms(5,6) by (auto simp: step_agrees_def bump_def put_step_def
        split: operation_status.splits option.splits operation_result.splits)
  ultimately show ?thesis
    using u(1-3) assms(3-6) by (auto simp: op_next_defs put_step_def)
qed

lemma op_record_next:
  assumes "op_consistent op" and "record_dispatch_attempt now sid a op = (op', Inr u)"
  shows "op_next op None op'"
  using assms(2) by (auto simp: record_dispatch_attempt_def add_attempt_def split: option.splits
      intro!: put_step_next [OF assms(1)])

lemma op_mark_next:
  assumes "op_consistent op" and "mark_dispatch_attempt now sid aid f op = (op', Inr u)"
  shows "op_next op None op'"
  using assms(2) by (auto simp: mark_dispatch_attempt_def split: option.splits sum.splits
      intro!: put_step_next [OF assms(1)])

lemma map_sum_Inr_iff: "map_sum f g x = Inr y \<longleftrightarrow> (\<exists>z. x = Inr z \<and> y = g z)"
  by (cases x) auto

lemma op_apply_next:
  assumes "op_consistent op" and "op_apply now c op = (op', Inr ev)"
  shows "op_next op ev op'"
  using assms
  by (cases c)
    (auto simp: with_event_def without_event_def op_expire_def mark_dispatch_attempt_sent_def
      mark_dispatch_attempt_acked_def mark_dispatch_attempt_nacked_def prod_eq_iff
      map_sum_Inr_iff
      intro: op_start_next op_complete_next op_cancel_next op_fail_next op_timeout_next op_record_next
        op_mark_next)

lemma operation_new_consistent:
  assumes "operation_new days ids now ctx key device target payload deadline epoch = Inr (op, e)"
  shows "op_consistent op" "op_status op = OpPending" "op_revision op = 0" "op_id op = ids 0"
    "op_tenant op = ctx_tenant ctx" "op_expected_epoch op = epoch"
    "e = OperationSubmitted (op_id op) (op_tenant op) (op_device op) (op_scope op) (op_command op)"
    "idempotency_scope_new (ctx_tenant ctx) (principal_id (ctx_principal ctx)) target key = Inr (op_scope op)"
    "op_steps op = [step_new now (op_command op)]"
  using assms
  by (auto simp: operation_new_def op_consistent_def step_new_def step_agrees_def split: if_splits sum.splits)

section \<open>Names of a status\<close>

lemma status_roundtrip: "status_from_str (status_display s) = Inr s"
  by (cases s) (simp_all add: status_from_str_def eq_ignore_ascii_case_def to_ascii_lowercase_def
      is_ascii_uppercase_def)

text \<open>\<open>fail\<close> with an argument that is too long leaves the operation failed, without result, error,
  event or a new revision.\<close>

lemma fail_leaves_status:
  assumes "\<not> op_is_terminal op" and "max_operation_error_code_bytes < length code"
  shows "op_fail now code message op = (op\<lparr>op_status := OpFailed\<rparr>, Inl DomainInvalidArgument)"
  using assms by (auto simp: op_fail_def not_terminal_iff)

end
