(* ===== verification/OperationStore.thy ===== *)
theory OperationStore
  imports Operation OwnerStore
begin

text \<open>
  The tables of the unit of work (\<open>cheetah-storage-postgres/src/repository.rs\<close>): operations with
  their optimistic lock, the outbox of events and the records of processed messages, beside the
  tables of nodes and owners (\<open>OwnerStore\<close>). The columns of a row are functions of the aggregate in
  its \<open>data\<close> column, which reads back as it was written.

  A transaction is the list of its writes, applied at its commit. PostgreSQL locks a row from the
  write to the commit, so the lock test at the write and the one at the commit agree; a transaction
  that fails or is dropped has no effect.
\<close>

section \<open>Events\<close>

record event =
  evt_id :: uuid
  evt_tenant :: uuid
  evt_aggregate :: resource_ref
  evt_sequence :: nat
  evt_occurred_at :: instant
  evt_correlation_id :: uuid
  evt_causation_id :: uuid
  evt_traceparent :: "string option"
  evt_tracestate :: "string option"
  evt_source :: uuid
  evt_payload :: domain_event

definition event_new ::
  "uuid \<Rightarrow> instant \<Rightarrow> request_context \<Rightarrow> uuid \<Rightarrow> resource_ref \<Rightarrow> nat \<Rightarrow> domain_event \<Rightarrow> event" where
  "event_new i now ctx tenant aggregate sequence payload =
     \<lparr>evt_id = i, evt_tenant = tenant, evt_aggregate = aggregate, evt_sequence = sequence,
      evt_occurred_at = now, evt_correlation_id = ctx_correlation_id ctx,
      evt_causation_id = ctx_message_id ctx, evt_traceparent = ctx_traceparent ctx,
      evt_tracestate = ctx_tracestate ctx,
      evt_source = (case ctx_node ctx of Some n \<Rightarrow> n | None \<Rightarrow> uuid_nil), evt_payload = payload\<rparr>"

definition operation_resource_ref :: "uuid \<Rightarrow> uuid \<Rightarrow> resource_ref" where
  "operation_resource_ref tenant i = \<lparr>ref_tenant = tenant, ref_kind = OperationKind, ref_id = OperationRes i\<rparr>"

definition device_resource_ref :: "uuid \<Rightarrow> uuid \<Rightarrow> resource_ref" where
  "device_resource_ref tenant i = \<lparr>ref_tenant = tenant, ref_kind = DeviceKind, ref_id = DeviceRes i\<rparr>"

record outbox_entry =
  ob_event :: event
  ob_published :: bool
  ob_attempts :: nat
  ob_failed :: bool
  ob_error :: "string option"
  ob_next_attempt_at :: "instant option"

datatype processed_status =
  ProcessedPending | ProcessedAccepted | ProcessedCompleted | ProcessedFailed | ProcessedDuplicate

record processed_message =
  pm_tenant :: uuid
  pm_message_id :: uuid
  pm_key :: "string option"
  pm_status :: processed_status
  pm_result_payload :: "string option"
  pm_processed_at :: instant
  pm_expires_at :: "instant option"

record database =
  db_operations :: "(uuid, operation) table"
  db_outbox :: "outbox_entry list"
  db_processed :: "(uuid \<times> uuid, processed_message) table"
  db_cluster :: owner_store

definition empty_database :: "owner_store \<Rightarrow> database" where
  "empty_database st = \<lparr>db_operations = [], db_outbox = [], db_processed = [], db_cluster = st\<rparr>"

section \<open>Operations\<close>

definition operation_get :: "database \<Rightarrow> uuid \<Rightarrow> uuid \<Rightarrow> operation option" where
  "operation_get db tenant i =
     (case map_of (db_operations db) i of
        None \<Rightarrow> None
      | Some op \<Rightarrow> if op_tenant op = tenant then Some op else None)"

definition same_key :: "operation \<Rightarrow> idempotency_scope \<Rightarrow> bool" where
  "same_key op scope \<longleftrightarrow>
     op_tenant op = scope_tenant scope \<and> scope_principal (op_scope op) = scope_principal scope \<and>
     scope_key (op_scope op) = scope_key scope"

definition get_by_idempotency :: "database \<Rightarrow> idempotency_scope \<Rightarrow> operation option" where
  "get_by_idempotency db scope =
     map_option snd (find (\<lambda>r. same_key (snd r) scope) (db_operations db))"

text \<open>The unique index on tenant, principal and key.\<close>

definition key_taken :: "operation \<Rightarrow> database \<Rightarrow> bool" where
  "key_taken op db \<longleftrightarrow>
     (\<exists>r \<in> set (db_operations db).
        fst r \<noteq> op_id op \<and> same_key (snd r) (op_scope op\<lparr>scope_tenant := op_tenant op\<rparr>))"

definition put_operation :: "operation \<Rightarrow> database \<Rightarrow> domain_error + database" where
  "put_operation op db =
     (if key_taken op db then Inl DomainInvalidArgument
      else Inr (db\<lparr>db_operations := AList.update (op_id op) op (db_operations db)\<rparr>))"

definition operation_save :: "operation \<Rightarrow> database \<Rightarrow> domain_error + database" where
  "operation_save op db =
     (case map_of (db_operations db) (op_id op) of
        None \<Rightarrow> put_operation op db
      | Some stored \<Rightarrow>
          if op_revision stored + 1 = op_revision op then put_operation op db
          else Inl (DomainConcurrentModification (op_revision op - 1) (op_revision stored)))"

section \<open>The outbox\<close>

definition outbox_append :: "event \<Rightarrow> database \<Rightarrow> domain_error + database" where
  "outbox_append e db =
     (if evt_id e \<in> (\<lambda>x. evt_id (ob_event x)) ` set (db_outbox db) then Inl DomainInvalidArgument
      else Inr (db\<lparr>db_outbox := db_outbox db @
             [\<lparr>ob_event = e, ob_published = False, ob_attempts = 0, ob_failed = False, ob_error = None,
               ob_next_attempt_at = None\<rparr>]\<rparr>))"

section \<open>Transactions\<close>

datatype db_write = SaveOperation operation | AppendEvent event

fun apply_write :: "db_write \<Rightarrow> database \<Rightarrow> domain_error + database" where
  "apply_write (SaveOperation op) db = operation_save op db"
| "apply_write (AppendEvent e) db = outbox_append e db"

fun apply_writes :: "db_write list \<Rightarrow> database \<Rightarrow> domain_error + database" where
  "apply_writes [] db = Inr db"
| "apply_writes (x # xs) db = (case apply_write x db of Inl e \<Rightarrow> Inl e | Inr db' \<Rightarrow> apply_writes xs db')"

end
