(* ===== verification/Process.thy ===== *)
theory Process
  imports Main
begin

text \<open>
  Processes that share a database. A handler of the services is a tree of atomic steps: each step
  reads or writes the shared state, tells an observer what it did and goes on with the rest of the
  handler. A pool of handlers runs under an arbitrary schedule, so that between two steps of one
  handler any steps of the others may happen. A handler that is never scheduled again is one whose
  process died.

  \<open>guarded\<close> is what has to be shown for one handler: whatever the other handlers did before a step,
  as long as they kept the invariant, the step keeps the invariant. The invariant may speak about
  the trace, and the handler knows that the others add no entries in its name.
\<close>

section \<open>Pools of handlers\<close>

datatype ('w, 'o, 'r) prog =
    Return 'r
  | Step "'w \<Rightarrow> 'w \<times> 'o list \<times> ('w, 'o, 'r) prog"

type_synonym 'o trace = "(nat \<times> 'o) list"

record ('w, 'o, 'r) pool =
  pool_world :: 'w
  pool_trace :: "'o trace"
  pool_progs :: "('w, 'o, 'r) prog list"

definition pool_step :: "nat \<Rightarrow> ('w, 'o, 'r) pool \<Rightarrow> ('w, 'o, 'r) pool" where
  "pool_step p s =
     (if p < length (pool_progs s) then
        (case pool_progs s ! p of
           Return r \<Rightarrow> s
         | Step f \<Rightarrow>
             (case f (pool_world s) of
                (w, os, k) \<Rightarrow>
                  \<lparr>pool_world = w, pool_trace = pool_trace s @ map (Pair p) os,
                   pool_progs = (pool_progs s)[p := k]\<rparr>))
      else s)"

definition run_pool :: "nat list \<Rightarrow> ('w, 'o, 'r) pool \<Rightarrow> ('w, 'o, 'r) pool" where
  "run_pool schedule s = foldl (\<lambda>s p. pool_step p s) s schedule"

definition start_pool :: "'w \<Rightarrow> ('w, 'o, 'r) prog list \<Rightarrow> ('w, 'o, 'r) pool" where
  "start_pool w ps = \<lparr>pool_world = w, pool_trace = [], pool_progs = ps\<rparr>"

text \<open>A handler that runs alone.\<close>

primrec run_alone :: "('w, 'o, 'r) prog \<Rightarrow> 'w \<Rightarrow> 'w \<times> 'o list \<times> 'r" where
  "run_alone (Return r) w = (w, [], r)"
| "run_alone (Step f) w =
     (case map_prod id (map_prod id run_alone) (f w) of
        (w', os, k) \<Rightarrow> (case k w' of (w'', os', r) \<Rightarrow> (w'', os @ os', r)))"

lemma run_pool_simps [simp]:
  "run_pool [] s = s"
  "run_pool (p # ps) s = run_pool ps (pool_step p s)"
  by (simp_all add: run_pool_def)

section \<open>Invariants of pools\<close>

definition by_others :: "nat \<Rightarrow> 'o trace \<Rightarrow> bool" where
  "by_others p es \<longleftrightarrow> (\<forall>e \<in> set es. fst e \<noteq> p)"

inductive guarded ::
  "('w \<Rightarrow> 'o trace \<Rightarrow> bool) \<Rightarrow> nat \<Rightarrow> 'o trace \<Rightarrow> ('w, 'o, 'r) prog \<Rightarrow> bool"
  for J p where
    guarded_Return: "guarded J p tr (Return r)"
  | guarded_Step:
      "(\<And>es w w' os k. by_others p es \<Longrightarrow> J w (tr @ es) \<Longrightarrow> f w = (w', os, k) \<Longrightarrow>
          J w' (tr @ es @ map (Pair p) os) \<and> guarded J p (tr @ es @ map (Pair p) os) k) \<Longrightarrow>
       guarded J p tr (Step f)"

inductive_cases guarded_StepE: "guarded J p tr (Step f)"

lemma guarded_StepD:
  assumes "guarded J p tr (Step f)" and "by_others p es" and "J w (tr @ es)" and "f w = (w', os, k)"
  shows "J w' (tr @ es @ map (Pair p) os) \<and> guarded J p (tr @ es @ map (Pair p) os) k"
  using assms(1)
proof (rule guarded_StepE)
  assume "\<And>es w w' os k. by_others p es \<Longrightarrow> J w (tr @ es) \<Longrightarrow> f w = (w', os, k) \<Longrightarrow>
      J w' (tr @ es @ map (Pair p) os) \<and> guarded J p (tr @ es @ map (Pair p) os) k"
  from this [OF assms(2-4)] show ?thesis .
qed

lemma by_others_append [simp]: "by_others p (es @ fs) \<longleftrightarrow> by_others p es \<and> by_others p fs"
  by (auto simp: by_others_def)

lemma by_others_map_Pair [simp]: "by_others p (map (Pair q) os) \<longleftrightarrow> q \<noteq> p \<or> os = []"
  by (cases os) (auto simp: by_others_def)

lemma guarded_mono:
  assumes "guarded J p tr k" and "by_others p es"
  shows "guarded J p (tr @ es) k"
proof (cases k)
  case (Return r)
  then show ?thesis by (simp add: guarded_Return)
next
  case (Step f)
  note k = this
  show ?thesis unfolding k
  proof (rule guarded_Step)
    fix fs w w' os k'
    assume h: "by_others p fs" "J w ((tr @ es) @ fs)" "f w = (w', os, k')"
    have "J w' (tr @ (es @ fs) @ map (Pair p) os) \<and> guarded J p (tr @ (es @ fs) @ map (Pair p) os) k'"
      using guarded_StepD [OF assms(1) [unfolded k], of "es @ fs" w w' os k'] assms(2) h by simp
    then show "J w' ((tr @ es) @ fs @ map (Pair p) os) \<and>
        guarded J p ((tr @ es) @ fs @ map (Pair p) os) k'"
      by simp
  qed
qed

definition pool_ok :: "('w \<Rightarrow> 'o trace \<Rightarrow> bool) \<Rightarrow> ('w, 'o, 'r) pool \<Rightarrow> bool" where
  "pool_ok J s \<longleftrightarrow>
     J (pool_world s) (pool_trace s) \<and>
     (\<forall>p < length (pool_progs s). guarded J p (pool_trace s) (pool_progs s ! p))"

lemma pool_step_ok:
  assumes "pool_ok J s"
  shows "pool_ok J (pool_step p s)"
proof (cases "p < length (pool_progs s)")
  case True
  note p = this
  have g: "guarded J q (pool_trace s) (pool_progs s ! q)" if "q < length (pool_progs s)" for q
    using assms that by (simp add: pool_ok_def)
  show ?thesis
  proof (cases "pool_progs s ! p")
    case (Return r)
    then show ?thesis using assms by (simp add: pool_step_def)
  next
    case (Step f)
    obtain w os k where f: "f (pool_world s) = (w, os, k)" by (metis prod_cases3)
    have new: "J w (pool_trace s @ map (Pair p) os)" "guarded J p (pool_trace s @ map (Pair p) os) k"
      using guarded_StepD [OF g [OF p, unfolded Step], of "[]" "pool_world s" w os k] f assms
      by (auto simp: pool_ok_def by_others_def)
    have "guarded J q (pool_trace s @ map (Pair p) os) ((pool_progs s)[p := k] ! q)"
      if "q < length (pool_progs s)" for q
      using new(2) g [OF that] that by (cases "q = p") (auto intro!: guarded_mono)
    then show ?thesis
      using p Step f new(1) by (simp add: pool_step_def pool_ok_def)
  qed
qed (use assms in \<open>simp add: pool_step_def\<close>)

lemma run_pool_ok: "pool_ok J s \<Longrightarrow> pool_ok J (run_pool schedule s)"
  by (induction schedule arbitrary: s) (simp_all add: pool_step_ok)

lemma run_pool_invariant:
  assumes "J w []" and "\<And>p. p < length ps \<Longrightarrow> guarded J p [] (ps ! p)"
  shows "J (pool_world (run_pool schedule (start_pool w ps))) (pool_trace (run_pool schedule (start_pool w ps)))"
  using run_pool_ok [of J "start_pool w ps" schedule] assms by (simp add: pool_ok_def start_pool_def)

text \<open>The results of a handler may be renamed.\<close>

lemma guarded_map_prog:
  assumes "guarded J p tr k"
  shows "guarded J p tr (map_prog id g k)"
  using assms
proof (induction rule: guarded.induct)
  case (guarded_Return tr r)
  then show ?case by (simp add: guarded.guarded_Return)
next
  case (guarded_Step tr f)
  show ?case
    unfolding prog.map
  proof (rule guarded.guarded_Step)
    fix es w w' os k
    assume h: "by_others p es" "J w (tr @ es)"
      and f: "((\<lambda>x. map_prod id (map_prod (map id) (map_prog id g)) x) \<circ> f) w = (w', os, k)"
    obtain k' where k': "f w = (w', os, k')" "k = map_prog id g k'"
      using f by (cases "f w") (auto simp: map_prod_def)
    show "J w' (tr @ es @ map (Pair p) os) \<and> guarded J p (tr @ es @ map (Pair p) os) k"
      using guarded_Step [OF h k'(1)] k'(2) by (simp add: id_def)
  qed
qed

section \<open>The contract between handlers and pools\<close>

text \<open>Handlers that keep an invariant of the shared state, each on its own, keep it together.\<close>

locale shared_pool =
  fixes J :: "'w \<Rightarrow> 'o trace \<Rightarrow> bool" and start :: 'w and handlers :: "('w, 'o, 'r) prog set"
  assumes initially: "J start []"
    and keeps: "k \<in> handlers \<Longrightarrow> guarded J p [] k"
begin

lemma pool_invariant:
  assumes "set ps \<subseteq> handlers"
  shows "J (pool_world (run_pool schedule (start_pool start ps))) (pool_trace (run_pool schedule (start_pool start ps)))"
proof (rule run_pool_invariant [where J = J, OF initially])
  fix p assume "p < length ps"
  then show "guarded J p [] (ps ! p)" using assms by (intro keeps) (auto dest: nth_mem)
qed

end

end
