(* ===== verification/OperationService.thy ===== *)
theory OperationService
  imports OperationStore Process
begin

text \<open>
  The services that drive operations: \<open>OperationService\<close>
  (\<open>cheetah-signal-application/src/operation_service.rs\<close>) and \<open>CommandDispatcher\<close>
  (\<open>command_dispatcher.rs\<close>). A handler is a \<^typ>\<open>('w, 'o, 'r) prog\<close>: a read of the database is one
  step, a transaction with its writes is one step, and the answer of the command bus is one step.
  The observer sees the operations that are committed and the commands that the bus accepts.

  \<open>env_now\<close> and \<open>env_ids\<close> are the readings of the clock and the generated identifiers, numbered by
  their place in the handler. The answers of the owner resolver and of the command bus are
  arguments of the dispatcher.
\<close>

record call_env =
  env_days :: int
  env_now :: "nat \<Rightarrow> instant"
  env_ids :: "nat \<Rightarrow> uuid"
  env_context :: request_context

datatype observation = Committed operation | Accepted operation

type_synonym 'r process = "(database, observation, 'r) prog"
type_synonym handler = "(domain_error + operation) process"

definition read_db :: "(database \<Rightarrow> 'r process) \<Rightarrow> 'r process" where
  "read_db k = Step (\<lambda>db. (db, [], k db))"

fun saved :: "db_write list \<Rightarrow> operation list" where
  "saved [] = []"
| "saved (SaveOperation op # ws) = op # saved ws"
| "saved (AppendEvent e # ws) = saved ws"

definition commit :: "db_write list \<Rightarrow> (domain_error + unit \<Rightarrow> handler) \<Rightarrow> handler" where
  "commit ws k =
     Step (\<lambda>db. case apply_writes ws db of
                 Inl e \<Rightarrow> (db, [], k (Inl e))
               | Inr db' \<Rightarrow> (db', map Committed (saved ws), k (Inr ())))"

text \<open>\<open>wrap_event\<close> of an event of an operation, at its revision.\<close>

definition wrap_event :: "uuid \<Rightarrow> instant \<Rightarrow> request_context \<Rightarrow> uuid \<Rightarrow> operation \<Rightarrow> domain_event \<Rightarrow> event" where
  "wrap_event i now ctx tenant op e =
     event_new i now ctx tenant (operation_resource_ref tenant (op_id op)) (op_revision op) e"

section \<open>The operation service\<close>

definition submit_operation ::
  "call_env \<Rightarrow> string \<Rightarrow> resource_ref \<Rightarrow> uuid \<Rightarrow> command_payload \<Rightarrow> instant option \<Rightarrow> nat \<Rightarrow> handler" where
  "submit_operation E key target device payload deadline epoch =
     (let ctx = env_context E; tenant = ctx_tenant ctx
      in if ref_tenant target \<noteq> tenant then Return (Inl DomainInvalidArgument)
         else case idempotency_scope_new tenant (principal_id (ctx_principal ctx)) target key of
           Inl e \<Rightarrow> Return (Inl e)
         | Inr scope \<Rightarrow>
             read_db (\<lambda>db.
               case get_by_idempotency db scope of
                 Some existing \<Rightarrow> Return (Inr existing)
               | None \<Rightarrow>
                   (case operation_new (env_days E) (env_ids E) (env_now E) ctx key device target payload
                           deadline epoch of
                      Inl e \<Rightarrow> Return (Inl e)
                    | Inr (op, ev) \<Rightarrow>
                        commit [SaveOperation op,
                                AppendEvent (wrap_event (env_ids E 4) (env_now E 3) ctx tenant op ev)]
                          (\<lambda>r. Return (map_sum id (\<lambda>_. op) r)))))"

definition get_operation :: "uuid \<Rightarrow> uuid \<Rightarrow> handler" where
  "get_operation tenant i =
     read_db (\<lambda>db. case operation_get db tenant i of
       None \<Rightarrow> Return (Inl (DomainNotFound ''operation''))
     | Some op \<Rightarrow> Return (Inr op))"

text \<open>The three methods that follow load the operation, call one method of the aggregate, save it and
  append the event.\<close>

definition update_operation ::
  "call_env \<Rightarrow> uuid \<Rightarrow> ((nat \<Rightarrow> instant) \<Rightarrow> operation \<Rightarrow> domain_event answer) \<Rightarrow> handler" where
  "update_operation E i f =
     (let ctx = env_context E; tenant = ctx_tenant ctx
      in read_db (\<lambda>db. case operation_get db tenant i of
           None \<Rightarrow> Return (Inl (DomainNotFound ''operation''))
         | Some op \<Rightarrow>
             (case f (env_now E) op of
                (_, Inl e) \<Rightarrow> Return (Inl e)
              | (op', Inr ev) \<Rightarrow>
                  commit [SaveOperation op',
                          AppendEvent (wrap_event (env_ids E 0) (env_now E 2) ctx tenant op' ev)]
                    (\<lambda>r. Return (map_sum id (\<lambda>_. op') r)))))"

definition cancel_operation :: "call_env \<Rightarrow> uuid \<Rightarrow> handler" where
  "cancel_operation E i = update_operation E i op_cancel"

definition complete_operation :: "call_env \<Rightarrow> uuid \<Rightarrow> operation_result \<Rightarrow> handler" where
  "complete_operation E i r = update_operation E i (\<lambda>now. op_complete now r)"

definition timeout_operation :: "call_env \<Rightarrow> uuid \<Rightarrow> operation_error \<Rightarrow> handler" where
  "timeout_operation E i err = update_operation E i (\<lambda>now. op_timeout now err)"

section \<open>The command dispatcher\<close>

definition has_sent_or_acked_attempt :: "operation \<Rightarrow> uuid \<Rightarrow> bool" where
  "has_sent_or_acked_attempt op sid =
     (case op_step sid op of
        None \<Rightarrow> False
      | Some s \<Rightarrow> list_ex (\<lambda>a. attempt_status a = AttemptSent \<or> attempt_status a = AttemptAcked) (step_attempts s))"

definition find_pending_attempt_id :: "operation \<Rightarrow> uuid \<Rightarrow> uuid option" where
  "find_pending_attempt_id op sid =
     (case op_step sid op of
        None \<Rightarrow> None
      | Some s \<Rightarrow>
          map_option attempt_id (find (\<lambda>a. attempt_status a = AttemptPending) (rev (step_attempts s))))"

definition save_operation :: "operation \<Rightarrow> (unit \<Rightarrow> handler) \<Rightarrow> handler" where
  "save_operation op k =
     commit [SaveOperation op] (\<lambda>r. case r of Inl e \<Rightarrow> Return (Inl e) | Inr _ \<Rightarrow> k ())"

text \<open>The dispatcher's own \<open>complete_operation\<close>, for a failed attempt.\<close>

definition dispatch_complete :: "call_env \<Rightarrow> uuid \<Rightarrow> string \<Rightarrow> string \<Rightarrow> operation \<Rightarrow> handler" where
  "dispatch_complete E tenant code message op =
     (case op_complete (\<lambda>k. env_now E (k + 9)) (ResultFailure code message) op of
        (_, Inl e) \<Rightarrow> Return (Inl e)
      | (op', Inr ev) \<Rightarrow>
          commit [SaveOperation op',
                  AppendEvent (wrap_event (env_ids E 2) (env_now E 11) (env_context E) tenant op' ev)]
            (\<lambda>r. Return (map_sum id (\<lambda>_. op') r)))"

definition dispatch_nacked :: "call_env \<Rightarrow> uuid \<Rightarrow> uuid \<Rightarrow> uuid \<Rightarrow> string \<Rightarrow> string \<Rightarrow> operation \<Rightarrow> handler" where
  "dispatch_nacked E tenant sid aid code message op =
     (case mark_dispatch_attempt_nacked (\<lambda>k. env_now E (k + 7)) sid aid (error_new code message) op of
        (_, Inl e) \<Rightarrow> Return (Inl e)
      | (op', Inr _) \<Rightarrow> save_operation op' (\<lambda>_. dispatch_complete E tenant code message op'))"

definition dispatch_sent :: "call_env \<Rightarrow> uuid \<Rightarrow> uuid \<Rightarrow> operation \<Rightarrow> handler" where
  "dispatch_sent E sid aid op =
     (case mark_dispatch_attempt_sent (\<lambda>k. env_now E (k + 7)) sid aid op of
        (_, Inl e) \<Rightarrow> Return (Inl e)
      | (op', Inr _) \<Rightarrow> save_operation op' (\<lambda>_. Return (Inr op')))"

definition dispatch_send ::
  "call_env \<Rightarrow> uuid \<Rightarrow> uuid \<Rightarrow> uuid \<Rightarrow> string + owner_info option \<Rightarrow> string + unit \<Rightarrow> operation \<Rightarrow> handler" where
  "dispatch_send E tenant sid aid resolved answer op =
     (case resolved of
        Inl text \<Rightarrow> dispatch_nacked E tenant sid aid ''RESOLVE_ERROR'' text op
      | Inr None \<Rightarrow> dispatch_nacked E tenant sid aid ''NO_OWNER'' ''no owner resolved'' op
      | Inr (Some owner) \<Rightarrow>
          if owner_epoch owner = op_expected_epoch op then
            (case answer of
               Inr _ \<Rightarrow> Step (\<lambda>db. (db, [Accepted op], dispatch_sent E sid aid op))
             | Inl text \<Rightarrow> dispatch_nacked E tenant sid aid ''COMMAND_BUS'' text op)
          else dispatch_nacked E tenant sid aid ''STALE_OWNER'' ''stale owner epoch'' op)"

definition dispatch_record ::
  "call_env \<Rightarrow> uuid \<Rightarrow> uuid \<Rightarrow> string + owner_info option \<Rightarrow> string + unit \<Rightarrow> operation \<Rightarrow> handler" where
  "dispatch_record E tenant sid resolved answer op =
     (case find_pending_attempt_id op sid of
        Some aid \<Rightarrow> save_operation op (\<lambda>_. dispatch_send E tenant sid aid resolved answer op)
      | None \<Rightarrow>
          (case record_dispatch_attempt (\<lambda>k. env_now E (k + 5)) sid (attempt_new (env_ids E 1)) op of
             (_, Inl e) \<Rightarrow> Return (Inl e)
           | (op', Inr _) \<Rightarrow>
               save_operation op' (\<lambda>_. dispatch_send E tenant sid (env_ids E 1) resolved answer op')))"

definition dispatch ::
  "call_env \<Rightarrow> uuid \<Rightarrow> uuid \<Rightarrow> string + owner_info option \<Rightarrow> string + unit \<Rightarrow> handler" where
  "dispatch E tenant i resolved answer =
     read_db (\<lambda>db. case operation_get db tenant i of
       None \<Rightarrow> Return (Inl (DomainNotFound ''operation''))
     | Some op \<Rightarrow>
         (let sid = command_step (op_command op)
          in if op_is_terminal op then Return (Inr op)
             else if op_status op = OpRunning \<and> has_sent_or_acked_attempt op sid then Return (Inr op)
             else if op_status op = OpPending then
               (case op_start (env_now E) op of
                  (_, Inl e) \<Rightarrow> Return (Inl e)
                | (op', Inr ev) \<Rightarrow>
                    commit [SaveOperation op',
                            AppendEvent (wrap_event (env_ids E 0) (env_now E 4) (env_context E) tenant op' ev)]
                      (\<lambda>r. case r of
                         Inl e \<Rightarrow> Return (Inl e)
                       | Inr _ \<Rightarrow> dispatch_record E tenant sid resolved answer op'))
             else dispatch_record E tenant sid resolved answer op))"

end
