(* ===== verification/OperationHistory.thy ===== *)
theory OperationHistory
  imports OperationService
begin

text \<open>
  The history of operations under concurrent handlers. The versions of an operation are the
  aggregates that were committed, with the process that committed them. The invariant
  \<open>history_ok\<close> says that

  \<^item> the stored operation is the last version, and each version is one method call after the one
    before it, so that no update is lost;
  \<^item> the events of the operation in the outbox are its submission and its changes of status;
  \<^item> a version with a pending dispatch attempt is followed by a version of the same process or by a
    terminal one, and the command of an operation is accepted by the bus at most once.
\<close>

section \<open>Versions, events and sent commands\<close>

fun versions :: "uuid \<Rightarrow> observation trace \<Rightarrow> (nat \<times> operation) list" where
  "versions i [] = []"
| "versions i ((p, Committed v) # tr) = (if op_id v = i then (p, v) # versions i tr else versions i tr)"
| "versions i ((p, Accepted v) # tr) = versions i tr"

fun accepted :: "uuid \<Rightarrow> observation trace \<Rightarrow> (nat \<times> operation) list" where
  "accepted i [] = []"
| "accepted i ((p, Committed v) # tr) = accepted i tr"
| "accepted i ((p, Accepted v) # tr) = (if op_id v = i then (p, v) # accepted i tr else accepted i tr)"

definition op_attempts :: "operation \<Rightarrow> dispatch_attempt list" where
  "op_attempts op = concat (map step_attempts (op_steps op))"

definition has_pending :: "operation \<Rightarrow> bool" where
  "has_pending op \<longleftrightarrow> list_ex (\<lambda>a. attempt_status a = AttemptPending) (op_attempts op)"

definition has_sent :: "operation \<Rightarrow> bool" where
  "has_sent op \<longleftrightarrow> list_ex (\<lambda>a. attempt_status a = AttemptSent \<or> attempt_status a = AttemptAcked) (op_attempts op)"

definition op_events :: "uuid \<Rightarrow> database \<Rightarrow> (nat \<times> domain_event) list" where
  "op_events i db =
     map (\<lambda>x. (evt_sequence (ob_event x), evt_payload (ob_event x)))
       (filter (\<lambda>x. ref_id (evt_aggregate (ob_event x)) = OperationRes i) (db_outbox db))"

text \<open>The events that announce a list of versions.\<close>

fun changes :: "operation option \<Rightarrow> operation list \<Rightarrow> (nat \<times> domain_event) list" where
  "changes u [] = []"
| "changes None (v # vs) =
     (op_revision v, OperationSubmitted (op_id v) (op_tenant v) (op_device v) (op_scope v) (op_command v))
       # changes (Some v) vs"
| "changes (Some u) (v # vs) =
     (if op_status u = op_status v then [] else [(op_revision v, state_changed_event (op_status u) v)])
       @ changes (Some v) vs"

text \<open>What a reader of the events makes of them: the status, result and error, if the events are a
  submission followed by changes that start where the one before ended and never leave a terminal
  status, with increasing sequence numbers.\<close>

definition replay_event ::
  "nat \<times> domain_event \<Rightarrow> (nat \<times> operation_status \<times> operation_result option \<times> operation_error option) option \<Rightarrow>
   (nat \<times> operation_status \<times> operation_result option \<times> operation_error option) option" where
  "replay_event e state =
     (case (state, e) of
        (Some (n, st, _, _), (m, OperationStateChanged _ _ previous status r err)) \<Rightarrow>
          if n < m \<and> st = previous \<and> \<not> status_is_terminal st then Some (m, status, r, err) else None
      | _ \<Rightarrow> None)"

fun replay :: "(nat \<times> domain_event) list \<Rightarrow>
    (nat \<times> operation_status \<times> operation_result option \<times> operation_error option) option" where
  "replay ((n, OperationSubmitted i t d s c) # es) = fold replay_event es (Some (n, OpPending, None, None))"
| "replay _ = None"

section \<open>The invariant\<close>

definition linked :: "nat \<times> operation \<Rightarrow> nat \<times> operation \<Rightarrow> bool" where
  "linked a b \<longleftrightarrow>
     \<not> op_is_terminal (snd a) \<and> (\<exists>ev. op_next (snd a) ev (snd b)) \<and>
     (has_pending (snd a) \<longrightarrow> fst b = fst a \<or> op_is_terminal (snd b)) \<and>
     (has_sent (snd a) \<longrightarrow> has_sent (snd b) \<or> op_is_terminal (snd b)) \<and>
     (op_status (snd b) = OpPending \<longrightarrow> op_attempts (snd b) = [])"

definition fresh :: "operation \<Rightarrow> bool" where
  "fresh v \<longleftrightarrow> op_consistent v \<and> op_status v = OpPending \<and> op_revision v = 0 \<and> op_attempts v = []"

definition chain_ok :: "(nat \<times> operation) list \<Rightarrow> bool" where
  "chain_ok V \<longleftrightarrow> (V = [] \<or> fresh (snd (hd V))) \<and> successively linked V"

text \<open>Accepted commands: at most one, of a running version with a pending attempt that its process
  committed itself; the versions after it are terminal or have a sent attempt.\<close>

definition accepted_ok :: "(nat \<times> operation) list \<Rightarrow> (nat \<times> operation) list \<Rightarrow> bool" where
  "accepted_ok V A \<longleftrightarrow>
     A = [] \<or>
     (\<exists>a V1 V2. A = [a] \<and> V = V1 @ a # V2 \<and> \<not> op_is_terminal (snd a) \<and> has_pending (snd a) \<and>
        \<not> has_sent (snd a) \<and> (\<forall>b \<in> set V2. has_sent (snd b) \<or> op_is_terminal (snd b)))"

definition stored_ok :: "operation option \<Rightarrow> (nat \<times> operation) list \<Rightarrow> bool" where
  "stored_ok stored V \<longleftrightarrow> (if V = [] then stored = None else stored = Some (snd (last V)))"

definition history_ok :: "database \<Rightarrow> observation trace \<Rightarrow> bool" where
  "history_ok db tr \<longleftrightarrow>
     wf_table (db_operations db) \<and>
     (\<forall>i. chain_ok (versions i tr) \<and> stored_ok (map_of (db_operations db) i) (versions i tr) \<and>
          accepted_ok (versions i tr) (accepted i tr) \<and>
          op_events i db = changes None (map snd (versions i tr)))"

lemma history_okD:
  assumes "history_ok db tr"
  shows "chain_ok (versions i tr)" "stored_ok (map_of (db_operations db) i) (versions i tr)"
    "accepted_ok (versions i tr) (accepted i tr)" "op_events i db = changes None (map snd (versions i tr))"
  using assms by (auto simp: history_ok_def)

lemma versions_append [simp]: "versions i (tr @ es) = versions i tr @ versions i es"
  by (induction i tr rule: versions.induct) auto

lemma accepted_append [simp]: "accepted i (tr @ es) = accepted i tr @ accepted i es"
  by (induction i tr rule: accepted.induct) auto

lemma in_versions: "(p, v) \<in> set (versions i tr) \<longleftrightarrow> (p, Committed v) \<in> set tr \<and> op_id v = i"
  by (induction i tr rule: versions.induct) auto

lemma in_accepted: "(p, v) \<in> set (accepted i tr) \<longleftrightarrow> (p, Accepted v) \<in> set tr \<and> op_id v = i"
  by (induction i tr rule: accepted.induct) auto

subsection \<open>Chains\<close>

lemma successively_Suc:
  assumes "successively (\<lambda>a b. f b = Suc (f a)) xs" and "xs \<noteq> []"
  shows "map f xs = [f (hd xs) ..< f (hd xs) + length xs]"
  using assms
proof (induction xs)
  case (Cons x xs)
  show ?case
  proof (cases xs)
    case (Cons y ys)
    then have "map f xs = [Suc (f x) ..< Suc (f x) + length xs]"
      using Cons.IH Cons.prems by (simp add: Cons)
    moreover have "[f x ..< f x + Suc (length xs)] = f x # [Suc (f x) ..< Suc (f x) + length xs]"
      by (simp add: upt_conv_Cons del: upt_Suc)
    ultimately show ?thesis by (simp del: upt_Suc)
  qed simp
qed simp

lemma linked_revision: "linked a b \<Longrightarrow> op_revision (snd b) = Suc (op_revision (snd a))"
  by (auto simp: linked_def op_next_def)

lemma chain_revisions:
  assumes "chain_ok V"
  shows "map (\<lambda>a. op_revision (snd a)) V = [0 ..< length V]"
proof (cases "V = []")
  case False
  then have "op_revision (snd (hd V)) = 0" using assms by (auto simp: chain_ok_def fresh_def)
  moreover have "successively (\<lambda>a b. op_revision (snd b) = Suc (op_revision (snd a))) V"
    using assms by (auto simp: chain_ok_def intro: successively_mono linked_revision)
  ultimately show ?thesis using successively_Suc [of "\<lambda>a. op_revision (snd a)" V] False by simp
qed simp

lemma chain_unique:
  assumes "chain_ok V" and "a \<in> set V" and "b \<in> set V" and "op_revision (snd a) = op_revision (snd b)"
  shows "a = b"
proof -
  have "distinct (map (\<lambda>a. op_revision (snd a)) V)" by (simp add: chain_revisions [OF assms(1)])
  then show ?thesis using assms(2-4) by (auto simp: distinct_map inj_on_def)
qed

lemma chain_last_revision:
  assumes "chain_ok V" and "a \<in> set V"
  shows "op_revision (snd a) \<le> op_revision (snd (last V))"
proof -
  let ?f = "\<lambda>a. op_revision (snd a)"
  obtain k where k: "k < length V" "V ! k = a" using assms(2) by (auto simp: in_set_conv_nth)
  have "?f (V ! j) = j" if "j < length V" for j
    using arg_cong [OF chain_revisions [OF assms(1)], of "\<lambda>xs. xs ! j"] that by simp
  from this [of k] this [of "length V - 1"] show ?thesis using k by (cases "V = []") (auto simp: last_conv_nth)
qed

lemma chain_snoc:
  "chain_ok (V @ [b]) \<longleftrightarrow> (if V = [] then fresh (snd b) else chain_ok V \<and> linked (last V) b)"
  by (auto simp: chain_ok_def successively_append_iff)

lemma chain_single [simp]: "chain_ok [b] \<longleftrightarrow> fresh (snd b)"
  by (simp add: chain_ok_def)

lemma chain_consistent:
  assumes "chain_ok V" and "a \<in> set V"
  shows "op_consistent (snd a)" and "op_status (snd a) = OpPending \<Longrightarrow> op_attempts (snd a) = []"
  using assms
proof (induction V rule: rev_induct)
  case (snoc b V)
  case 1
  with snoc show ?case
    by (cases "V = []") (auto simp: chain_snoc fresh_def linked_def op_next_def)
next
  case (snoc b V)
  case 2
  with snoc show ?case
    by (cases "V = []") (auto simp: chain_snoc fresh_def linked_def)
qed auto

text \<open>Only the last version can be terminal.\<close>

lemma chain_split:
  assumes "chain_ok (V1 @ a # b # V2)"
  shows "linked a b"
  using assms by (auto simp: chain_ok_def successively_append_iff)

subsection \<open>Commits\<close>

lemma operation_saveD:
  assumes "operation_save v db = Inr db'"
  shows "db' = db\<lparr>db_operations := AList.update (op_id v) v (db_operations db)\<rparr>"
    "map_of (db_operations db) (op_id v) = Some s \<Longrightarrow> op_revision s + 1 = op_revision v"
  using assms
  by (auto simp: operation_save_def put_operation_def split: option.splits if_splits)

lemma outbox_appendD:
  assumes "outbox_append e db = Inr db'"
  shows "db_operations db' = db_operations db"
    "op_events j db' = op_events j db @
       (if ref_id (evt_aggregate e) = OperationRes j then [(evt_sequence e, evt_payload e)] else [])"
  using assms by (auto simp: outbox_append_def op_events_def split: if_splits)

text \<open>The writes of a change: the operation, and the event if there is one.\<close>

definition change_writes ::
  "uuid \<Rightarrow> instant \<Rightarrow> request_context \<Rightarrow> uuid \<Rightarrow> operation \<Rightarrow> domain_event option \<Rightarrow> db_write list" where
  "change_writes i now ctx tenant v ev =
     SaveOperation v # (case ev of None \<Rightarrow> [] | Some e \<Rightarrow> [AppendEvent (wrap_event i now ctx tenant v e)])"

lemma saved_change_writes [simp]: "saved (change_writes i now ctx tenant v ev) = [v]"
  by (cases ev) (simp_all add: change_writes_def)

lemma change_writesD:
  assumes "apply_writes (change_writes i now ctx tenant v ev) db = Inr db'"
  shows "db_operations db' = AList.update (op_id v) v (db_operations db)"
    "map_of (db_operations db) (op_id v) = Some s \<Longrightarrow> op_revision s + 1 = op_revision v"
    "op_events j db' = op_events j db @
       (case ev of None \<Rightarrow> [] | Some e \<Rightarrow> if j = op_id v then [(op_revision v, e)] else [])"
proof -
  obtain db1 where db1: "operation_save v db = Inr db1"
    using assms by (auto simp: change_writes_def split: sum.splits)
  note save = operation_saveD [OF db1]
  have ev: "op_events j db1 = op_events j db" for j using save(1) by (simp add: op_events_def)
  have "db_operations db' = db_operations db1 \<and>
      op_events j db' = op_events j db @
       (case ev of None \<Rightarrow> [] | Some e \<Rightarrow> if j = op_id v then [(op_revision v, e)] else [])"
  proof (cases ev)
    case None
    then show ?thesis using assms db1 ev by (simp add: change_writes_def)
  next
    case (Some e)
    then have "outbox_append (wrap_event i now ctx tenant v e) db1 = Inr db'"
      using assms db1 by (auto simp: change_writes_def split: sum.splits)
    from outbox_appendD [OF this] show ?thesis
      using Some ev by (auto simp: wrap_event_def event_new_def operation_resource_ref_def)
  qed
  then show "db_operations db' = AList.update (op_id v) v (db_operations db)"
      "op_events j db' = op_events j db @
       (case ev of None \<Rightarrow> [] | Some e \<Rightarrow> if j = op_id v then [(op_revision v, e)] else [])"
    using save(1) by simp_all
  show "map_of (db_operations db) (op_id v) = Some s \<Longrightarrow> op_revision s + 1 = op_revision v"
    by (rule save(2))
qed

lemma changes_snoc:
  "vs \<noteq> [] \<Longrightarrow> changes w (vs @ [v]) = changes w vs @ changes (Some (last vs)) [v]"
  by (induction w vs rule: changes.induct) auto

text \<open>A commit whose operation comes from a version that the process has seen: the lock test says
  that this version is the last one.\<close>

lemma lock_last:
  assumes inv: "history_ok db tr" and a: "a \<in> set (versions (op_id v) tr)"
    and rev: "op_revision v = Suc (op_revision (snd a))"
    and app: "apply_writes (change_writes i now ctx tenant v ev) db = Inr db'"
  shows "last (versions (op_id v) tr) = a"
proof -
  let ?V = "versions (op_id v) tr"
  note h = history_okD [OF inv]
  have ne: "?V \<noteq> []" using a by auto
  then have "map_of (db_operations db) (op_id v) = Some (snd (last ?V))"
    using h(2) [of "op_id v"] by (simp add: stored_ok_def)
  then have "op_revision (snd (last ?V)) = op_revision (snd a)"
    using change_writesD(2) [OF app] rev by auto
  then show ?thesis
    using chain_unique [OF h(1)] a ne by (metis last_in_set)
qed

lemma commit_change:
  assumes inv: "history_ok db tr" and a: "a \<in> set (versions (op_id v) tr)"
    and nxt: "op_next (snd a) ev v" and link: "linked a (p, v)"
    and acc: "accepted (op_id v) tr = [] \<or> op_is_terminal v \<or> has_sent v"
    and app: "apply_writes (change_writes i now ctx tenant v ev) db = Inr db'"
  shows "history_ok db' (tr @ [(p, Committed v)])"
proof -
  let ?V = "versions (op_id v) tr"
  note h = history_okD [OF inv]
  note w = change_writesD [OF app]
  have ne: "?V \<noteq> []" using a by auto
  have last: "last ?V = a"
    using nxt by (intro lock_last [OF inv a _ app]) (simp add: op_next_def)
  show ?thesis
    unfolding history_ok_def
  proof (intro allI conjI)
    show "wf_table (db_operations db')"
      using inv w(1) by (simp add: history_ok_def table_simps)
    fix j
    show "chain_ok (versions j (tr @ [(p, Committed v)]))"
      using h(1) [of j] ne last link by (auto simp: chain_snoc)
    show "stored_ok (map_of (db_operations db') j) (versions j (tr @ [(p, Committed v)]))"
      using h(2) [of j] w(1) by (auto simp: stored_ok_def table_simps)
    show "accepted_ok (versions j (tr @ [(p, Committed v)])) (accepted j (tr @ [(p, Committed v)]))"
    proof (cases "j = op_id v \<and> accepted j tr \<noteq> []")
      case True
      then obtain b V1 V2 where b: "accepted j tr = [b]" "versions j tr = V1 @ b # V2"
        "\<not> op_is_terminal (snd b)" "has_pending (snd b)" "\<not> has_sent (snd b)"
        "\<forall>c \<in> set V2. has_sent (snd c) \<or> op_is_terminal (snd c)"
        using h(3) [of j] by (auto simp: accepted_ok_def)
      then show ?thesis
        using True acc unfolding accepted_ok_def
        by (intro disjI2 exI [of _ b] exI [of _ V1] exI [of _ "V2 @ [(p, v)]"]) auto
    qed (use h(3) [of j] in \<open>auto simp: accepted_ok_def\<close>)
    show "op_events j db' = changes None (map snd (versions j (tr @ [(p, Committed v)])))"
      using h(4) [of j] w(3) [of j] nxt ne last
      by (auto simp: changes_snoc last_map op_next_def announces_def split: option.splits)
  qed
qed

text \<open>A commit of a new operation.\<close>

lemma commit_fresh:
  assumes inv: "history_ok db tr" and v: "fresh v"
    and app: "apply_writes (change_writes i now ctx tenant v
        (Some (OperationSubmitted (op_id v) (op_tenant v) (op_device v) (op_scope v) (op_command v)))) db = Inr db'"
  shows "history_ok db' (tr @ [(p, Committed v)])"
proof -
  note h = history_okD [OF inv]
  note w = change_writesD [OF app]
  have "map_of (db_operations db) (op_id v) = None"
    using w(2) v by (cases "map_of (db_operations db) (op_id v)") (auto simp: fresh_def)
  then have none: "versions (op_id v) tr = []"
    using h(2) [of "op_id v"] by (auto simp: stored_ok_def split: if_splits)
  then have acc: "accepted (op_id v) tr = []"
    using h(3) [of "op_id v"] by (auto simp: accepted_ok_def)
  have "chain_ok (versions j (tr @ [(p, Committed v)]))
      \<and> stored_ok (map_of (db_operations db') j) (versions j (tr @ [(p, Committed v)]))
      \<and> accepted_ok (versions j (tr @ [(p, Committed v)])) (accepted j (tr @ [(p, Committed v)]))
      \<and> op_events j db' = changes None (map snd (versions j (tr @ [(p, Committed v)])))" for j
  proof (cases "j = op_id v")
    case True
    then show ?thesis
      using h(4) [of j] w(1) w(3) [of j] none v acc
      by (auto simp: stored_ok_def table_simps accepted_ok_def fresh_def)
  next
    case False
    then show ?thesis using h [of j] w(1) w(3) [of j] by (simp add: table_simps)
  qed
  then show ?thesis using inv w(1) by (simp add: history_ok_def table_simps)
qed

section \<open>The handlers keep the invariant\<close>

lemma guarded_read_db:
  assumes "\<And>es db. by_others p es \<Longrightarrow> history_ok db (tr @ es) \<Longrightarrow> guarded history_ok p (tr @ es) (k db)"
  shows "guarded history_ok p tr (read_db k)"
  unfolding read_db_def by (rule guarded_Step) (use assms in auto)

lemma guarded_commit:
  assumes "\<And>es db e. by_others p es \<Longrightarrow> history_ok db (tr @ es) \<Longrightarrow> guarded history_ok p (tr @ es) (k (Inl e))"
    and "\<And>es db db'. by_others p es \<Longrightarrow> history_ok db (tr @ es) \<Longrightarrow> apply_writes ws db = Inr db' \<Longrightarrow>
      history_ok db' (tr @ es @ map (\<lambda>v. (p, Committed v)) (saved ws)) \<and>
      guarded history_ok p (tr @ es @ map (\<lambda>v. (p, Committed v)) (saved ws)) (k (Inr ()))"
  shows "guarded history_ok p tr (commit ws k)"
  unfolding commit_def
proof (rule guarded_Step)
  fix es db db' os k'
  assume h: "by_others p es" "history_ok db (tr @ es)"
    and s: "(case apply_writes ws db of Inl e \<Rightarrow> (db, [], k (Inl e))
        | Inr db' \<Rightarrow> (db', map Committed (saved ws), k (Inr ()))) = (db', os, k')"
  show "history_ok db' (tr @ es @ map (Pair p) os) \<and> guarded history_ok p (tr @ es @ map (Pair p) os) k'"
  proof (cases "apply_writes ws db")
    case (Inl e)
    then show ?thesis using s h assms(1) [OF h] by auto
  next
    case (Inr d)
    then have "db' = d" "os = map Committed (saved ws)" "k' = k (Inr ())" using s by auto
    then show ?thesis using assms(2) [OF h Inr] by (simp add: comp_def)
  qed
qed

lemma operation_get_version:
  assumes "history_ok db tr" and "operation_get db tenant i = Some op"
  obtains q where "(q, op) \<in> set (versions i tr)" and "op_id op = i"
proof -
  have "map_of (db_operations db) i = Some op"
    using assms(2) by (auto simp: operation_get_def split: option.splits if_splits)
  then have "op = snd (last (versions i tr))" "versions i tr \<noteq> []"
    using history_okD(2) [OF assms(1), of i] by (auto simp: stored_ok_def split: if_splits)
  then have "(fst (last (versions i tr)), op) \<in> set (versions i tr)"
    by (metis last_in_set prod.collapse)
  moreover from this have "op_id op = i" by (simp add: in_versions)
  ultimately show ?thesis by (rule that)
qed

lemma version_consistent:
  assumes "history_ok db tr" and "(q, u) \<in> set (versions i tr)"
  shows "op_consistent u" and "op_status u = OpPending \<Longrightarrow> op_attempts u = []"
  using chain_consistent [OF history_okD(1) [OF assms(1)] assms(2)] by auto

subsection \<open>Changes to a terminal status\<close>

lemma op_cancel_terminal: "op_cancel now op = (op', Inr e) \<Longrightarrow> op_is_terminal op'"
  by (auto simp: op_cancel_def complete_current_step_def put_current_step_def bump_def op_is_terminal_def
      status_is_terminal_def Let_def split: if_splits sum.splits option.splits)

lemma op_complete_terminal: "op_complete now r op = (op', Inr e) \<Longrightarrow> op_is_terminal op'"
  by (auto simp: op_complete_def complete_current_step_def put_current_step_def bump_def op_is_terminal_def
      status_is_terminal_def Let_def split: if_splits sum.splits option.splits operation_status.splits)

lemma op_fail_terminal: "op_fail now c m op = (op', Inr e) \<Longrightarrow> op_is_terminal op'"
  by (auto simp: op_fail_def complete_current_step_def put_current_step_def bump_def op_is_terminal_def
      status_is_terminal_def Let_def split: if_splits sum.splits option.splits)

lemma op_timeout_terminal: "op_timeout now err op = (op', Inr e) \<Longrightarrow> op_is_terminal op'"
  by (auto simp: op_timeout_def complete_current_step_def put_current_step_def bump_def op_is_terminal_def
      status_is_terminal_def Let_def split: if_splits sum.splits option.splits)

lemma terminal_linked:
  assumes "op_next (snd a) (Some e) v" and "op_is_terminal v"
  shows "linked a (p, v)"
proof -
  have "\<not> op_is_terminal (snd a)" "op_status v \<noteq> OpPending"
    using assms(1) by (auto simp: op_next_def announces_def)
  then show ?thesis using assms by (auto simp: linked_def)
qed

lemma change_writes_simps:
  "[SaveOperation v, AppendEvent (wrap_event i now ctx tenant v e)] = change_writes i now ctx tenant v (Some e)"
  "[SaveOperation v] = change_writes i now ctx tenant v None"
  by (simp_all add: change_writes_def)

lemma op_next_id: "op_next u ev v \<Longrightarrow> op_id v = op_id u"
  by (auto simp: op_next_def op_identity_def)

lemma guarded_finish:
  assumes "(q, u) \<in> set (versions (op_id u) tr)" and "op_next u (Some e) v" and "op_is_terminal v"
  shows "guarded history_ok p tr (commit [SaveOperation v, AppendEvent (wrap_event i now ctx tenant v e)]
    (\<lambda>r. Return (g r)))"
  unfolding change_writes_simps
proof (rule guarded_commit)
  fix es db db'
  assume h: "by_others p es" "history_ok db (tr @ es)"
    and app: "apply_writes (change_writes i now ctx tenant v (Some e)) db = Inr db'"
  have "(q, u) \<in> set (versions (op_id v) (tr @ es))"
    using assms(1) op_next_id [OF assms(2)] by simp
  from commit_change [OF h(2) this _ _ _ app, of p] assms(2,3) terminal_linked [of "(q, u)" e v p]
  show "history_ok db' (tr @ es @ map (\<lambda>v. (p, Committed v)) (saved (change_writes i now ctx tenant v (Some e)))) \<and>
      guarded history_ok p
        (tr @ es @ map (\<lambda>v. (p, Committed v)) (saved (change_writes i now ctx tenant v (Some e))))
        (Return (g (Inr ())))"
    by (simp add: guarded_Return)
qed (rule guarded_Return)

lemma guarded_update_operation:
  assumes "\<And>now u v e. op_consistent u \<Longrightarrow> f now u = (v, Inr e) \<Longrightarrow> op_next u (Some e) v \<and> op_is_terminal v"
  shows "guarded history_ok p tr (update_operation E i f)"
  unfolding update_operation_def Let_def
proof (rule guarded_read_db)
  fix es db
  assume h: "by_others p es" "history_ok db (tr @ es)"
  show "guarded history_ok p (tr @ es)
     (case operation_get db (ctx_tenant (env_context E)) i of
        None \<Rightarrow> Return (Inl (DomainNotFound ''operation''))
      | Some op \<Rightarrow>
          (case f (env_now E) op of
             (_, Inl e) \<Rightarrow> Return (Inl e)
           | (op', Inr ev) \<Rightarrow>
               commit [SaveOperation op',
                       AppendEvent (wrap_event (env_ids E 0) (env_now E 2) (env_context E)
                         (ctx_tenant (env_context E)) op' ev)]
                 (\<lambda>r. Return (map_sum id (\<lambda>_. op') r))))"
  proof (cases "operation_get db (ctx_tenant (env_context E)) i")
    case (Some op)
    obtain q where q: "(q, op) \<in> set (versions i (tr @ es))" "op_id op = i"
      using operation_get_version [OF h(2) Some] .
    obtain v r where f: "f (env_now E) op = (v, r)" by (cases "f (env_now E) op")
    show ?thesis
    proof (cases r)
      case (Inr ev)
      then have "op_next op (Some ev) v \<and> op_is_terminal v"
        using assms [OF version_consistent(1) [OF h(2) q(1)]] f by simp
      then show ?thesis using Some f Inr q by (auto intro!: guarded_finish)
    qed (simp add: Some f guarded_Return)
  qed (simp add: guarded_Return)
qed

lemma guarded_cancel: "guarded history_ok p tr (cancel_operation E i)"
  unfolding cancel_operation_def
  by (rule guarded_update_operation) (blast intro: op_cancel_next op_cancel_terminal)

lemma guarded_complete: "guarded history_ok p tr (complete_operation E i r)"
  unfolding complete_operation_def
  by (rule guarded_update_operation) (blast intro: op_complete_next op_complete_terminal)

lemma guarded_timeout: "guarded history_ok p tr (timeout_operation E i err)"
  unfolding timeout_operation_def
  by (rule guarded_update_operation) (blast intro: op_timeout_next op_timeout_terminal)

lemma guarded_get: "guarded history_ok p tr (get_operation tenant i)"
  unfolding get_operation_def
  by (rule guarded_read_db) (auto intro: guarded_Return split: option.splits)

subsection \<open>Submission\<close>

lemma operation_new_fresh:
  assumes "operation_new days ids now ctx key device target payload deadline epoch = Inr (op, e)"
  shows "fresh op"
  using operation_new_consistent [OF assms] by (simp add: fresh_def op_attempts_def step_new_def)

lemma guarded_submit: "guarded history_ok p tr (submit_operation E key target device payload deadline epoch)"
proof -
  let ?ctx = "env_context E"
  have new: "guarded history_ok p tr
      (commit [SaveOperation op, AppendEvent (wrap_event i now ?ctx tenant op ev)] (\<lambda>r. Return (g r)))"
    if op: "operation_new (env_days E) (env_ids E) (env_now E) ?ctx key device target payload deadline epoch
        = Inr (op, ev)" for tr op ev i now tenant and g :: "_ \<Rightarrow> domain_error + operation"
    unfolding change_writes_simps
  proof (rule guarded_commit)
    fix es db db'
    assume h: "by_others p es" "history_ok db (tr @ es)"
      and app: "apply_writes (change_writes i now ?ctx tenant op (Some ev)) db = Inr db'"
    show "history_ok db' (tr @ es @ map (\<lambda>v. (p, Committed v)) (saved (change_writes i now ?ctx tenant op (Some ev))))
      \<and> guarded history_ok p
        (tr @ es @ map (\<lambda>v. (p, Committed v)) (saved (change_writes i now ?ctx tenant op (Some ev))))
        (Return (g (Inr ())))"
      using commit_fresh [OF h(2) operation_new_fresh [OF op]] app operation_new_consistent(7) [OF op]
      by (auto intro: guarded_Return)
  qed (rule guarded_Return)
  show ?thesis
    unfolding submit_operation_def Let_def
    by (auto intro!: guarded_Return guarded_read_db new split: sum.splits option.splits prod.splits)
qed

subsection \<open>The dispatcher\<close>

lemma op_attempts_step:
  assumes "op_consistent op"
  obtains s where "op_step (command_step (op_command op)) op = Some s" and "op_steps op = [s]"
    and "op_attempts op = step_attempts s"
  using assms by (auto elim!: op_consistentE simp: op_step_def op_attempts_def)

lemma has_sent_or_acked_iff:
  "op_consistent op \<Longrightarrow> has_sent_or_acked_attempt op (command_step (op_command op)) = has_sent op"
  by (erule op_attempts_step) (simp add: has_sent_or_acked_attempt_def has_sent_def)

lemma find_pending_iff:
  "op_consistent op \<Longrightarrow> find_pending_attempt_id op (command_step (op_command op)) = None \<longleftrightarrow> \<not> has_pending op"
  by (erule op_attempts_step)
    (auto simp: find_pending_attempt_id_def has_pending_def list_ex_iff find_None_iff)

lemma op_start_attempts:
  assumes "op_consistent op" and "op_start now op = (op', Inr e)"
  shows "op_attempts op' = op_attempts op" and "op_status op = OpPending" and "op_status op' = OpRunning"
proof -
  show pend: "op_status op = OpPending"
    using assms(2) by (auto simp: op_start_def split: operation_status.splits)
  obtain s where "op_steps op = [s]" "step_agrees op s" using assms(1) by (elim op_consistentE)
  then show "op_attempts op' = op_attempts op" "op_status op' = OpRunning"
    using assms(2) pend
    by (auto simp: op_start_def op_defs step_agrees_def op_attempts_def Let_def)
qed

lemma update_first_Some:
  assumes "find P xs = Some x"
  shows "y \<in> set (update_first P (\<lambda>_. y) xs)"
  using assms by (induction xs) (auto split: if_splits)

lemma record_attempts:
  assumes "op_consistent op"
    and "record_dispatch_attempt now (command_step (op_command op)) a op = (op', Inr u)"
  shows "op_attempts op' = op_attempts op @ [a]" and "op_status op' = op_status op"
proof -
  obtain s where s: "op_step (command_step (op_command op)) op = Some s" "op_steps op = [s]"
      "op_attempts op = step_attempts s"
    using assms(1) by (elim op_attempts_step)
  then have "step_id s = command_step (op_command op)"
    by (auto simp: op_step_def split: if_splits)
  then show "op_attempts op' = op_attempts op @ [a]" "op_status op' = op_status op"
    using assms(2) s
    by (auto simp: record_dispatch_attempt_def put_step_def add_attempt_def bump_def op_attempts_def)
qed

lemma mark_status:
  "mark_dispatch_attempt now sid aid f op = (op', Inr u) \<Longrightarrow> op_status op' = op_status op"
  by (auto simp: mark_dispatch_attempt_def put_step_def bump_def split: option.splits sum.splits)

lemma mark_sent_has_sent:
  assumes "op_consistent op"
    and "mark_dispatch_attempt_sent now (command_step (op_command op)) aid op = (op', Inr u)"
  shows "has_sent op'"
proof -
  obtain s where s: "op_step (command_step (op_command op)) op = Some s" "op_steps op = [s]"
    using assms(1) by (elim op_attempts_step)
  then have id: "step_id s = command_step (op_command op)"
    by (auto simp: op_step_def split: if_splits)
  obtain a where a: "find (\<lambda>a. attempt_id a = aid) (step_attempts s) = Some a"
    using assms(2) s
    by (auto simp: mark_dispatch_attempt_sent_def mark_dispatch_attempt_def split: option.splits)
  have "op_attempts op' = update_first (\<lambda>b. attempt_id b = aid) (\<lambda>_. mark_sent (now 0) a) (step_attempts s)"
    using assms(2) s a id
    by (auto simp: mark_dispatch_attempt_sent_def mark_dispatch_attempt_def put_step_def bump_def op_attempts_def)
  moreover have "mark_sent (now 0) a
      \<in> set (update_first (\<lambda>b. attempt_id b = aid) (\<lambda>_. mark_sent (now 0) a) (step_attempts s))"
    by (rule update_first_Some [OF a])
  ultimately show ?thesis
    by (force simp: has_sent_def list_ex_iff mark_sent_def)
qed

text \<open>The right to send: the last version that the process committed has a pending attempt, and
  the process has not sent it yet.\<close>

definition holds_token :: "nat \<Rightarrow> observation trace \<Rightarrow> operation \<Rightarrow> bool" where
  "holds_token p tr v \<longleftrightarrow>
     (p, v) \<in> set (versions (op_id v) tr) \<and> (p, Accepted v) \<notin> set tr \<and>
     (\<forall>u. (p, u) \<in> set (versions (op_id v) tr) \<longrightarrow> op_revision u \<le> op_revision v) \<and>
     \<not> op_is_terminal v \<and> has_pending v \<and> \<not> has_sent v"

lemma token_mono:
  assumes "holds_token p tr v" and "by_others p es"
  shows "holds_token p (tr @ es) v"
  using assms by (fastforce simp: holds_token_def by_others_def in_versions)

lemma token_tail:
  assumes inv: "history_ok db tr" and tok: "holds_token p tr v"
    and V: "versions (op_id v) tr = V1 @ (p, v) # V2" and b: "b \<in> set V2"
  shows "op_is_terminal (snd b)"
proof -
  have chain: "chain_ok (V1 @ (p, v) # V2)" using history_okD(1) [OF inv, of "op_id v"] V by simp
  obtain c V3 where V2: "V2 = c # V3" using b by (cases V2) auto
  have link: "linked (p, v) c" using chain unfolding V2 by (rule chain_split)
  have "op_revision (snd c) \<le> op_revision v" if "fst c = p"
    using tok V V2 that unfolding holds_token_def by (metis in_set_conv_decomp list.set_intros(2) prod.collapse Un_iff set_append list.set_intros(1))
  then have c: "op_is_terminal (snd c)"
    using link linked_revision [OF link] tok by (force simp: linked_def holds_token_def)
  have "V3 = []"
  proof (cases V3)
    case (Cons d V4)
    then have "linked c d" using chain V2 chain_split [of "V1 @ [(p, v)]" c d V4] by simp
    then show ?thesis using c by (simp add: linked_def)
  qed
  then show ?thesis using b c V2 by simp
qed

lemma token_not_accepted:
  assumes inv: "history_ok db tr" and tok: "holds_token p tr v"
  shows "accepted (op_id v) tr = []"
proof (rule ccontr)
  assume "accepted (op_id v) tr \<noteq> []"
  then obtain a V1 V2 where a: "accepted (op_id v) tr = [a]" "versions (op_id v) tr = V1 @ a # V2"
      "\<not> op_is_terminal (snd a)" "\<forall>b \<in> set V2. has_sent (snd b) \<or> op_is_terminal (snd b)"
    using history_okD(3) [OF inv, of "op_id v"] by (auto simp: accepted_ok_def)
  have "(p, v) \<in> set V1 \<or> (p, v) = a \<or> (p, v) \<in> set V2"
    using tok a(2) by (auto simp: holds_token_def)
  then show False
  proof (elim disjE)
    assume "(p, v) \<in> set V1"
    then obtain X Y where "V1 = X @ (p, v) # Y" by (meson split_list)
    then have "versions (op_id v) tr = X @ (p, v) # (Y @ a # V2)" using a(2) by simp
    from token_tail [OF inv tok this, of a] show False using a(3) by simp
  next
    assume "(p, v) = a"
    then have "(p, v) \<in> set (accepted (op_id v) tr)" using a(1) by simp
    then show False using tok by (simp add: in_accepted holds_token_def)
  next
    assume "(p, v) \<in> set V2"
    then show False using a(4) tok by (auto simp: holds_token_def)
  qed
qed

lemma token_accept:
  assumes inv: "history_ok db tr" and tok: "holds_token p tr v"
  shows "history_ok db (tr @ [(p, Accepted v)])"
proof -
  note h = history_okD [OF inv]
  obtain V1 V2 where V: "versions (op_id v) tr = V1 @ (p, v) # V2"
    using tok by (auto simp: holds_token_def dest: split_list)
  have "accepted_ok (versions (op_id v) tr) [(p, v)]"
    unfolding accepted_ok_def
    using V tok token_tail [OF inv tok V]
    by (intro disjI2 exI [of _ "(p, v)"] exI [of _ V1] exI [of _ V2]) (auto simp: holds_token_def)
  then have "accepted_ok (versions j tr) (accepted j (tr @ [(p, Accepted v)]))" for j
    using h(3) [of j] token_not_accepted [OF inv tok] by auto
  then show ?thesis using h inv by (simp add: history_ok_def)
qed

text \<open>A commit without an event.\<close>

lemma guarded_save_operation:
  assumes u: "(q, u) \<in> set (versions (op_id u) tr)" and nxt: "op_next u None v"
    and link: "\<And>es db db'. by_others p es \<Longrightarrow> history_ok db (tr @ es) \<Longrightarrow>
      last (versions (op_id u) (tr @ es)) = (q, u) \<Longrightarrow>
      linked (q, u) (p, v) \<and> (accepted (op_id u) (tr @ es) = [] \<or> has_sent v)"
    and k: "\<And>es db0 db. by_others p es \<Longrightarrow> history_ok db0 (tr @ es) \<Longrightarrow>
      last (versions (op_id u) (tr @ es)) = (q, u) \<Longrightarrow>
      history_ok db (tr @ es @ [(p, Committed v)]) \<Longrightarrow>
      guarded history_ok p (tr @ es @ [(p, Committed v)]) (k ())"
  shows "guarded history_ok p tr (save_operation v k)"
  unfolding save_operation_def change_writes_simps(2) [of v "[]" 0 undefined "[]"]
proof (rule guarded_commit)
  fix es db db'
  assume h: "by_others p es" "history_ok db (tr @ es)"
    and app: "apply_writes (change_writes [] 0 undefined [] v None) db = Inr db'"
  have id: "op_id v = op_id u" by (rule op_next_id [OF nxt])
  have a: "(q, u) \<in> set (versions (op_id v) (tr @ es))" using u id by simp
  have last: "last (versions (op_id u) (tr @ es)) = (q, u)"
    using lock_last [OF h(2) a _ app] nxt id by (simp add: op_next_def)
  have "history_ok db' ((tr @ es) @ [(p, Committed v)])"
    using commit_change [OF h(2) a _ _ _ app, of p] link [OF h last] nxt id by auto
  then show "history_ok db' (tr @ es @ map (\<lambda>v. (p, Committed v)) (saved (change_writes [] 0 undefined [] v None))) \<and>
      guarded history_ok p
        (tr @ es @ map (\<lambda>v. (p, Committed v)) (saved (change_writes [] 0 undefined [] v None)))
        (case Inr () of Inl e \<Rightarrow> Return (Inl e) | Inr _ \<Rightarrow> k ())"
    using k [OF h last] by simp
qed (simp add: guarded_Return)

lemma guarded_dispatch_sent:
  assumes u: "(p, u) \<in> set (versions (op_id u) tr)" and cons: "op_consistent u"
    and run: "op_status u = OpRunning" and sid: "sid = command_step (op_command u)"
  shows "guarded history_ok p tr (dispatch_sent E sid aid u)"
proof -
  obtain v r where m: "mark_dispatch_attempt_sent (\<lambda>k. env_now E (k + 7)) sid aid u = (v, r)"
    by fastforce
  show ?thesis
  proof (cases r)
    case (Inl e)
    then show ?thesis using m by (simp add: dispatch_sent_def guarded_Return)
  next
    case (Inr x)
    have nxt: "op_next u None v"
      using m Inr unfolding mark_dispatch_attempt_sent_def by (intro op_mark_next [OF cons]) auto
    have sent: "has_sent v"
      using m Inr by (intro mark_sent_has_sent [OF cons]) (simp add: sid)
    have st: "op_status v = OpRunning"
      using m Inr mark_status run by (auto simp: mark_dispatch_attempt_sent_def)
    have link: "linked (p, u) (p, v)"
      using nxt sent st run by (auto simp: linked_def op_is_terminal_def status_is_terminal_def)
    have "guarded history_ok p tr (save_operation v (\<lambda>_. Return (Inr v)))"
      using link sent by (intro guarded_save_operation [OF u nxt]) (auto intro: guarded_Return)
    then show ?thesis using m Inr by (simp add: dispatch_sent_def)
  qed
qed

lemma guarded_dispatch_nacked:
  assumes tok: "holds_token p tr u" and cons: "op_consistent u" and run: "op_status u = OpRunning"
  shows "guarded history_ok p tr (dispatch_nacked E tenant sid aid code message u)"
proof -
  obtain v r where m: "mark_dispatch_attempt_nacked (\<lambda>k. env_now E (k + 7)) sid aid (error_new code message) u = (v, r)"
    by fastforce
  show ?thesis
  proof (cases r)
    case (Inl e)
    then show ?thesis using m by (simp add: dispatch_nacked_def guarded_Return)
  next
    case (Inr x)
    have nxt: "op_next u None v"
      using m Inr unfolding mark_dispatch_attempt_nacked_def by (intro op_mark_next [OF cons]) auto
    have st: "op_status v = OpRunning"
      using m Inr mark_status run by (auto simp: mark_dispatch_attempt_nacked_def)
    have u: "(p, u) \<in> set (versions (op_id u) tr)" using tok by (simp add: holds_token_def)
    have link: "linked (p, u) (p, v)"
      using nxt st run tok
      by (auto simp: linked_def op_is_terminal_def status_is_terminal_def holds_token_def)
    have rest: "guarded history_ok p tr' (dispatch_complete E tenant code message v)"
      if "(p, v) \<in> set (versions (op_id v) tr')" for tr'
    proof -
      obtain w r where c: "op_complete (\<lambda>k. env_now E (k + 9)) (ResultFailure code message) v = (w, r)"
        by fastforce
      have "op_consistent v" using nxt by (simp add: op_next_def)
      then show ?thesis
        using c that op_complete_next op_complete_terminal
        by (cases r) (auto simp: dispatch_complete_def intro!: guarded_Return guarded_finish)
    qed
    have "guarded history_ok p tr (save_operation v (\<lambda>_. dispatch_complete E tenant code message v))"
    proof (rule guarded_save_operation [OF u nxt])
      fix es db
      assume "by_others p es" "history_ok db (tr @ es)"
      then show "linked (p, u) (p, v) \<and> (accepted (op_id u) (tr @ es) = [] \<or> has_sent v)"
        using link token_not_accepted token_mono [OF tok] by blast
    next
      fix es db
      show "guarded history_ok p (tr @ es @ [(p, Committed v)]) (dispatch_complete E tenant code message v)"
        by (rule rest) simp
    qed
    then show ?thesis using m Inr by (simp add: dispatch_nacked_def)
  qed
qed

lemma guarded_dispatch_send:
  assumes tok: "holds_token p tr u" and cons: "op_consistent u" and run: "op_status u = OpRunning"
    and sid: "sid = command_step (op_command u)"
  shows "guarded history_ok p tr (dispatch_send E tenant sid aid resolved answer u)"
proof -
  have "guarded history_ok p tr (Step (\<lambda>db. (db, [Accepted u], dispatch_sent E sid aid u)))"
  proof (rule guarded_Step)
    fix es db db' os k
    assume h: "by_others p es" "history_ok db (tr @ es)"
      and s: "(db, [Accepted u], dispatch_sent E sid aid u) = (db', os, k)"
    have tok': "holds_token p (tr @ es) u" by (rule token_mono [OF tok h(1)])
    have "history_ok db ((tr @ es) @ [(p, Accepted u)])" by (rule token_accept [OF h(2) tok'])
    moreover have "guarded history_ok p ((tr @ es) @ [(p, Accepted u)]) (dispatch_sent E sid aid u)"
      using tok' by (intro guarded_dispatch_sent [OF _ cons run sid]) (simp add: holds_token_def)
    ultimately show "history_ok db' (tr @ es @ map (Pair p) os) \<and> guarded history_ok p (tr @ es @ map (Pair p) os) k"
      using s by auto
  qed
  then show ?thesis
    using guarded_dispatch_nacked [OF tok cons run]
    by (auto simp: dispatch_send_def split: sum.splits option.splits)
qed

lemma accepted_empty_last:
  assumes inv: "history_ok db tr" and last: "last (versions i tr) = (q, u)"
    and u: "\<not> op_is_terminal u" "\<not> has_pending u" "\<not> has_sent u"
  shows "accepted i tr = []"
proof (rule ccontr)
  assume "accepted i tr \<noteq> []"
  then obtain a V1 V2 where a: "versions i tr = V1 @ a # V2" "has_pending (snd a)"
      "\<forall>b \<in> set V2. has_sent (snd b) \<or> op_is_terminal (snd b)"
    using history_okD(3) [OF inv, of i] by (auto simp: accepted_ok_def)
  show False
  proof (cases "V2 = []")
    case True
    then show False using a last u by auto
  next
    case False
    then have "(q, u) \<in> set V2" using a(1) last by (metis last_appendR last_ConsR last_in_set list.simps(3))
    then show False using a(3) u by auto
  qed
qed

text \<open>Saving an operation that was not changed since it was committed always fails.\<close>

lemma unchanged_save_fails:
  assumes inv: "history_ok db tr" and u: "(q, u) \<in> set (versions (op_id u) tr)"
  shows "\<exists>found. apply_writes [SaveOperation u] db
      = Inl (DomainConcurrentModification (op_revision u - 1) found)"
proof -
  let ?V = "versions (op_id u) tr"
  note h = history_okD [OF inv, of "op_id u"]
  have "map_of (db_operations db) (op_id u) = Some (snd (last ?V))"
    using h(2) u by (auto simp: stored_ok_def split: if_splits)
  moreover have "op_revision u \<le> op_revision (snd (last ?V))"
    using chain_last_revision [OF h(1) u] by simp
  ultimately show ?thesis by (simp add: operation_save_def)
qed

lemma guarded_dispatch_record:
  assumes u: "(q, u) \<in> set (versions (op_id u) tr)" and cons: "op_consistent u"
    and run: "op_status u = OpRunning" and fresh: "\<not> has_sent u"
    and sid: "sid = command_step (op_command u)"
  shows "guarded history_ok p tr (dispatch_record E tenant sid resolved answer u)"
proof (cases "find_pending_attempt_id u sid")
  case (Some aid)
  have "guarded history_ok p tr (save_operation u (\<lambda>_. dispatch_send E tenant sid aid resolved answer u))"
    unfolding save_operation_def
  proof (rule guarded_commit)
    fix es db db'
    assume "history_ok db (tr @ es)" "apply_writes [SaveOperation u] db = Inr db'"
    then have False using unchanged_save_fails [of db "tr @ es" q u] u by auto
    then show "history_ok db' (tr @ es @ map (\<lambda>v. (p, Committed v)) (saved [SaveOperation u])) \<and>
        guarded history_ok p (tr @ es @ map (\<lambda>v. (p, Committed v)) (saved [SaveOperation u]))
          (case Inr () of Inl e \<Rightarrow> Return (Inl e)
           | Inr _ \<Rightarrow> dispatch_send E tenant sid aid resolved answer u)" ..
  qed (simp add: guarded_Return)
  then show ?thesis using Some by (simp add: dispatch_record_def)
next
  case None
  then have pend: "\<not> has_pending u" using find_pending_iff [OF cons] by (simp add: sid)
  have live: "\<not> op_is_terminal u" using run by (simp add: not_terminal_iff)
  obtain v r where m: "record_dispatch_attempt (\<lambda>k. env_now E (k + 5)) sid (attempt_new (env_ids E 1)) u = (v, r)"
    by fastforce
  show ?thesis
  proof (cases r)
    case (Inl e)
    then show ?thesis using m None by (simp add: dispatch_record_def guarded_Return)
  next
    case (Inr x)
    have nxt: "op_next u None v" using m Inr by (intro op_record_next [OF cons]) auto
    have att: "op_attempts v = op_attempts u @ [attempt_new (env_ids E 1)]" and st: "op_status v = OpRunning"
      using record_attempts [OF cons] m Inr run by (auto simp: sid)
    have v: "has_pending v" "\<not> has_sent v" "\<not> op_is_terminal v"
      using att fresh st by (auto simp: has_pending_def has_sent_def attempt_new_def not_terminal_iff)
    have id: "op_id v = op_id u" and cmd: "op_command v = op_command u" and cv: "op_consistent v"
      using nxt by (auto simp: op_next_def op_identity_def)
    have "guarded history_ok p tr
        (save_operation v (\<lambda>_. dispatch_send E tenant sid (env_ids E 1) resolved answer v))"
    proof (rule guarded_save_operation [OF u nxt])
      fix es db
      assume "history_ok db (tr @ es)" "last (versions (op_id u) (tr @ es)) = (q, u)"
      then show "linked (q, u) (p, v) \<and> (accepted (op_id u) (tr @ es) = [] \<or> has_sent v)"
        using accepted_empty_last [of db "tr @ es" "op_id u" q u] live pend fresh nxt st
        by (auto simp: linked_def)
    next
      fix es db0 db
      let ?tr = "tr @ es @ [(p, Committed v)]"
      assume h: "by_others p es" "history_ok db0 (tr @ es)" "last (versions (op_id u) (tr @ es)) = (q, u)"
        "history_ok db ?tr"
      have "accepted (op_id v) ?tr = []"
        using accepted_empty_last [OF h(2,3)] live pend fresh id by simp
      then have "holds_token p ?tr v"
        using v chain_last_revision [OF history_okD(1) [OF h(4), of "op_id v"]]
          in_accepted [of p v "op_id v" ?tr]
        by (fastforce simp: holds_token_def)
      then show "guarded history_ok p ?tr (dispatch_send E tenant sid (env_ids E 1) resolved answer v)"
        by (rule guarded_dispatch_send) (simp_all add: cv st sid cmd)
    qed
    then show ?thesis using m Inr None by (simp add: dispatch_record_def)
  qed
qed

lemma guarded_dispatch_start:
  assumes u: "(q, u) \<in> set (versions (op_id u) tr)" and cons: "op_consistent u"
    and att: "op_attempts u = []" and start: "op_start now u = (v, Inr e)"
  shows "guarded history_ok p tr
    (commit [SaveOperation v, AppendEvent (wrap_event i t ctx tenant v e)]
       (\<lambda>r. case r of Inl e \<Rightarrow> Return (Inl e)
          | Inr _ \<Rightarrow> dispatch_record E tenant (command_step (op_command u)) resolved answer v))"
  unfolding change_writes_simps
proof (rule guarded_commit)
  fix es db db'
  assume h: "by_others p es" "history_ok db (tr @ es)"
    and app: "apply_writes (change_writes i t ctx tenant v (Some e)) db = Inr db'"
  let ?tr = "tr @ es @ [(p, Committed v)]"
  have nxt: "op_next u (Some e) v" by (rule op_start_next [OF cons start])
  note st = op_start_attempts [OF cons start]
  have none: "\<not> has_pending u" "\<not> has_sent u" "\<not> has_sent v" "\<not> op_is_terminal u"
    using att st by (auto simp: has_pending_def has_sent_def not_terminal_iff)
  have id: "op_id v = op_id u" and cmd: "op_command v = op_command u" and cv: "op_consistent v"
    using nxt by (auto simp: op_next_def op_identity_def)
  have a: "(q, u) \<in> set (versions (op_id v) (tr @ es))" using u id by simp
  have "last (versions (op_id v) (tr @ es)) = (q, u)"
    using nxt by (intro lock_last [OF h(2) a _ app]) (simp add: op_next_def)
  then have acc: "accepted (op_id v) (tr @ es) = []"
    using accepted_empty_last [OF h(2)] none by blast
  have "linked (q, u) (p, v)" using nxt none st by (auto simp: linked_def)
  then have "history_ok db' ((tr @ es) @ [(p, Committed v)])"
    using nxt acc by (intro commit_change [OF h(2) a _ _ _ app]) auto
  moreover have "guarded history_ok p ?tr
      (dispatch_record E tenant (command_step (op_command u)) resolved answer v)"
    by (rule guarded_dispatch_record [where q = p]) (simp_all add: cv st none cmd)
  ultimately show "history_ok db' (tr @ es @ map (\<lambda>v. (p, Committed v)) (saved (change_writes i t ctx tenant v (Some e)))) \<and>
      guarded history_ok p
        (tr @ es @ map (\<lambda>v. (p, Committed v)) (saved (change_writes i t ctx tenant v (Some e))))
        (case Inr () of Inl e \<Rightarrow> Return (Inl e)
         | Inr _ \<Rightarrow> dispatch_record E tenant (command_step (op_command u)) resolved answer v)"
    by simp
qed (simp add: guarded_Return)

lemma guarded_dispatch: "guarded history_ok p tr (dispatch E tenant i resolved answer)"
  unfolding dispatch_def
proof (rule guarded_read_db)
  fix es db
  let ?k = "\<lambda>op. let sid = command_step (op_command op)
          in if op_is_terminal op then Return (Inr op)
             else if op_status op = OpRunning \<and> has_sent_or_acked_attempt op sid then Return (Inr op)
             else if op_status op = OpPending then
               (case op_start (env_now E) op of
                  (_, Inl e) \<Rightarrow> Return (Inl e)
                | (op', Inr ev) \<Rightarrow>
                    commit [SaveOperation op',
                            AppendEvent (wrap_event (env_ids E 0) (env_now E 4) (env_context E) tenant op' ev)]
                      (\<lambda>r. case r of
                         Inl e \<Rightarrow> Return (Inl e)
                       | Inr _ \<Rightarrow> dispatch_record E tenant sid resolved answer op'))
             else dispatch_record E tenant sid resolved answer op"
  assume h: "by_others p es" "history_ok db (tr @ es)"
  show "guarded history_ok p (tr @ es)
     (case operation_get db tenant i of
        None \<Rightarrow> Return (Inl (DomainNotFound ''operation'')) | Some op \<Rightarrow> ?k op)"
  proof (cases "operation_get db tenant i")
    case (Some op)
    obtain q where q: "(q, op) \<in> set (versions (op_id op) (tr @ es))"
      using operation_get_version [OF h(2) Some] by metis
    note op = version_consistent [OF h(2) q]
    consider "op_is_terminal op \<or> op_status op = OpRunning \<and> has_sent op"
      | "op_status op = OpPending" | "op_status op = OpRunning" "\<not> has_sent op"
      by (cases "op_status op") (auto simp: op_is_terminal_def status_is_terminal_def)
    then have "guarded history_ok p (tr @ es) (?k op)"
    proof cases
      case 1
      then show ?thesis
        using has_sent_or_acked_iff [OF op(1)] by (auto simp: Let_def intro: guarded_Return)
    next
      case 2
      obtain v r where "op_start (env_now E) op = (v, r)" by fastforce
      then show ?thesis
        using 2 guarded_dispatch_start [OF q op(1)] op(2)
        by (cases r) (auto simp: Let_def op_is_terminal_def status_is_terminal_def intro: guarded_Return)
    next
      case 3
      then show ?thesis
        using has_sent_or_acked_iff [OF op(1)] guarded_dispatch_record [OF q op(1)]
        by (simp add: Let_def op_is_terminal_def status_is_terminal_def)
    qed
    then show ?thesis using Some by simp
  qed (simp add: guarded_Return)
qed

section \<open>Reading the events\<close>

lemma replay_changes:
  assumes "chain_ok V" and "V \<noteq> []"
  shows "\<exists>n \<le> op_revision (snd (last V)).
    replay (changes None (map snd V))
      = Some (n, op_status (snd (last V)), op_result (snd (last V)), op_error (snd (last V)))"
  using assms
proof (induction V rule: rev_induct)
  case (snoc b V)
  show ?case
  proof (cases "V = []")
    case True
    then have "fresh (snd b)" using snoc.prems by simp
    then show ?thesis
      using True by (auto simp: fresh_def step_agrees_def elim!: op_consistentE)
  next
    case False
    let ?u = "snd (last V)" and ?v = "snd b"
    have V: "chain_ok V" and link: "linked (last V) b" using snoc.prems False by (simp_all add: chain_snoc)
    obtain n where n: "n \<le> op_revision ?u"
        "replay (changes None (map snd V)) = Some (n, op_status ?u, op_result ?u, op_error ?u)"
      using snoc.IH [OF V False] by blast
    obtain ev where ev: "op_next ?u ev ?v" "\<not> op_is_terminal ?u" using link by (auto simp: linked_def)
    have rev: "op_revision ?v = Suc (op_revision ?u)" by (rule linked_revision [OF link])
    have app: "changes None (map snd (V @ [b])) = changes None (map snd V) @ changes (Some ?u) [?v]"
      using False by (simp add: changes_snoc last_map)
    have cons: "replay (es @ fs) = fold replay_event fs (replay es)" if "replay es \<noteq> None" for es fs
      using that by (cases "es" rule: replay.cases) auto
    show ?thesis
    proof (cases ev)
      case None
      then show ?thesis
        using n ev(1) rev app cons by (auto simp: op_next_def announces_def intro!: exI [of _ n])
    next
      case (Some e)
      then show ?thesis
        using n ev rev app cons
        by (auto simp: op_next_def announces_def replay_event_def state_changed_event_def op_is_terminal_def
            intro!: exI [of _ "op_revision ?v"])
    qed
  qed
qed simp

end
