(* ===== verification/OperationRecovery.thy ===== *)
theory OperationRecovery
  imports OperationHistory
begin

text \<open>
  Services that end operations in bulk: the paged listing of operations
  (\<open>cheetah-storage-api/include/list_impl.rs\<close>), \<open>TakeoverService\<close> (\<open>takeover_service.rs\<close>) and
  \<open>OperationReconciler\<close> (\<open>operation_reconciler.rs\<close>). Their transactions save many operations; each
  is one step of its process. The loops over the pages are partial functions, whose result \<open>None\<close>
  would be a loop that does not end.

  \<open>env_now\<close> and \<open>env_ids\<close> number the readings of the clock and the identifiers: three readings and
  one identifier for each operation that is changed.
\<close>

section \<open>Pages of operations\<close>

definition decode_cursor :: "codec \<Rightarrow> page_request \<Rightarrow> domain_error + uuid option" where
  "decode_cursor C req =
     (case req_cursor req of
        None \<Rightarrow> Inr None
      | Some s \<Rightarrow>
          (case list_cursor_decode C s of
             Inl e \<Rightarrow> Inl DomainInvalidArgument
           | Inr c \<Rightarrow>
               (case list_cursor_parse C c of
                  Inl e \<Rightarrow> Inl DomainInvalidArgument
                | Inr (t, i) \<Rightarrow> Inr (Some i))))"

definition to_page ::
  "codec \<Rightarrow> ('a \<Rightarrow> instant) \<Rightarrow> ('a \<Rightarrow> uuid) \<Rightarrow> 'a list \<Rightarrow> nat \<Rightarrow> domain_error + 'a page" where
  "to_page C upd idf rows limit =
     (if limit < length rows then
        (let r = rows ! (limit - 1)
         in case list_cursor_new C (upd r) (idf r) of
              Inl e \<Rightarrow> Inl DomainInvalidArgument
            | Inr c \<Rightarrow>
                (case list_cursor_encode C c of
                   Inl e \<Rightarrow> Inl DomainInternal
                 | Inr s \<Rightarrow> Inr \<lparr>page_items = take limit rows, page_next_cursor = Some s\<rparr>))
      else Inr \<lparr>page_items = take limit rows, page_next_cursor = None\<rparr>)"

text \<open>\<open>ORDER BY operation_id\<close>, after the identifier of the cursor.\<close>

definition id_page ::
  "codec \<Rightarrow> ('a \<Rightarrow> instant) \<Rightarrow> ('a \<Rightarrow> uuid) \<Rightarrow> 'a list \<Rightarrow> page_request \<Rightarrow> domain_error + 'a page" where
  "id_page C upd idf rows req =
     (case decode_cursor C req of
        Inl e \<Rightarrow> Inl e
      | Inr c \<Rightarrow> to_page C upd idf (take (limit_plus_one req) (rows_after idf rows c)) (clamped_page_size req))"

definition operation_updated_at :: "codec \<Rightarrow> operation \<Rightarrow> instant" where
  "operation_updated_at C op = timestamptz C (op_updated_at op)"

definition operation_rows ::
  "codec \<Rightarrow> uuid \<Rightarrow> uuid option \<Rightarrow> string option \<Rightarrow> instant option \<Rightarrow> database \<Rightarrow> operation list" where
  "operation_rows C tenant device status updated_after db =
     filter (\<lambda>op. op_tenant op = tenant \<and>
         (case device of None \<Rightarrow> True | Some d \<Rightarrow> op_device op = d) \<and>
         (case status of None \<Rightarrow> True | Some s \<Rightarrow> status_display (op_status op) = s) \<and>
         (case updated_after of None \<Rightarrow> True | Some t \<Rightarrow> t < operation_updated_at C op))
       (map snd (db_operations db))"

definition list_operations ::
  "codec \<Rightarrow> database \<Rightarrow> uuid \<Rightarrow> uuid option \<Rightarrow> string option \<Rightarrow> instant option \<Rightarrow> page_request \<Rightarrow>
   domain_error + operation page" where
  "list_operations C db tenant device status updated_after req =
     id_page C (operation_updated_at C) op_id (operation_rows C tenant device status updated_after db) req"

section \<open>Transactions that change many operations\<close>

record txn =
  tx_db :: database
  tx_saved :: "operation list"

text \<open>\<open>save\<close> and \<open>append\<close> of one change in an open transaction; the index of the event is the number of
  the changes before it.\<close>

definition tx_change :: "call_env \<Rightarrow> uuid \<Rightarrow> operation \<Rightarrow> domain_event \<Rightarrow> txn \<Rightarrow> domain_error + txn" where
  "tx_change E tenant op ev tx =
     (let n = length (tx_saved tx)
      in case apply_writes
                [SaveOperation op,
                 AppendEvent (wrap_event (env_ids E n) (env_now E (3 * n + 3)) (env_context E) tenant op ev)]
                (tx_db tx) of
           Inl e \<Rightarrow> Inl e
         | Inr db \<Rightarrow> Inr \<lparr>tx_db = db, tx_saved = tx_saved tx @ [op]\<rparr>)"

text \<open>The readings of the clock by the method of the aggregate.\<close>

definition tx_now :: "call_env \<Rightarrow> txn \<Rightarrow> nat \<Rightarrow> instant" where
  "tx_now E tx k = env_now E (3 * length (tx_saved tx) + 1 + k)"

section \<open>Takeover\<close>

definition owner_lost_code :: string where "owner_lost_code = ''owner_lost''"
definition owner_lost_message :: string where
  "owner_lost_message = ''device owner epoch advanced due to takeover''"

definition recover_one :: "call_env \<Rightarrow> uuid \<Rightarrow> nat \<Rightarrow> operation \<Rightarrow> txn \<Rightarrow> domain_error + txn" where
  "recover_one E tenant epoch op tx =
     (if op_expected_epoch op < epoch then
        (case op_fail (tx_now E tx) owner_lost_code owner_lost_message op of
           (_, Inl e) \<Rightarrow> Inl e
         | (op', Inr ev) \<Rightarrow> tx_change E tenant op' ev tx)
      else Inr tx)"

fun recover_items :: "call_env \<Rightarrow> uuid \<Rightarrow> nat \<Rightarrow> operation list \<Rightarrow> txn \<Rightarrow> domain_error + txn" where
  "recover_items E tenant epoch [] tx = Inr tx"
| "recover_items E tenant epoch (op # ops) tx =
     (case recover_one E tenant epoch op tx of
        Inl e \<Rightarrow> Inl e | Inr tx' \<Rightarrow> recover_items E tenant epoch ops tx')"

partial_function (option) recover_pages ::
  "codec \<Rightarrow> call_env \<Rightarrow> uuid \<Rightarrow> uuid \<Rightarrow> nat \<Rightarrow> string \<Rightarrow> page_request \<Rightarrow> txn \<Rightarrow> (domain_error + txn) option" where
  "recover_pages C E tenant device epoch status req tx =
     (case list_operations C (tx_db tx) tenant (Some device) (Some status) None req of
        Inl e \<Rightarrow> Some (Inl e)
      | Inr page \<Rightarrow>
          (case recover_items E tenant epoch (page_items page) tx of
             Inl e \<Rightarrow> Some (Inl e)
           | Inr tx' \<Rightarrow>
               (case page_next_cursor page of
                  None \<Rightarrow> Some (Inr tx')
                | Some s \<Rightarrow> recover_pages C E tenant device epoch status (with_cursor req s) tx')))"

definition recover_operations ::
  "codec \<Rightarrow> call_env \<Rightarrow> uuid \<Rightarrow> uuid \<Rightarrow> nat \<Rightarrow> txn \<Rightarrow> (domain_error + txn) option" where
  "recover_operations C E tenant device epoch tx =
     (let req = \<lparr>req_cursor = None, req_page_size = max_page_size\<rparr>
      in case recover_pages C E tenant device epoch ''pending'' req tx of
           Some (Inr tx') \<Rightarrow> recover_pages C E tenant device epoch ''running'' req tx'
         | r \<Rightarrow> r)"

datatype takeover_result =
    TakeoverCurrent | TakeoverAcquired owner_info nat | TakeoverRemoteOwner owner_info | TakeoverNotEligible

datatype owner_validation = OwnerCurrent | OwnerFenced

fun domain_of_storage :: "storage_error \<Rightarrow> domain_error" where
  "domain_of_storage StorageBackend = DomainUnavailable"
| "domain_of_storage StorageConnection = DomainUnavailable"
| "domain_of_storage StorageUnavailable = DomainUnavailable"
| "domain_of_storage (StorageMigration version) = DomainInternal"
| "domain_of_storage StorageConfig = DomainInternal"
| "domain_of_storage StorageInternal = DomainInternal"
| "domain_of_storage (StorageConcurrentModification expected found) = DomainConcurrentModification expected found"
| "domain_of_storage StorageInvalidArgument = DomainInvalidArgument"

definition is_owner_valid :: "owner_info \<Rightarrow> cluster_node \<Rightarrow> instant \<Rightarrow> bool" where
  "is_owner_valid owner node now \<longleftrightarrow>
     now < node_lease_until node \<and>
     (case owner_lease_until owner of None \<Rightarrow> False | Some lease \<Rightarrow> now < lease)"

definition is_this_node_eligible :: "uuid \<Rightarrow> instant \<Rightarrow> owner_store \<Rightarrow> bool" where
  "is_this_node_eligible me now st =
     (case node_get me (store_nodes st) of
        None \<Rightarrow> False
      | Some node \<Rightarrow> now < node_lease_until node \<and> \<not> draining node)"

definition owner_changed_event ::
  "call_env \<Rightarrow> nat \<Rightarrow> uuid \<Rightarrow> uuid \<Rightarrow> owner_info \<Rightarrow> owner_info option \<Rightarrow> event" where
  "owner_changed_event E n tenant device owner previous =
     event_new (env_ids E n) (env_now E (3 * n + 1)) (env_context E) tenant
       (device_resource_ref tenant device) (owner_epoch owner)
       (OwnerChanged tenant device (owner_node_id owner) (owner_epoch owner)
          (map_option owner_node_id previous) (map_option owner_epoch previous)
          (case previous of None \<Rightarrow> True | Some p \<Rightarrow> owner_node_id p \<noteq> owner_node_id owner))"

text \<open>The transaction of a takeover: the new database with the saved operations and the result. An
  error or a lost race leaves the database as it was.\<close>

definition takeover_txn ::
  "codec \<Rightarrow> call_env \<Rightarrow> uuid \<Rightarrow> uuid \<Rightarrow> uuid \<Rightarrow> instant \<Rightarrow> database \<Rightarrow>
   (txn \<times> (domain_error + (owner_info \<times> nat) option)) option" where
  "takeover_txn C E me tenant device lease db =
     (let unchanged = \<lparr>tx_db = db, tx_saved = []\<rparr>
      in case acquire_ownership C tenant device me (env_now E 0) lease (db_cluster db) of
           (_, Inl e) \<Rightarrow> Some (unchanged, Inl (domain_of_storage e))
         | (_, Inr None) \<Rightarrow> Some (unchanged, Inr None)
         | (st, Inr (Some (owner, previous))) \<Rightarrow>
             (case recover_operations C E tenant device (owner_epoch owner)
                     \<lparr>tx_db = db\<lparr>db_cluster := st\<rparr>, tx_saved = []\<rparr> of
                None \<Rightarrow> None
              | Some (Inl e) \<Rightarrow> Some (unchanged, Inl e)
              | Some (Inr tx) \<Rightarrow>
                  (let n = length (tx_saved tx)
                   in case outbox_append (owner_changed_event E n tenant device owner previous) (tx_db tx) of
                        Inl e \<Rightarrow> Some (unchanged, Inl e)
                      | Inr db' \<Rightarrow> Some (tx\<lparr>tx_db := db'\<rparr>, Inr (Some (owner, n))))))"

text \<open>The whole call: reads of the owner, of its node and of this node, the transaction, and after a
  lost race a read of the winner. The result \<open>None\<close> would be a transaction that does not end.\<close>

definition takeover_race :: "uuid \<Rightarrow> uuid \<Rightarrow> (domain_error + takeover_result) option process" where
  "takeover_race tenant device =
     read_db (\<lambda>db. Return (Some
       (case owner_get (db_cluster db) tenant device of
          None \<Rightarrow> Inl DomainInternal
        | Some owner \<Rightarrow> Inr (TakeoverRemoteOwner owner))))"

definition takeover_acquire ::
  "codec \<Rightarrow> call_env \<Rightarrow> uuid \<Rightarrow> uuid \<Rightarrow> uuid \<Rightarrow> instant \<Rightarrow> (domain_error + takeover_result) option process" where
  "takeover_acquire C E me tenant device lease =
     read_db (\<lambda>db0.
       if \<not> is_this_node_eligible me (env_now E 0) (db_cluster db0) then
         Return (Some (Inr TakeoverNotEligible))
       else
         Step (\<lambda>db. case takeover_txn C E me tenant device lease db of
                 None \<Rightarrow> (db, [], Return None)
               | Some (tx, r) \<Rightarrow>
                   (tx_db tx, map Committed (tx_saved tx),
                    case r of
                      Inl e \<Rightarrow> Return (Some (Inl e))
                    | Inr None \<Rightarrow> takeover_race tenant device
                    | Inr (Some (owner, n)) \<Rightarrow> Return (Some (Inr (TakeoverAcquired owner n))))))"

definition takeover ::
  "codec \<Rightarrow> call_env \<Rightarrow> uuid \<Rightarrow> int \<Rightarrow> uuid \<Rightarrow> uuid \<Rightarrow> (domain_error + takeover_result) option process" where
  "takeover C E me ms tenant device =
     (let now = env_now E 0
      in case utc_checked_add C now ms of
           None \<Rightarrow> Return (Some (Inl DomainInternal))
         | Some lease \<Rightarrow>
             read_db (\<lambda>db1. case owner_get (db_cluster db1) tenant device of
                 None \<Rightarrow> takeover_acquire C E me tenant device lease
               | Some owner \<Rightarrow>
                   read_db (\<lambda>db2. case node_get (owner_node_id owner) (store_nodes (db_cluster db2)) of
                       None \<Rightarrow> takeover_acquire C E me tenant device lease
                     | Some node \<Rightarrow>
                         if is_owner_valid owner node now then
                           Return (Some (Inr (if owner_node_id owner = me then TakeoverCurrent
                                              else TakeoverRemoteOwner owner)))
                         else takeover_acquire C E me tenant device lease)))"

definition validate_local_owner :: "uuid \<Rightarrow> uuid \<Rightarrow> owner_info \<Rightarrow> owner_store \<Rightarrow> owner_validation" where
  "validate_local_owner tenant device local_owner st =
     (case owner_get st tenant device of
        Some owner \<Rightarrow>
          if owner_node_id owner = owner_node_id local_owner \<and> owner_epoch owner = owner_epoch local_owner
          then OwnerCurrent else OwnerFenced
      | None \<Rightarrow> OwnerFenced)"

section \<open>The reconciler\<close>

record status_cursor =
  sc_status :: operation_status
  sc_filter :: string
  sc_cursor :: "string option"
  sc_buffer :: "operation list"
  sc_has_more :: bool

definition cursor_new :: "operation_status \<Rightarrow> string \<Rightarrow> status_cursor" where
  "cursor_new st name =
     \<lparr>sc_status = st, sc_filter = name, sc_cursor = None, sc_buffer = [], sc_has_more = True\<rparr>"

definition cursor_exhausted :: "status_cursor \<Rightarrow> bool" where
  "cursor_exhausted sc \<longleftrightarrow> \<not> sc_has_more sc \<and> sc_buffer sc = []"

text \<open>\<open>Vec::pop\<close>\<close>

definition pop_buffer :: "status_cursor \<Rightarrow> status_cursor \<times> operation option" where
  "pop_buffer sc =
     (if sc_buffer sc = [] then (sc, None)
      else (sc\<lparr>sc_buffer := butlast (sc_buffer sc)\<rparr>, Some (last (sc_buffer sc))))"

definition next_operation ::
  "codec \<Rightarrow> database \<Rightarrow> uuid \<Rightarrow> nat \<Rightarrow> status_cursor \<Rightarrow> signal_error_kind + status_cursor \<times> operation option" where
  "next_operation C db tenant batch sc =
     (if sc_buffer sc = [] then
        (if \<not> sc_has_more sc then Inr (sc, None)
         else case page_request_new batch of
           Inl e \<Rightarrow> Inl e
         | Inr req0 \<Rightarrow>
             (let req = (case sc_cursor sc of None \<Rightarrow> req0 | Some s \<Rightarrow> with_cursor req0 s)
              in case list_operations C db tenant None (Some (sc_filter sc)) None req of
                   Inl e \<Rightarrow> Inl (signal_of_domain e)
                 | Inr page \<Rightarrow>
                     (let sc' = sc\<lparr>sc_cursor := page_next_cursor page, sc_buffer := page_items page,
                                  sc_has_more := page_next_cursor page \<noteq> None\<rparr>
                      in if sc_buffer sc' = [] \<and> \<not> sc_has_more sc' then Inr (sc', None)
                         else Inr (pop_buffer sc'))))
      else Inr (pop_buffer sc))"

record reconcile_report =
  rr_scanned :: nat
  rr_timed_out :: nat

definition reconcile_timeout :: "call_env \<Rightarrow> uuid \<Rightarrow> operation_status \<Rightarrow> operation \<Rightarrow> txn \<Rightarrow> signal_error_kind + txn" where
  "reconcile_timeout E tenant st op tx =
     (case (if st = OpPending then op_expire (tx_now E tx) op else op_timeout (tx_now E tx) error_timeout op) of
        (_, Inl e) \<Rightarrow> Inl (signal_of_domain e)
      | (op', Inr ev) \<Rightarrow> map_sum signal_of_domain id (tx_change E tenant op' ev tx))"

text \<open>One turn of the inner loop: the next operation of one cursor.\<close>

definition reconcile_cursor ::
  "codec \<Rightarrow> call_env \<Rightarrow> nat \<Rightarrow> nat \<Rightarrow> status_cursor \<Rightarrow> txn \<times> reconcile_report \<Rightarrow>
   signal_error_kind + status_cursor \<times> txn \<times> reconcile_report" where
  "reconcile_cursor C E batch mx sc s =
     (let tenant = ctx_tenant (env_context E); now = env_now E 0; (tx, rep) = s
      in if mx \<le> rr_timed_out rep then Inr (sc, tx, rep)
         else case next_operation C (tx_db tx) tenant batch sc of
           Inl e \<Rightarrow> Inl e
         | Inr (sc', None) \<Rightarrow> Inr (sc', tx, rep)
         | Inr (sc', Some op) \<Rightarrow>
             (let rep' = rep\<lparr>rr_scanned := rr_scanned rep + 1\<rparr>
              in if op_is_terminal op \<or> op_status op \<noteq> sc_status sc then Inr (sc', tx, rep')
                 else if (case op_deadline op of None \<Rightarrow> False | Some d \<Rightarrow> deadline_is_elapsed d now) then
                   (case reconcile_timeout E tenant (sc_status sc) op tx of
                      Inl e \<Rightarrow> Inl e
                    | Inr tx' \<Rightarrow> Inr (sc', tx', rep'\<lparr>rr_timed_out := rr_timed_out rep' + 1\<rparr>))
                 else Inr (sc', tx, rep')))"

partial_function (option) reconcile_loop ::
  "codec \<Rightarrow> call_env \<Rightarrow> nat \<Rightarrow> nat \<Rightarrow> status_cursor \<Rightarrow> status_cursor \<Rightarrow> txn \<times> reconcile_report \<Rightarrow>
   (signal_error_kind + txn \<times> reconcile_report) option" where
  "reconcile_loop C E batch mx p r s =
     (if rr_timed_out (snd s) < mx \<and> (\<not> cursor_exhausted p \<or> \<not> cursor_exhausted r) then
        (case reconcile_cursor C E batch mx p s of
           Inl e \<Rightarrow> Some (Inl e)
         | Inr (p', s') \<Rightarrow>
             (case reconcile_cursor C E batch mx r s' of
                Inl e \<Rightarrow> Some (Inl e)
              | Inr (r', s'') \<Rightarrow> reconcile_loop C E batch mx p' r' s''))
      else Some (Inr s))"

definition clamp_batch :: "nat \<Rightarrow> nat" where
  "clamp_batch n = min max_page_size (max 1 n)"

definition reconcile ::
  "codec \<Rightarrow> call_env \<Rightarrow> nat \<Rightarrow> nat \<Rightarrow> database \<Rightarrow> (signal_error_kind + txn \<times> reconcile_report) option" where
  "reconcile C E batch mx db =
     reconcile_loop C E (clamp_batch batch) mx (cursor_new OpPending ''pending'') (cursor_new OpRunning ''running'')
       (\<lparr>tx_db = db, tx_saved = []\<rparr>, \<lparr>rr_scanned = 0, rr_timed_out = 0\<rparr>)"

section \<open>Bulk transactions keep the history\<close>

definition tx_trace :: "nat \<Rightarrow> observation trace \<Rightarrow> txn \<Rightarrow> observation trace" where
  "tx_trace p tr tx = tr @ map (\<lambda>v. (p, Committed v)) (tx_saved tx)"

definition tx_ok :: "nat \<Rightarrow> observation trace \<Rightarrow> txn \<Rightarrow> bool" where
  "tx_ok p tr tx \<longleftrightarrow> history_ok (tx_db tx) (tx_trace p tr tx)"

definition tx_seen :: "nat \<Rightarrow> observation trace \<Rightarrow> txn \<Rightarrow> operation \<Rightarrow> bool" where
  "tx_seen p tr tx op \<longleftrightarrow> (\<exists>q. (q, op) \<in> set (versions (op_id op) (tx_trace p tr tx)))"

lemma history_ok_cong:
  assumes "db_operations db' = db_operations db" and "\<And>i. op_events i db' = op_events i db"
  shows "history_ok db' tr = history_ok db tr"
  using assms by (simp add: history_ok_def)

lemma tx_changeD:
  assumes ok: "tx_ok p tr tx" and seen: "tx_seen p tr tx op"
    and next_op: "op_next op (Some ev) op'" "op_is_terminal op'"
    and c: "tx_change E tenant op' ev tx = Inr tx'"
  shows "tx_ok p tr tx'" and "tx_seen p tr tx u \<Longrightarrow> tx_seen p tr tx' u"
proof -
  obtain q where q: "(q, op) \<in> set (versions (op_id op) (tx_trace p tr tx))"
    using seen by (auto simp: tx_seen_def)
  obtain i t db where db: "apply_writes (change_writes i t (env_context E) tenant op' (Some ev)) (tx_db tx) = Inr db"
      "tx' = \<lparr>tx_db = db, tx_saved = tx_saved tx @ [op']\<rparr>"
    using c unfolding tx_change_def Let_def change_writes_simps by (auto split: sum.splits)
  have tr': "tx_trace p tr tx' = tx_trace p tr tx @ [(p, Committed op')]" using db(2) by (simp add: tx_trace_def)
  have a: "(q, op) \<in> set (versions (op_id op') (tx_trace p tr tx))"
    using q op_next_id [OF next_op(1)] by simp
  have "history_ok db (tx_trace p tr tx @ [(p, Committed op')])"
    using commit_change [OF _ a _ _ _ db(1), of p] ok next_op terminal_linked [of "(q, op)" ev op' p]
    by (simp add: tx_ok_def)
  then show "tx_ok p tr tx'" using tr' db(2) by (simp add: tx_ok_def)
  show "tx_seen p tr tx u \<Longrightarrow> tx_seen p tr tx' u" using tr' by (auto simp: tx_seen_def)
qed

lemma tx_seen_consistent: "tx_ok p tr tx \<Longrightarrow> tx_seen p tr tx op \<Longrightarrow> op_consistent op"
  by (auto simp: tx_ok_def tx_seen_def dest: version_consistent(1))

lemma stored_seen:
  assumes "tx_ok p tr tx" and "(i, op) \<in> set (db_operations (tx_db tx))"
  shows "tx_seen p tr tx op"
proof -
  have "map_of (db_operations (tx_db tx)) i = Some op"
    using assms(1,2) by (simp add: tx_ok_def history_ok_def wf_table_map_of)
  then have "stored_ok (Some op) (versions i (tx_trace p tr tx))"
    using history_okD(2) [of "tx_db tx" "tx_trace p tr tx" i] assms(1) by (simp add: tx_ok_def)
  then have "versions i (tx_trace p tr tx) \<noteq> []" "snd (last (versions i (tx_trace p tr tx))) = op"
    by (auto simp: stored_ok_def split: if_splits)
  then obtain q where "(q, op) \<in> set (versions i (tx_trace p tr tx))"
    by (metis last_in_set prod.collapse)
  then show ?thesis by (auto simp: tx_seen_def in_versions)
qed

lemma id_page_items:
  assumes "id_page C upd idf rows req = Inr pg"
  shows "set (page_items pg) \<subseteq> set rows"
proof -
  obtain c where "to_page C upd idf (take (limit_plus_one req) (rows_after idf rows c)) (clamped_page_size req) = Inr pg"
    using assms by (auto simp: id_page_def split: sum.splits)
  then have "page_items pg = take (clamped_page_size req) (take (limit_plus_one req) (rows_after idf rows c))"
    by (auto simp: to_page_def Let_def split: if_splits sum.splits)
  moreover have "set (rows_after idf rows c) \<subseteq> set rows" by (auto simp: rows_after_def)
  ultimately show ?thesis by (metis in_set_takeD subset_eq)
qed

lemma list_operations_seen:
  assumes "tx_ok p tr tx" and "list_operations C (tx_db tx) tenant device st after req = Inr pg"
    and "op \<in> set (page_items pg)"
  shows "tx_seen p tr tx op"
proof -
  have "op \<in> set (operation_rows C tenant device st after (tx_db tx))"
    using id_page_items assms(2,3) unfolding list_operations_def by blast
  then obtain i where "(i, op) \<in> set (db_operations (tx_db tx))" by (auto simp: operation_rows_def)
  then show ?thesis by (rule stored_seen [OF assms(1)])
qed

lemma recover_oneD:
  assumes "tx_ok p tr tx" and "tx_seen p tr tx op" and "recover_one E tenant epoch op tx = Inr tx'"
  shows "tx_ok p tr tx'" and "tx_seen p tr tx u \<Longrightarrow> tx_seen p tr tx' u"
proof -
  have "tx_ok p tr tx' \<and> (tx_seen p tr tx u \<longrightarrow> tx_seen p tr tx' u)"
  proof (cases "op_expected_epoch op < epoch")
    case True
    then obtain op' ev where f: "op_fail (tx_now E tx) owner_lost_code owner_lost_message op = (op', Inr ev)"
        "tx_change E tenant op' ev tx = Inr tx'"
      using assms(3) by (auto simp: recover_one_def split: prod.splits sum.splits)
    have "op_next op (Some ev) op'"
      by (rule op_fail_next [OF tx_seen_consistent [OF assms(1,2)] f(1)])
    then show ?thesis
      using tx_changeD [OF assms(1,2) _ op_fail_terminal [OF f(1)] f(2)] by blast
  qed (use assms in \<open>simp add: recover_one_def\<close>)
  then show "tx_ok p tr tx'" "tx_seen p tr tx u \<Longrightarrow> tx_seen p tr tx' u" by auto
qed

lemma recover_itemsD:
  assumes "tx_ok p tr tx" and "\<And>op. op \<in> set ops \<Longrightarrow> tx_seen p tr tx op"
    and "recover_items E tenant epoch ops tx = Inr tx'"
  shows "tx_ok p tr tx'"
  using assms
proof (induction ops arbitrary: tx)
  case (Cons op ops)
  obtain tx1 where tx1: "recover_one E tenant epoch op tx = Inr tx1" "recover_items E tenant epoch ops tx1 = Inr tx'"
    using Cons.prems(3) by (auto split: sum.splits)
  have seen: "tx_seen p tr tx op" by (rule Cons.prems(2)) simp
  note one = recover_oneD [OF Cons.prems(1) seen tx1(1)]
  show ?case
    using Cons.IH [OF one(1) _ tx1(2)] one(2) Cons.prems(2) by simp
qed simp

lemma recover_pagesD:
  assumes "recover_pages C E tenant device epoch st req tx = Some (Inr tx')" and "tx_ok p tr tx"
  shows "tx_ok p tr tx'"
proof -
  define P where "P = (\<lambda>(_ :: codec) (_ :: call_env) (_ :: uuid) (_ :: uuid) (_ :: nat) (_ :: string)
    (_ :: page_request) tx r. tx_ok p tr tx \<longrightarrow> (\<forall>tx'. r = (Inr tx' :: domain_error + txn) \<longrightarrow> tx_ok p tr tx'))"
  have "P C E tenant device epoch st req tx (Inr tx')"
  proof (rule recover_pages.raw_induct [where P = P, OF _ assms(1)])
    fix rec C E tenant device epoch st req tx r
    assume IH: "\<And>C E tenant device epoch st req tx r.
        rec C E tenant device epoch st req tx = Some r \<Longrightarrow> P C E tenant device epoch st req tx r"
      and eq: "(case list_operations C (tx_db tx) tenant (Some device) (Some st) None req of
          Inl e \<Rightarrow> Some (Inl e)
        | Inr page \<Rightarrow>
            (case recover_items E tenant epoch (page_items page) tx of
               Inl e \<Rightarrow> Some (Inl e)
             | Inr tx' \<Rightarrow>
                 (case page_next_cursor page of
                    None \<Rightarrow> Some (Inr tx')
                  | Some s \<Rightarrow> rec C E tenant device epoch st (with_cursor req s) tx'))) = Some r"
    show "P C E tenant device epoch st req tx r"
      unfolding P_def
    proof (intro impI allI)
      fix tx' assume ok: "tx_ok p tr tx" and r: "r = Inr tx'"
      from eq r obtain pg tx1 where pg: "list_operations C (tx_db tx) tenant (Some device) (Some st) None req = Inr pg"
          and it: "recover_items E tenant epoch (page_items pg) tx = Inr tx1"
          and rest: "(case page_next_cursor pg of None \<Rightarrow> Some (Inr tx1)
              | Some s \<Rightarrow> rec C E tenant device epoch st (with_cursor req s) tx1) = Some (Inr tx')"
        by (auto split: sum.splits)
      have ok1: "tx_ok p tr tx1"
        using recover_itemsD [OF ok _ it] list_operations_seen [OF ok pg] by blast
      show "tx_ok p tr tx'"
        using rest ok1 IH unfolding P_def by (cases "page_next_cursor pg") auto
    qed
  qed
  then show ?thesis using assms(2) by (simp add: P_def)
qed

lemma recover_operationsD:
  assumes "recover_operations C E tenant device epoch tx = Some (Inr tx')" and "tx_ok p tr tx"
  shows "tx_ok p tr tx'"
  using assms by (auto simp: recover_operations_def Let_def split: option.splits sum.splits dest: recover_pagesD)

lemma takeover_txn_ok:
  assumes "history_ok db tr" and "takeover_txn C E me tenant device lease db = Some (tx, r)"
  shows "tx_ok p tr tx"
proof -
  have same: "tx_ok p tr \<lparr>tx_db = db, tx_saved = []\<rparr>"
    using assms(1) by (simp add: tx_ok_def tx_trace_def)
  obtain st a where acq: "acquire_ownership C tenant device me (env_now E 0) lease (db_cluster db) = (st, a)"
    by fastforce
  show ?thesis
  proof (cases "\<exists>owner previous. a = Inr (Some (owner, previous))")
    case True
    then obtain owner previous where a: "a = Inr (Some (owner, previous))" by blast
    let ?start = "\<lparr>tx_db = db\<lparr>db_cluster := st\<rparr>, tx_saved = []\<rparr>"
    have start: "tx_ok p tr ?start"
      using assms(1) by (simp add: tx_ok_def tx_trace_def history_ok_def op_events_def)
    show ?thesis
    proof (cases "recover_operations C E tenant device (owner_epoch owner) ?start")
      case None
      then show ?thesis using assms(2) acq a by (simp add: takeover_txn_def Let_def)
    next
      case (Some rec)
      show ?thesis
      proof (cases rec)
        case (Inl e)
        then show ?thesis using assms(2) acq a Some same by (auto simp: takeover_txn_def Let_def)
      next
        case (Inr tx1)
        have ok1: "tx_ok p tr tx1" using recover_operationsD Some Inr start by blast
        let ?e = "owner_changed_event E (length (tx_saved tx1)) tenant device owner previous"
        have e: "ref_id (evt_aggregate ?e) = DeviceRes device"
          by (simp add: owner_changed_event_def event_new_def device_resource_ref_def)
        have out: "tx = \<lparr>tx_db = db, tx_saved = []\<rparr> \<or>
            (\<exists>db'. outbox_append ?e (tx_db tx1) = Inr db' \<and> tx = tx1\<lparr>tx_db := db'\<rparr>)"
          using assms(2) acq a Some Inr by (auto simp: takeover_txn_def Let_def split: sum.splits)
        show ?thesis
          using out
        proof
          assume "\<exists>db'. outbox_append ?e (tx_db tx1) = Inr db' \<and> tx = tx1\<lparr>tx_db := db'\<rparr>"
          then obtain db' where db': "outbox_append ?e (tx_db tx1) = Inr db'" "tx = tx1\<lparr>tx_db := db'\<rparr>" by blast
          show ?thesis
            using ok1 outbox_appendD [OF db'(1)] e db'(2)
            by (simp add: tx_ok_def tx_trace_def history_ok_def)
        qed (simp add: same)
      qed
    qed
  next
    case False
    then show ?thesis
      using assms(2) acq same by (auto simp: takeover_txn_def Let_def split: sum.splits option.splits)
  qed
qed

definition buffer_seen :: "nat \<Rightarrow> observation trace \<Rightarrow> txn \<Rightarrow> status_cursor \<Rightarrow> bool" where
  "buffer_seen p tr tx sc \<longleftrightarrow> (\<forall>op \<in> set (sc_buffer sc). tx_seen p tr tx op)"

lemma pop_bufferD:
  assumes "pop_buffer sc = (sc', x)"
  shows "set (sc_buffer sc') \<subseteq> set (sc_buffer sc)" and "x = Some op \<Longrightarrow> op \<in> set (sc_buffer sc)"
  using assms by (auto simp: pop_buffer_def split: if_splits dest: in_set_butlastD)

lemma next_operationD:
  assumes "tx_ok p tr tx" and "buffer_seen p tr tx sc"
    and "next_operation C (tx_db tx) tenant batch sc = Inr (sc', x)"
  shows "buffer_seen p tr tx sc'" and "x = Some op \<Longrightarrow> tx_seen p tr tx op"
proof -
  have "buffer_seen p tr tx sc' \<and> (x = Some op \<longrightarrow> tx_seen p tr tx op)"
  proof (cases "sc_buffer sc = [] \<and> sc_has_more sc")
    case True
    then obtain req page where page: "list_operations C (tx_db tx) tenant None (Some (sc_filter sc)) None req = Inr page"
        and pop: "let sc1 = sc\<lparr>sc_cursor := page_next_cursor page, sc_buffer := page_items page,
                     sc_has_more := page_next_cursor page \<noteq> None\<rparr>
           in (sc', x) = (if sc_buffer sc1 = [] \<and> \<not> sc_has_more sc1 then (sc1, None) else pop_buffer sc1)"
      using assms(3) by (auto simp: next_operation_def Let_def split: sum.splits if_splits)
    have "tx_seen p tr tx v" if "v \<in> set (page_items page)" for v
      using list_operations_seen [OF assms(1) page that] .
    then show ?thesis
      using pop by (auto simp: buffer_seen_def Let_def pop_buffer_def split: if_splits dest: in_set_butlastD)
  next
    case False
    then show ?thesis
      using assms(2,3) pop_bufferD [of sc sc' x]
      by (auto simp: next_operation_def buffer_seen_def split: if_splits)
  qed
  then show "buffer_seen p tr tx sc'" "x = Some op \<Longrightarrow> tx_seen p tr tx op" by auto
qed

lemma reconcile_timeoutD:
  assumes "tx_ok p tr tx" and "tx_seen p tr tx op" and "reconcile_timeout E tenant st op tx = Inr tx'"
  shows "tx_ok p tr tx'" and "tx_seen p tr tx u \<Longrightarrow> tx_seen p tr tx' u"
proof -
  obtain err op' ev where t: "op_timeout (tx_now E tx) err op = (op', Inr ev)" "tx_change E tenant op' ev tx = Inr tx'"
    using assms(3)
    by (auto simp: reconcile_timeout_def op_expire_def map_sum_Inr_iff split: prod.splits sum.splits if_splits)
  have nxt: "op_next op (Some ev) op'"
    by (rule op_timeout_next [OF tx_seen_consistent [OF assms(1,2)] t(1)])
  note c = tx_changeD [OF assms(1,2) nxt op_timeout_terminal [OF t(1)] t(2)]
  show "tx_ok p tr tx'" by (rule c(1))
  show "tx_seen p tr tx u \<Longrightarrow> tx_seen p tr tx' u" by (rule c(2))
qed

lemma reconcile_cursorD:
  assumes "tx_ok p tr tx" and "buffer_seen p tr tx sc"
    and "reconcile_cursor C E batch mx sc (tx, rep) = Inr (sc', tx', rep')"
  shows "tx_ok p tr tx'" and "buffer_seen p tr tx' sc'" and "buffer_seen p tr tx d \<Longrightarrow> buffer_seen p tr tx' d"
proof -
  let ?tenant = "ctx_tenant (env_context E)"
  have "tx_ok p tr tx' \<and> buffer_seen p tr tx' sc' \<and> (buffer_seen p tr tx d \<longrightarrow> buffer_seen p tr tx' d)"
  proof (cases "mx \<le> rr_timed_out rep")
    case False
    then obtain x where n: "next_operation C (tx_db tx) ?tenant batch sc = Inr (sc', x)"
      using assms(3) by (auto simp: reconcile_cursor_def Let_def split: sum.splits option.splits if_splits)
    note seen = next_operationD [OF assms(1,2) n]
    consider "tx' = tx" | op where "x = Some op" "reconcile_timeout E ?tenant (sc_status sc) op tx = Inr tx'"
      using assms(3) n False
      by (auto simp: reconcile_cursor_def Let_def split: sum.splits option.splits if_splits)
    then show ?thesis
    proof cases
      case 1
      then show ?thesis using assms seen by simp
    next
      case (2 op)
      note t = reconcile_timeoutD [OF assms(1) seen(2) [OF 2(1)] 2(2)]
      then show ?thesis using seen(1) by (auto simp: buffer_seen_def)
    qed
  qed (use assms in \<open>auto simp: reconcile_cursor_def\<close>)
  then show "tx_ok p tr tx'" "buffer_seen p tr tx' sc'" "buffer_seen p tr tx d \<Longrightarrow> buffer_seen p tr tx' d"
    by auto
qed

lemma reconcile_loopD:
  assumes "reconcile_loop C E batch mx a b s = Some (Inr (tx', rep'))"
    and "tx_ok p tr (fst s)" and "buffer_seen p tr (fst s) a" and "buffer_seen p tr (fst s) b"
  shows "tx_ok p tr tx'"
proof -
  define P where "P = (\<lambda>(_ :: codec) (_ :: call_env) (_ :: nat) (_ :: nat) a b (s :: txn \<times> reconcile_report) r.
    tx_ok p tr (fst s) \<longrightarrow> buffer_seen p tr (fst s) a \<longrightarrow> buffer_seen p tr (fst s) b \<longrightarrow>
    (\<forall>tx' rep'. r = (Inr (tx', rep') :: signal_error_kind + txn \<times> reconcile_report) \<longrightarrow> tx_ok p tr tx'))"
  have "P C E batch mx a b s (Inr (tx', rep'))"
  proof (rule reconcile_loop.raw_induct [where P = P, OF _ assms(1)])
    fix rec C E batch mx a b s r
    assume IH: "\<And>C E batch mx a b s r. rec C E batch mx a b s = Some r \<Longrightarrow> P C E batch mx a b s r"
      and eq: "(if rr_timed_out (snd s) < mx \<and> (\<not> cursor_exhausted a \<or> \<not> cursor_exhausted b) then
        (case reconcile_cursor C E batch mx a s of
           Inl e \<Rightarrow> Some (Inl e)
         | Inr (p', s') \<Rightarrow>
             (case reconcile_cursor C E batch mx b s' of
                Inl e \<Rightarrow> Some (Inl e)
              | Inr (r', s'') \<Rightarrow> rec C E batch mx p' r' s''))
      else Some (Inr s)) = Some r"
    show "P C E batch mx a b s r"
      unfolding P_def
    proof (intro impI allI)
      fix tx' rep'
      assume h: "tx_ok p tr (fst s)" "buffer_seen p tr (fst s) a" "buffer_seen p tr (fst s) b"
        and r: "r = Inr (tx', rep')"
      show "tx_ok p tr tx'"
      proof (cases "rr_timed_out (snd s) < mx \<and> (\<not> cursor_exhausted a \<or> \<not> cursor_exhausted b)")
        case True
        then obtain a' tx1 rep1 b' tx2 rep2 where
            c1: "reconcile_cursor C E batch mx a (fst s, snd s) = Inr (a', tx1, rep1)"
            and c2: "reconcile_cursor C E batch mx b (tx1, rep1) = Inr (b', tx2, rep2)"
            and rest: "rec C E batch mx a' b' (tx2, rep2) = Some (Inr (tx', rep'))"
          using eq r by (auto split: sum.splits)
        note d1 = reconcile_cursorD [OF h(1,2) c1]
        note d2 = reconcile_cursorD [OF d1(1) d1(3) [OF h(3)] c2]
        show ?thesis
          using IH [OF rest] d2(1,2) d2(3) [OF d1(2)] by (simp add: P_def)
      next
        case False
        then show ?thesis using eq r h(1) by auto
      qed
    qed
  qed
  then show ?thesis using assms(2-4) by (simp add: P_def)
qed

lemma reconcile_ok:
  assumes "history_ok db tr" and "reconcile C E batch mx db = Some (Inr (tx, rep))"
  shows "tx_ok p tr tx"
  using reconcile_loopD [OF assms(2) [unfolded reconcile_def], of p tr] assms(1)
  by (simp add: tx_ok_def tx_trace_def buffer_seen_def cursor_new_def)

end
