(* ===== verification/OperationPool.thy ===== *)
theory OperationPool
  imports OperationRecovery
begin

text \<open>
  All handlers of operations together: submission, cancellation, completion, timeout, dispatch,
  takeover and reconciliation run concurrently on one database, in any number and under any
  schedule.
\<close>

section \<open>The calls\<close>

definition reconcile_handler ::
  "codec \<Rightarrow> call_env \<Rightarrow> nat \<Rightarrow> nat \<Rightarrow> (signal_error_kind + reconcile_report) option process" where
  "reconcile_handler C E batch mx =
     Step (\<lambda>db. case reconcile C E batch mx db of
       None \<Rightarrow> (db, [], Return None)
     | Some (Inl e) \<Rightarrow> (db, [], Return (Some (Inl e)))
     | Some (Inr (tx, rep)) \<Rightarrow> (tx_db tx, map Committed (tx_saved tx), Return (Some (Inr rep))))"

datatype service_answer =
    Answered "domain_error + operation"
  | TookOver "(domain_error + takeover_result) option"
  | Reconciled "(signal_error_kind + reconcile_report) option"

datatype service_call =
    SubmitOperation call_env string resource_ref uuid command_payload "instant option" nat
  | GetOperation uuid uuid
  | CancelOperation call_env uuid
  | CompleteOperation call_env uuid operation_result
  | TimeoutOperation call_env uuid operation_error
  | DispatchOperation call_env uuid uuid "string + owner_info option" "string + unit"
  | TakeOver codec call_env uuid int uuid uuid
  | Reconcile codec call_env nat nat

fun handler_of :: "service_call \<Rightarrow> service_answer process" where
  "handler_of (SubmitOperation E key target device payload deadline epoch) =
     map_prog id Answered (submit_operation E key target device payload deadline epoch)"
| "handler_of (GetOperation tenant i) = map_prog id Answered (get_operation tenant i)"
| "handler_of (CancelOperation E i) = map_prog id Answered (cancel_operation E i)"
| "handler_of (CompleteOperation E i r) = map_prog id Answered (complete_operation E i r)"
| "handler_of (TimeoutOperation E i err) = map_prog id Answered (timeout_operation E i err)"
| "handler_of (DispatchOperation E tenant i resolved answer) =
     map_prog id Answered (dispatch E tenant i resolved answer)"
| "handler_of (TakeOver C E me ms tenant device) = map_prog id TookOver (takeover C E me ms tenant device)"
| "handler_of (Reconcile C E batch mx) = map_prog id Reconciled (reconcile_handler C E batch mx)"

definition run_calls :: "nat list \<Rightarrow> owner_store \<Rightarrow> service_call list \<Rightarrow>
    (database, observation, service_answer) pool" where
  "run_calls schedule st calls = run_pool schedule (start_pool (empty_database st) (map handler_of calls))"

section \<open>The contract\<close>

lemma guarded_takeover_race: "guarded history_ok p tr (takeover_race tenant device)"
  unfolding takeover_race_def by (rule guarded_read_db) (rule guarded_Return)

lemma guarded_takeover_acquire: "guarded history_ok p tr (takeover_acquire C E me tenant device lease)"
  unfolding takeover_acquire_def
proof (rule guarded_read_db)
  fix es db0
  let ?txn = "\<lambda>db. case takeover_txn C E me tenant device lease db of
                 None \<Rightarrow> (db, [], Return None)
               | Some (tx, r) \<Rightarrow>
                   (tx_db tx, map Committed (tx_saved tx),
                    case r of
                      Inl e \<Rightarrow> Return (Some (Inl e))
                    | Inr None \<Rightarrow> takeover_race tenant device
                    | Inr (Some (owner, n)) \<Rightarrow> Return (Some (Inr (TakeoverAcquired owner n))))"
  have "guarded history_ok p (tr @ es) (Step ?txn)"
  proof (rule guarded_Step)
    fix fs db db' os k
    assume h: "by_others p fs" "history_ok db ((tr @ es) @ fs)" and s: "?txn db = (db', os, k)"
    show "history_ok db' ((tr @ es) @ fs @ map (Pair p) os) \<and> guarded history_ok p ((tr @ es) @ fs @ map (Pair p) os) k"
    proof (cases "takeover_txn C E me tenant device lease db")
      case None
      then show ?thesis using s h by (auto intro: guarded_Return)
    next
      case (Some a)
      obtain tx r where a: "a = (tx, r)" by fastforce
      have "tx_ok p ((tr @ es) @ fs) tx" using takeover_txn_ok [OF h(2)] Some a by blast
      then have "history_ok db' ((tr @ es) @ fs @ map (Pair p) os)"
        using s Some a by (auto simp: tx_ok_def tx_trace_def comp_def)
      moreover have "guarded history_ok p ((tr @ es) @ fs @ map (Pair p) os) k"
        using s Some a by (auto intro: guarded_Return guarded_takeover_race split: sum.splits option.splits)
      ultimately show ?thesis ..
    qed
  qed
  then show "guarded history_ok p (tr @ es)
      (if \<not> is_this_node_eligible me (env_now E 0) (db_cluster db0) then Return (Some (Inr TakeoverNotEligible))
       else Step ?txn)"
    by (simp add: guarded_Return)
qed

lemma guarded_takeover: "guarded history_ok p tr (takeover C E me ms tenant device)"
  unfolding takeover_def Let_def
  by (auto intro!: guarded_Return guarded_read_db guarded_takeover_acquire split: option.splits)

lemma guarded_reconcile: "guarded history_ok p tr (reconcile_handler C E batch mx)"
  unfolding reconcile_handler_def
proof (rule guarded_Step)
  fix es db db' and os :: "observation list"
    and k :: "(signal_error_kind + reconcile_report) option process"
  assume h: "by_others p es" "history_ok db (tr @ es)"
    and s: "(case reconcile C E batch mx db of
       None \<Rightarrow> (db, [], Return None)
     | Some (Inl e) \<Rightarrow> (db, [], Return (Some (Inl e)))
     | Some (Inr (tx, rep)) \<Rightarrow> (tx_db tx, map Committed (tx_saved tx), Return (Some (Inr rep)))) = (db', os, k)"
  consider "db' = db" "os = []" | tx rep where "reconcile C E batch mx db = Some (Inr (tx, rep))"
      "db' = tx_db tx" "os = map Committed (tx_saved tx)"
    using s by (auto split: option.splits sum.splits)
  then have "history_ok db' (tr @ es @ map (Pair p) os)"
  proof cases
    case 2
    then show ?thesis using reconcile_ok [OF h(2) 2(1), of p] by (simp add: tx_ok_def tx_trace_def comp_def)
  qed (use h in simp)
  moreover have "guarded history_ok p (tr @ es @ map (Pair p) os) k"
    using s by (auto intro: guarded_Return split: option.splits sum.splits)
  ultimately show "history_ok db' (tr @ es @ map (Pair p) os) \<and> guarded history_ok p (tr @ es @ map (Pair p) os) k" ..
qed

lemma guarded_handler: "guarded history_ok p tr (handler_of c)"
  by (cases c)
    (simp_all add: guarded_map_prog guarded_submit guarded_get guarded_cancel guarded_complete guarded_timeout
      guarded_dispatch guarded_takeover guarded_reconcile)

lemma history_ok_empty: "history_ok (empty_database st) []"
  by (simp add: history_ok_def empty_database_def chain_ok_def stored_ok_def accepted_ok_def op_events_def)

interpretation op_pool: shared_pool history_ok "empty_database st" "range handler_of" for st
  by unfold_locales (auto intro: history_ok_empty guarded_handler)

lemma calls_history: "history_ok (pool_world (run_calls schedule st calls)) (pool_trace (run_calls schedule st calls))"
  unfolding run_calls_def by (rule op_pool.pool_invariant) auto

section \<open>Properties\<close>

text \<open>An instance for evaluation: a user moves a camera; the operation is submitted, dispatched and
  completed by three processes.\<close>

definition sample_context :: request_context where
  "sample_context =
     \<lparr>ctx_tenant = ''tenant'', ctx_principal = \<lparr>principal_id = ''alice'', principal_kind = User, principal_scopes = []\<rparr>,
      ctx_message_id = ''message'', ctx_correlation_id = ''correlation'', ctx_traceparent = None,
      ctx_tracestate = None, ctx_deadline = None, ctx_node = None, ctx_source_ip = None\<rparr>"

definition sample_env :: "string \<Rightarrow> call_env" where
  "sample_env name =
     \<lparr>env_days = 3652424, env_now = int, env_ids = (\<lambda>k. name @ nat_to_dec k), env_context = sample_context\<rparr>"

definition sample_target :: resource_ref where
  "sample_target = \<lparr>ref_tenant = ''tenant'', ref_kind = DeviceKind, ref_id = DeviceRes ''camera''\<rparr>"

definition sample_submit :: service_call where
  "sample_submit =
     SubmitOperation (sample_env ''a'') ''key'' sample_target ''camera'' (StopMediaSession ''media'') None 1"

definition sample_dispatch :: service_call where
  "sample_dispatch =
     DispatchOperation (sample_env ''b'') ''tenant'' ''a0''
       (Inr (Some \<lparr>owner_node_id = ''node'', owner_epoch = 1, owner_lease_until = None\<rparr>)) (Inr ())"

definition sample_complete :: service_call where
  "sample_complete = CompleteOperation (sample_env ''c'') ''a0'' ResultSuccess"

definition sample_cluster :: owner_store where
  "sample_cluster = \<lparr>store_nodes = [], store_owners = [], store_devices = []\<rparr>"

text \<open>
  C3. The outbox tells the history of every operation. Any number of processes submit, cancel,
  complete, time out, dispatch, take over and reconcile operations, interleaved in any way, each of
  them possibly stopping for ever between two steps. Then every stored operation is consistent (its
  status determines its step, result and error), and a consumer that reads the events of the operation
  in the outbox in order, and that rejects a gap, a change out of a terminal status or a sequence number
  that does not grow, arrives exactly at the stored status, result and error. So no update is lost, no
  event is missing or doubled, and an operation ends at most once.
\<close>

theorem outbox_tells_history:
  assumes "map_of (db_operations (pool_world (run_calls schedule st calls))) i = Some op"
  shows "op_id op = i \<and> op_consistent op \<and>
    (\<exists>n \<le> op_revision op. replay (op_events i (pool_world (run_calls schedule st calls)))
       = Some (n, op_status op, op_result op, op_error op))"
proof -
  let ?tr = "pool_trace (run_calls schedule st calls)"
  note h = history_okD [OF calls_history [of schedule st calls], where i = i]
  have V: "versions i ?tr \<noteq> []" "snd (last (versions i ?tr)) = op"
    using h(2) assms by (auto simp: stored_ok_def split: if_splits)
  then have "(fst (last (versions i ?tr)), op) \<in> set (versions i ?tr)" by (metis last_in_set prod.collapse)
  then have "op_consistent op" "op_id op = i"
    using chain_consistent(1) [OF h(1)] by (auto simp: in_versions)
  then show ?thesis using replay_changes [OF h(1) V(1)] h(4) V(2) by simp
qed

theorem outbox_tells_history_witness:
  "\<exists>op n. map_of (db_operations (pool_world (run_calls [0, 0, 1, 1, 1, 1, 1, 2, 2] sample_cluster
        [sample_submit, sample_dispatch, sample_complete]))) ''a0'' = Some op \<and> op_status op = OpSucceeded \<and>
     replay (op_events ''a0'' (pool_world (run_calls [0, 0, 1, 1, 1, 1, 1, 2, 2] sample_cluster
        [sample_submit, sample_dispatch, sample_complete]))) = Some (n, OpSucceeded, op_result op, op_error op)"
proof -
  let ?s = "run_calls [0, 0, 1, 1, 1, 1, 1, 2, 2] sample_cluster [sample_submit, sample_dispatch, sample_complete]"
  have "map_option op_status (map_of (db_operations (pool_world ?s)) ''a0'') = Some OpSucceeded"
    by code_simp
  then obtain op where op: "map_of (db_operations (pool_world ?s)) ''a0'' = Some op" "op_status op = OpSucceeded"
    by auto
  from outbox_tells_history [OF op(1)] show ?thesis using op by auto
qed

text \<open>
  C4. At most once. However many processes dispatch an operation, and whatever the owner resolver and
  the command bus answer, the bus accepts the command of an operation at most once; and it does so
  only after the same process has committed a running version of the operation with the dispatch
  attempt in it.
\<close>

theorem command_accepted_at_most_once:
  "length (accepted i (pool_trace (run_calls schedule st calls))) \<le> 1 \<and>
   list_all (\<lambda>(p, v). (p, Committed v) \<in> set (pool_trace (run_calls schedule st calls)) \<and>
       op_status v = OpRunning \<and> has_pending v)
     (accepted i (pool_trace (run_calls schedule st calls)))"
proof -
  let ?tr = "pool_trace (run_calls schedule st calls)"
  note h = history_okD [OF calls_history [of schedule st calls], where i = i]
  show ?thesis
  proof (cases "accepted i ?tr = []")
    case False
    then obtain p v V1 V2 where a: "accepted i ?tr = [(p, v)]" "versions i ?tr = V1 @ (p, v) # V2"
        "\<not> op_is_terminal v" "has_pending v"
      using h(3) by (auto simp: accepted_ok_def)
    have v: "(p, v) \<in> set (versions i ?tr)" using a(2) by simp
    then have "op_status v \<noteq> OpPending"
      using chain_consistent(2) [OF h(1) v] a(4) by (auto simp: has_pending_def)
    moreover have "(p, Committed v) \<in> set ?tr" using v by (simp add: in_versions)
    ultimately show ?thesis using a by (simp add: not_terminal_iff)
  qed simp
qed

text \<open>
  C39. A dispatch that died after it had recorded its attempt is never repeated. If a running operation
  has a pending attempt and none that was sent, a dispatch finds the attempt, saves the unchanged
  operation and fails with a concurrent modification, because the lock of \<open>save\<close> demands a new
  revision. Nothing is sent and nothing is changed, whatever the resolver and the bus would answer. The
  documentation of \<open>dispatch\<close> says that the next call re-uses the pending attempt and sends again.
\<close>

theorem pending_attempt_blocks_dispatch:
  assumes "operation_get db tenant i = Some op" and "op_id op = i" and "op_consistent op"
    and "op_status op = OpRunning" and "has_pending op" and "\<not> has_sent op"
  shows "run_alone (dispatch E tenant i resolved answer) db
    = (db, [], Inl (DomainConcurrentModification (op_revision op - 1) (op_revision op)))"
proof -
  let ?sid = "command_step (op_command op)"
  obtain aid where aid: "find_pending_attempt_id op ?sid = Some aid"
    using find_pending_iff [OF assms(3)] assms(5) by (cases "find_pending_attempt_id op ?sid") auto
  have "map_of (db_operations db) (op_id op) = Some op"
    using assms(1,2) by (auto simp: operation_get_def split: option.splits if_splits)
  then have "apply_writes [SaveOperation op] db
      = Inl (DomainConcurrentModification (op_revision op - 1) (op_revision op))"
    by (simp add: operation_save_def)
  then show ?thesis
    using assms has_sent_or_acked_iff [OF assms(3)] aid
    by (simp add: dispatch_def read_db_def dispatch_record_def save_operation_def commit_def
        op_is_terminal_def status_is_terminal_def Let_def)
qed

text \<open>The dispatcher of the instance dies before it sends.\<close>

definition sample_crashed :: database where
  "sample_crashed = pool_world (run_calls [0, 0, 1, 1, 1] sample_cluster [sample_submit, sample_dispatch])"

theorem pending_attempt_blocks_dispatch_witness:
  "\<exists>op. operation_get sample_crashed ''tenant'' ''a0'' = Some op \<and>
     run_alone (dispatch (sample_env ''d'') ''tenant'' ''a0''
         (Inr (Some \<lparr>owner_node_id = ''node'', owner_epoch = 1, owner_lease_until = None\<rparr>)) (Inr ())) sample_crashed
       = (sample_crashed, [], Inl (DomainConcurrentModification (op_revision op - 1) (op_revision op)))"
proof -
  have "case operation_get sample_crashed ''tenant'' ''a0'' of
      Some op \<Rightarrow> op_id op = ''a0'' \<and> op_consistent op \<and> op_status op = OpRunning \<and> has_pending op \<and> \<not> has_sent op
    | None \<Rightarrow> False"
    by code_simp
  then obtain op where op: "operation_get sample_crashed ''tenant'' ''a0'' = Some op" "op_id op = ''a0''"
      "op_consistent op" "op_status op = OpRunning" "has_pending op" "\<not> has_sent op"
    by (auto split: option.splits)
  show ?thesis
    by (rule exI, rule conjI, rule op(1), rule pending_attempt_blocks_dispatch [OF op])
qed

end
