(* ===== verification/Spec2Isabelle.thy ===== *)
theory Spec2Isabelle
  imports Driver RateLimit DigestAuth OwnerCache RollingUpgrade OperationPool
begin

text \<open>
  Verification of the Cheetah signaling control plane.
\<close>

end
